(* ===== verification/Prelude.thy ===== *)
theory Prelude
  imports Main "HOL-Library.Word" "HOL-Library.Sublist"
begin

text \<open>
  Shared vocabulary of the development: the machine types of the source
  (\<open>uint8_t\<close>, \<open>uint32_t\<close>, \<open>uint64_t\<close> as words that wrap, byte strings as lists of bytes),
  unchecked reads and in-place writes of a byte buffer, string literals as byte strings,
  the \<open>Status\<close> values every fallible operation returns, and the lemma collections the
  component theories extend.
\<close>

unbundle bit_operations_syntax

section \<open>Types\<close>

type_synonym byte = "8 word"
type_synonym u32 = "32 word"
type_synonym u64 = "64 word"

text \<open>
  A \<open>Slice\<close> is a pointer and a length into storage that outlives it, and a \<open>std::string\<close> an
  owned buffer. The model keeps the bytes either one denotes.
\<close>

type_synonym bytes = "byte list"

named_theorems wire_length \<open>lengths of encoded values\<close>
named_theorems wire_decode \<open>decoders applied to what the encoders wrote\<close>
named_theorems wire_defs \<open>definitions of encoders and decoders, for evaluation\<close>

section \<open>Buffers\<close>

text \<open>
  The source reads fixed-width integers with no bounds check. Every caller checks the length
  first; past the end of the buffer the model reads zero, so a definition stays total, and the
  lemmas about such a read carry the length as a hypothesis.
\<close>

definition byte_at :: "bytes \<Rightarrow> nat \<Rightarrow> byte" where
  "byte_at p i = (if i < length p then p ! i else 0)"

text \<open>Overwriting the bytes of a buffer from an offset on, as \<open>EncodeFixed32(buf + i, v)\<close> does.\<close>

definition poke :: "bytes \<Rightarrow> nat \<Rightarrow> bytes \<Rightarrow> bytes" where
  "poke buf i new = take i buf @ new @ drop (i + length new) buf"

text \<open>The bytes of an ASCII string literal.\<close>

definition lit :: "string \<Rightarrow> bytes" where
  "lit s = map of_char s"

section \<open>Status (include/leveldb/status.h, util/status.cc)\<close>

datatype code = kNotFound | kCorruption | kNotSupported | kInvalidArgument | kIOError

text \<open>
  \<open>OK\<close> is the null \<open>state_\<close>; every other status carries its code and its message, the array the
  constructor builds from \<open>msg\<close> and \<open>msg2\<close>.
\<close>

datatype status = OK | Failed code bytes

definition mk_status :: "code \<Rightarrow> bytes \<Rightarrow> bytes \<Rightarrow> status" where
  "mk_status c msg msg2 =
     Failed c (msg @ (if length msg2 \<noteq> 0 then lit '': '' @ msg2 else []))"

definition NotFound :: "bytes \<Rightarrow> status" where
  "NotFound msg = mk_status kNotFound msg []"

definition Corruption :: "string \<Rightarrow> status" where
  "Corruption msg = mk_status kCorruption (lit msg) []"

definition Corruption2 :: "string \<Rightarrow> bytes \<Rightarrow> status" where
  "Corruption2 msg msg2 = mk_status kCorruption (lit msg) msg2"

definition IOError :: "string \<Rightarrow> status" where
  "IOError msg = mk_status kIOError (lit msg) []"

definition InvalidArgument :: "bytes \<Rightarrow> bytes \<Rightarrow> status" where
  "InvalidArgument msg msg2 = mk_status kInvalidArgument msg msg2"

definition status_ok :: "status \<Rightarrow> bool" where
  "status_ok s = (s = OK)"

fun status_code :: "status \<Rightarrow> code option" where
  "status_code OK = None"
| "status_code (Failed c m) = Some c"

fun code_name :: "code \<Rightarrow> string" where
  "code_name kNotFound = ''NotFound: ''"
| "code_name kCorruption = ''Corruption: ''"
| "code_name kNotSupported = ''Not implemented: ''"
| "code_name kInvalidArgument = ''Invalid argument: ''"
| "code_name kIOError = ''IO error: ''"

fun status_ToString :: "status \<Rightarrow> bytes" where
  "status_ToString OK = lit ''OK''"
| "status_ToString (Failed c m) = lit (code_name c) @ m"

section \<open>Generic lemmas\<close>

lemma status_ok_simps [simp]:
  "status_ok OK" "\<not> status_ok (Failed c m)"
  "\<not> status_ok (NotFound b)" "\<not> status_ok (Corruption s)" "\<not> status_ok (IOError s)"
  "\<not> status_ok (Corruption2 s b)" "\<not> status_ok (InvalidArgument b b')"
  by (simp_all add: status_ok_def NotFound_def Corruption_def Corruption2_def IOError_def
      InvalidArgument_def mk_status_def)

lemma Corruption_not_OK [simp]:
  "Corruption s \<noteq> OK" "OK \<noteq> Corruption s" "Corruption2 s b \<noteq> OK" "NotFound b \<noteq> OK"
  "OK \<noteq> NotFound b"
  by (simp_all add: Corruption_def Corruption2_def NotFound_def mk_status_def)

lemma length_poke [simp]: "i + length new \<le> length buf \<Longrightarrow> length (poke buf i new) = length buf"
  by (simp add: poke_def)

lemma drop_poke: "i + length new \<le> n \<Longrightarrow> n \<le> length buf \<Longrightarrow> drop n (poke buf i new) = drop n buf"
  by (simp add: poke_def)

lemma take_poke: "n \<le> i \<Longrightarrow> i \<le> length buf \<Longrightarrow> take n (poke buf i new) = take n buf"
  by (simp add: poke_def)

lemma byte_at_append_left [simp]: "i < length p \<Longrightarrow> byte_at (p @ q) i = p ! i"
  by (simp add: byte_at_def nth_append)

lemma byte_at_nth: "i < length p \<Longrightarrow> byte_at p i = p ! i"
  by (simp add: byte_at_def)

text \<open>Bits of narrow and wide words beyond their width.\<close>

lemma not_bit_beyond: "LENGTH('a::len) \<le> n \<Longrightarrow> \<not> bit (w :: 'a word) n"
  using bit_imp_le_length by (metis linorder_not_less)

text \<open>
  Seven low bits and the rest of a word are the word: what one round of a base-128 encoding
  keeps and passes on.
\<close>

lemma low7_mask: "(127 :: 'a::len word) = mask 7"
  by (simp add: mask_eq_exp_minus_1)

lemma split_low7:
  "push_bit s (v AND 127) OR push_bit (s + 7) (drop_bit 7 v) = push_bit s (v :: 'a::len word)"
proof (rule bit_word_eqI)
  fix n
  assume "n < LENGTH('a)"
  show "bit (push_bit s (v AND 127) OR push_bit (s + 7) (drop_bit 7 v)) n \<longleftrightarrow>
      bit (push_bit s v) n"
  proof (cases "s + 7 \<le> n")
    case True
    then have "7 + (n - (s + 7)) = n - s" by arith
    with True show ?thesis
      unfolding low7_mask by (auto simp: bit_simps)
  next
    case False
    then show ?thesis
      unfolding low7_mask by (auto simp: bit_simps)
  qed
qed

lemma word_below_drop_bit:
  fixes v :: "'a::len word"
  assumes "unat v < 2 ^ (k + m)"
  shows "unat (drop_bit m v) < 2 ^ k"
proof -
  have "unat (drop_bit m v) = unat v div 2 ^ m"
    by (simp add: unat_drop_bit_eq flip: drop_bit_eq_div)
  also have "\<dots> < 2 ^ k"
    using assms by (simp add: less_mult_imp_div_less power_add mult.commute)
  finally show ?thesis .
qed

text \<open>Words as natural numbers.\<close>

lemma unat_drop_bit: "unat (drop_bit k (v :: 'a::len word)) = unat v div 2 ^ k"
  by (simp only: unat_drop_bit_eq) (simp only: drop_bit_eq_div)

lemma unat_ucast: "unat (ucast (w :: 'a::len word) :: 'b::len word) = unat w mod 2 ^ LENGTH('b)"
  by (simp add: unsigned_ucast_eq take_bit_eq_mod)

lemma unat_less: "unat (w :: 'a::len word) < 2 ^ LENGTH('a)"
  using unsigned_less [of w] by simp

lemma unat_take_bit: "unat (take_bit n (w :: 'a::len word)) = unat w mod 2 ^ n"
  by (simp add: unsigned_take_bit_eq flip: take_bit_eq_mod)

end
