(* ===== verification/Coding.thy ===== *)
theory Coding
  imports Prelude
begin

text \<open>
  \<open>util/coding.h\<close> and \<open>util/coding.cc\<close>: fixed-width little-endian integers, base-128 varints and
  length-prefixed slices. An encoder that writes at \<open>char* dst\<close> is the list of bytes it writes; a
  decoder over \<open>[p, limit)\<close> takes that range as a list and returns the decoded value with the rest
  of the range, or \<open>None\<close> for the null pointer or \<open>false\<close> of the source.
\<close>

section \<open>Operations\<close>

subsection \<open>Fixed-width integers\<close>

definition EncodeFixed32 :: "u32 \<Rightarrow> bytes" where
  "EncodeFixed32 v =
     [ucast v, ucast (drop_bit 8 v), ucast (drop_bit 16 v), ucast (drop_bit 24 v)]"

definition EncodeFixed64 :: "u64 \<Rightarrow> bytes" where
  "EncodeFixed64 v =
     [ucast v, ucast (drop_bit 8 v), ucast (drop_bit 16 v), ucast (drop_bit 24 v),
      ucast (drop_bit 32 v), ucast (drop_bit 40 v), ucast (drop_bit 48 v), ucast (drop_bit 56 v)]"

definition DecodeFixed32 :: "bytes \<Rightarrow> u32" where
  "DecodeFixed32 p =
     ucast (byte_at p 0) OR push_bit 8 (ucast (byte_at p 1)) OR
     push_bit 16 (ucast (byte_at p 2)) OR push_bit 24 (ucast (byte_at p 3))"

definition DecodeFixed64 :: "bytes \<Rightarrow> u64" where
  "DecodeFixed64 p =
     ucast (byte_at p 0) OR push_bit 8 (ucast (byte_at p 1)) OR
     push_bit 16 (ucast (byte_at p 2)) OR push_bit 24 (ucast (byte_at p 3)) OR
     push_bit 32 (ucast (byte_at p 4)) OR push_bit 40 (ucast (byte_at p 5)) OR
     push_bit 48 (ucast (byte_at p 6)) OR push_bit 56 (ucast (byte_at p 7))"

definition PutFixed32 :: "bytes \<Rightarrow> u32 \<Rightarrow> bytes" where
  "PutFixed32 dst v = dst @ EncodeFixed32 v"

definition PutFixed64 :: "bytes \<Rightarrow> u64 \<Rightarrow> bytes" where
  "PutFixed64 dst v = dst @ EncodeFixed64 v"

subsection \<open>Varints\<close>

definition EncodeVarint32 :: "u32 \<Rightarrow> bytes" where
  "EncodeVarint32 v =
     (if v < push_bit 7 1 then [ucast v]
      else if v < push_bit 14 1 then [ucast (v OR 128), ucast (drop_bit 7 v)]
      else if v < push_bit 21 1 then
        [ucast (v OR 128), ucast (drop_bit 7 v OR 128), ucast (drop_bit 14 v)]
      else if v < push_bit 28 1 then
        [ucast (v OR 128), ucast (drop_bit 7 v OR 128), ucast (drop_bit 14 v OR 128),
         ucast (drop_bit 21 v)]
      else
        [ucast (v OR 128), ucast (drop_bit 7 v OR 128), ucast (drop_bit 14 v OR 128),
         ucast (drop_bit 21 v OR 128), ucast (drop_bit 28 v)])"

lemma drop_bit7_less: "128 \<le> (v :: u64) \<Longrightarrow> unat (drop_bit 7 v) < unat v"
proof -
  assume "128 \<le> v"
  then have "128 \<le> unat v" by (simp add: word_le_nat_alt)
  then show ?thesis by (simp only: unat_drop_bit_eq) (simp add: drop_bit_eq_div)
qed

function EncodeVarint64 :: "u64 \<Rightarrow> bytes" where
  "EncodeVarint64 v =
     (if 128 \<le> v then ucast (v OR 128) # EncodeVarint64 (drop_bit 7 v) else [ucast v])"
  by pat_completeness auto
termination
  by (relation "measure unat") (auto intro: drop_bit7_less)

function VarintLength_loop :: "u64 \<Rightarrow> nat \<Rightarrow> nat" where
  "VarintLength_loop v len =
     (if 128 \<le> v then VarintLength_loop (drop_bit 7 v) (len + 1) else len)"
  by pat_completeness auto
termination
  by (relation "measure (\<lambda>(v, len). unat v)") (auto intro: drop_bit7_less)

definition VarintLength :: "u64 \<Rightarrow> nat" where
  "VarintLength v = VarintLength_loop v 1"

declare EncodeVarint64.simps [simp del]
declare VarintLength_loop.simps [simp del]

definition PutVarint32 :: "bytes \<Rightarrow> u32 \<Rightarrow> bytes" where
  "PutVarint32 dst v = dst @ EncodeVarint32 v"

definition PutVarint64 :: "bytes \<Rightarrow> u64 \<Rightarrow> bytes" where
  "PutVarint64 dst v = dst @ EncodeVarint64 v"

text \<open>The loops of the two decoders: \<open>shift\<close>, \<open>result\<close> and the bytes between \<open>p\<close> and \<open>limit\<close>.\<close>

fun GetVarint32Ptr_loop :: "nat \<Rightarrow> u32 \<Rightarrow> bytes \<Rightarrow> (u32 \<times> bytes) option" where
  "GetVarint32Ptr_loop shift result [] = None"
| "GetVarint32Ptr_loop shift result (b # p) =
     (if shift \<le> 28 then
        (let byte = ucast b
         in if byte AND 128 \<noteq> 0
            then GetVarint32Ptr_loop (shift + 7) (result OR push_bit shift (byte AND 127)) p
            else Some (result OR push_bit shift byte, p))
      else None)"

definition GetVarint32PtrFallback :: "bytes \<Rightarrow> (u32 \<times> bytes) option" where
  "GetVarint32PtrFallback p = GetVarint32Ptr_loop 0 0 p"

definition GetVarint32Ptr :: "bytes \<Rightarrow> (u32 \<times> bytes) option" where
  "GetVarint32Ptr p =
     (case p of
        b # q \<Rightarrow> if (ucast b :: u32) AND 128 = 0 then Some (ucast b, q)
                 else GetVarint32PtrFallback p
      | [] \<Rightarrow> GetVarint32PtrFallback p)"

fun GetVarint64Ptr_loop :: "nat \<Rightarrow> u64 \<Rightarrow> bytes \<Rightarrow> (u64 \<times> bytes) option" where
  "GetVarint64Ptr_loop shift result [] = None"
| "GetVarint64Ptr_loop shift result (b # p) =
     (if shift \<le> 63 then
        (let byte = ucast b
         in if byte AND 128 \<noteq> 0
            then GetVarint64Ptr_loop (shift + 7) (result OR push_bit shift (byte AND 127)) p
            else Some (result OR push_bit shift byte, p))
      else None)"

definition GetVarint64Ptr :: "bytes \<Rightarrow> (u64 \<times> bytes) option" where
  "GetVarint64Ptr p = GetVarint64Ptr_loop 0 0 p"

text \<open>On a slice the two decoders return the advanced slice; on failure the slice is unchanged.\<close>

definition GetVarint32 :: "bytes \<Rightarrow> (u32 \<times> bytes) option" where
  "GetVarint32 input = GetVarint32Ptr input"

definition GetVarint64 :: "bytes \<Rightarrow> (u64 \<times> bytes) option" where
  "GetVarint64 input = GetVarint64Ptr input"

subsection \<open>Length-prefixed slices\<close>

text \<open>The length of the slice is converted to \<open>uint32_t\<close>, as the call of \<open>PutVarint32\<close> does.\<close>

definition PutLengthPrefixedSlice :: "bytes \<Rightarrow> bytes \<Rightarrow> bytes" where
  "PutLengthPrefixedSlice dst v = PutVarint32 dst (of_nat (length v)) @ v"

definition GetLengthPrefixedSlice :: "bytes \<Rightarrow> (bytes \<times> bytes) option" where
  "GetLengthPrefixedSlice input =
     (case GetVarint32 input of
        Some (len, rest) \<Rightarrow>
          if unat len \<le> length rest then Some (take (unat len) rest, drop (unat len) rest)
          else None
      | None \<Rightarrow> None)"

text \<open>
  The overload on a pointer range, whose result pointer is the rest of the range. \<open>p + len\<close> does
  not wrap: \<open>limit\<close> bounds a buffer that exists in memory.
\<close>

definition GetLengthPrefixedSlicePtr :: "bytes \<Rightarrow> (bytes \<times> bytes) option" where
  "GetLengthPrefixedSlicePtr p =
     (case GetVarint32Ptr p of
        None \<Rightarrow> None
      | Some (len, q) \<Rightarrow>
          if length q < unat len then None
          else Some (take (unat len) q, drop (unat len) q))"

lemmas coding_defs [wire_defs] =
  EncodeFixed32_def EncodeFixed64_def DecodeFixed32_def DecodeFixed64_def PutFixed32_def
  PutFixed64_def EncodeVarint32_def EncodeVarint64.simps PutVarint32_def PutVarint64_def
  GetVarint32PtrFallback_def GetVarint32Ptr_def GetVarint64Ptr_def GetVarint32_def
  GetVarint64_def PutLengthPrefixedSlice_def GetLengthPrefixedSlice_def

section \<open>Lemmas\<close>

subsection \<open>Fixed-width integers\<close>

lemma length_EncodeFixed [simp, wire_length]:
  "length (EncodeFixed32 v) = 4" "length (EncodeFixed64 w) = 8"
  by (simp_all add: EncodeFixed32_def EncodeFixed64_def)

lemma byte_part:
  "push_bit k (ucast (ucast (drop_bit k v) :: byte)) = (v :: 'a::len word) AND push_bit k (mask 8)"
  by (rule bit_word_eqI) (auto simp: bit_simps)

lemma byte_part0: "ucast (ucast v :: byte) = (v :: 'a::len word) AND mask 8"
  using byte_part [of 0 v] by simp

lemma bytes_cover32:
  "(mask 8 OR push_bit 8 (mask 8) OR push_bit 16 (mask 8) OR push_bit 24 (mask 8) :: u32) = -1"
  by (simp add: mask_numeral)

lemma bytes_cover64:
  "(mask 8 OR push_bit 8 (mask 8) OR push_bit 16 (mask 8) OR push_bit 24 (mask 8) OR
    push_bit 32 (mask 8) OR push_bit 40 (mask 8) OR push_bit 48 (mask 8) OR push_bit 56 (mask 8)
    :: u64) = -1"
  by (simp add: mask_numeral)

lemma DecodeFixed32_Encode [simp, wire_decode]: "DecodeFixed32 (EncodeFixed32 v @ rest) = v"
proof -
  have "DecodeFixed32 (EncodeFixed32 v @ rest) =
      v AND (mask 8 OR push_bit 8 (mask 8) OR push_bit 16 (mask 8) OR push_bit 24 (mask 8))"
    by (simp add: DecodeFixed32_def EncodeFixed32_def byte_at_def byte_part byte_part0 [of v]
        bit.conj_disj_distrib)
  then show ?thesis by (simp add: bytes_cover32)
qed

lemma DecodeFixed64_Encode [simp, wire_decode]: "DecodeFixed64 (EncodeFixed64 v @ rest) = v"
proof -
  have "DecodeFixed64 (EncodeFixed64 v @ rest) =
      v AND (mask 8 OR push_bit 8 (mask 8) OR push_bit 16 (mask 8) OR push_bit 24 (mask 8) OR
        push_bit 32 (mask 8) OR push_bit 40 (mask 8) OR push_bit 48 (mask 8) OR push_bit 56 (mask 8))"
    by (simp add: DecodeFixed64_def EncodeFixed64_def byte_at_def byte_part byte_part0 [of v]
        bit.conj_disj_distrib)
  then show ?thesis by (simp add: bytes_cover64)
qed

lemma take_bytes: "n \<le> length p \<Longrightarrow> take n p = map (byte_at p) [0..<n]"
  by (rule nth_equalityI) (auto simp: byte_at_def)

lemma byte_high_bit [simp]: "8 \<le> n \<Longrightarrow> \<not> bit (b :: byte) n"
  by (rule not_bit_beyond) simp

lemma upt4_8: "[0..<4] = [0, 1, 2, 3 :: nat]" "[0..<8] = [0, 1, 2, 3, 4, 5, 6, 7 :: nat]"
  by (simp_all add: upt_rec)

lemma EncodeFixed32_Decode: "4 \<le> length p \<Longrightarrow> EncodeFixed32 (DecodeFixed32 p) = take 4 p"
  by (auto simp: take_bytes upt4_8 EncodeFixed32_def DecodeFixed32_def bit_simps
    intro!: bit_word_eqI)

lemma EncodeFixed64_Decode: "8 \<le> length p \<Longrightarrow> EncodeFixed64 (DecodeFixed64 p) = take 8 p"
  by (auto simp: take_bytes upt4_8 EncodeFixed64_def DecodeFixed64_def bit_simps
    intro!: bit_word_eqI)


lemma DecodeFixed_Encode_Nil [simp, wire_decode]:
  "DecodeFixed32 (EncodeFixed32 v) = v" "DecodeFixed64 (EncodeFixed64 w) = w"
  using DecodeFixed32_Encode [of v "[]"] DecodeFixed64_Encode [of w "[]"] by simp_all

subsection \<open>Varints\<close>

lemma bit_128: "bit (128 :: int) n \<longleftrightarrow> n = 7"
  using bit_exp_iff [where 'a = int, of 7 n] by (auto simp: possible_bit_def)

lemma more_byte_low: "ucast (ucast ((v :: 'a::len word) OR 128) :: byte) AND 127 = v AND 127"
  unfolding low7_mask by (rule bit_word_eqI) (auto simp: bit_simps bit_128)

lemma more_byte_flag:
  "8 \<le> LENGTH('a) \<Longrightarrow> (ucast (ucast ((v :: 'a::len word) OR 128) :: byte) :: 'a word) AND 128 \<noteq> 0"
proof
  assume l: "8 \<le> LENGTH('a)" and z: "(ucast (ucast (v OR 128) :: byte) :: 'a word) AND 128 = 0"
  have "bit ((ucast (ucast (v OR 128) :: byte) :: 'a word) AND 128) 7"
    using l by (auto simp: bit_simps bit_128)
  with z show False by simp
qed

lemma last_byte:
  assumes "\<not> 128 \<le> (v :: 'a::len word)"
  shows "ucast (ucast v :: byte) = v" "v AND 128 = 0"
proof -
  from assms have "take_bit 7 v = v"
    by (simp add: take_bit_eq_mod not_le mod_word_less)
  then have high: "\<not> bit v n" if "7 \<le> n" for n
    using that by (metis bit_take_bit_iff not_le)
  show "ucast (ucast v :: byte) = v"
    using high by (intro bit_word_eqI) (auto simp: bit_simps not_le intro: ccontr)
  show "v AND 128 = 0"
    using high by (intro bit_word_eqI) (auto simp: bit_simps bit_128)
qed

lemma GetVarint64Ptr_loop_Encode:
  "shift \<le> 63 \<Longrightarrow> unat v < 2 ^ (64 - shift) \<Longrightarrow>
   GetVarint64Ptr_loop shift acc (EncodeVarint64 v @ rest) = Some (acc OR push_bit shift v, rest)"
proof (induction v arbitrary: shift acc rule: EncodeVarint64.induct)
  case (1 v)
  show ?case
  proof (cases "128 \<le> v")
    case True
    then have "128 \<le> unat v" by (simp add: word_le_nat_alt)
    with "1.prems"(2) have lt: "(2::nat) ^ 7 < 2 ^ (64 - shift)" by simp
    then have "7 < 64 - shift" by (subst (asm) power_strict_increasing_iff) auto
    then have sh: "shift + 7 \<le> 63" "64 - (shift + 7) + 7 = 64 - shift" by simp_all
    have "unat (drop_bit 7 v) < 2 ^ (64 - (shift + 7))"
      using "1.prems"(2) sh(2) by (intro word_below_drop_bit) simp
    from "1.IH" [OF True sh(1) this] show ?thesis
      using True "1.prems"(1)
      by (simp add: EncodeVarint64.simps [of v] Let_def more_byte_low more_byte_flag or.assoc split_low7
          del: push_bit_and)
  next
    case False
    then show ?thesis
      using "1.prems" by (simp add: EncodeVarint64.simps [of v] Let_def last_byte)
  qed
qed

lemma GetVarint64_Encode [simp, wire_decode]:
  "GetVarint64 (EncodeVarint64 v @ rest) = Some (v, rest)"
  using GetVarint64Ptr_loop_Encode [of 0 v 0 rest] unsigned_less [of v, where 'a = nat]
  by (simp add: GetVarint64_def GetVarint64Ptr_def)

lemma EncodeVarint64_ucast:
  "EncodeVarint64 (ucast (w :: u32)) =
    (if 128 \<le> w then ucast (w OR 128) # EncodeVarint64 (ucast (drop_bit 7 w)) else [ucast w])"
proof -
  have "128 \<le> (ucast w :: u64) \<longleftrightarrow> 128 \<le> w"
    by (simp add: word_le_nat_alt unsigned_ucast_eq take_bit_nat_eq_self unsigned_less[THEN less_le_trans])
  moreover have "drop_bit 7 (ucast w :: u64) = ucast (drop_bit 7 w)"
    by (rule bit_word_eqI) (use bit_imp_le_length [of w] in \<open>force simp: bit_simps\<close>)
  moreover have "ucast ((ucast w :: u64) OR 128) = (ucast (w OR 128) :: byte)"
    by (rule bit_word_eqI) (auto simp: bit_simps)
  moreover have "ucast (ucast w :: u64) = (ucast w :: byte)"
    by (rule bit_word_eqI) (auto simp: bit_simps)
  ultimately show ?thesis
    by (subst EncodeVarint64.simps) simp
qed

lemma EncodeVarint32_eq: "EncodeVarint32 v = EncodeVarint64 (ucast v)"
proof -
  define n where "n = unat v"
  have ge: "128 \<le> drop_bit 28 v \<longleftrightarrow> False"
    "128 \<le> drop_bit 21 v \<longleftrightarrow> 2 ^ 28 \<le> n" "128 \<le> drop_bit 14 v \<longleftrightarrow> 2 ^ 21 \<le> n"
    "128 \<le> drop_bit 7 v \<longleftrightarrow> 2 ^ 14 \<le> n" "128 \<le> v \<longleftrightarrow> 2 ^ 7 \<le> n"
    using unsigned_less [of v, where 'a = nat]
    by (simp_all add: word_le_nat_alt unat_drop_bit n_def less_eq_div_iff_mult_less_eq)
  consider "n < 2 ^ 7" | "2 ^ 7 \<le> n" "n < 2 ^ 14" | "2 ^ 14 \<le> n" "n < 2 ^ 21"
    | "2 ^ 21 \<le> n" "n < 2 ^ 28" | "2 ^ 28 \<le> n" by linarith
  then show ?thesis
    by cases (simp_all add: EncodeVarint32_def EncodeVarint64_ucast ge word_less_nat_alt
        flip: n_def)
qed

lemma GetVarint32Ptr_loop_Encode:
  "shift mod 7 = 0 \<Longrightarrow> unat v < 2 ^ (32 - shift) \<Longrightarrow> shift \<le> 28 \<Longrightarrow>
   GetVarint32Ptr_loop shift acc (EncodeVarint64 (ucast v) @ rest) =
     Some (acc OR push_bit shift v, rest)"
proof (induction "unat v" arbitrary: v shift acc rule: less_induct)
  case less
  show ?case
  proof (cases "128 \<le> v")
    case True
    then have "128 \<le> unat v" by (simp add: word_le_nat_alt)
    with less.prems(2) have lt: "(2::nat) ^ 7 < 2 ^ (32 - shift)" by simp
    then have "7 < 32 - shift" by (subst (asm) power_strict_increasing_iff) auto
    then have sh: "32 - (shift + 7) + 7 = 32 - shift" "shift + 7 \<le> 28"
      using less.prems(1) by presburger+
    have smaller: "unat (drop_bit 7 v) < unat v"
      using \<open>128 \<le> unat v\<close> by (simp only: unat_drop_bit) simp
    have mod: "(shift + 7) mod 7 = 0"
      using less.prems(1) by simp
    have "unat (drop_bit 7 v) < 2 ^ (32 - (shift + 7))"
      using less.prems(2) sh(1) by (intro word_below_drop_bit) simp
    from less.hyps [OF smaller mod this sh(2)] show ?thesis
      using True less.prems(3)
      by (simp add: EncodeVarint64_ucast [of v] Let_def more_byte_low more_byte_flag or.assoc
          split_low7 del: push_bit_and)
  next
    case False
    then show ?thesis
      using less.prems by (simp add: EncodeVarint64_ucast [of v] Let_def last_byte)
  qed
qed

text \<open>The one-byte fast path of \<open>GetVarint32Ptr\<close> gives what its loop gives.\<close>

lemma GetVarint32Ptr_eq_loop: "GetVarint32Ptr p = GetVarint32Ptr_loop 0 0 p"
  by (cases p) (simp_all add: GetVarint32Ptr_def GetVarint32PtrFallback_def Let_def)

lemma GetVarint32_Encode [simp, wire_decode]:
  "GetVarint32 (EncodeVarint32 v @ rest) = Some (v, rest)"
  "GetVarint32Ptr (EncodeVarint32 v @ rest) = Some (v, rest)"
  using GetVarint32Ptr_loop_Encode [of 0 v 0 rest] unsigned_less [of v, where 'a = nat]
  by (simp_all add: GetVarint32_def GetVarint32Ptr_eq_loop EncodeVarint32_eq)

lemma EncodeVarint64_nonempty [simp]: "EncodeVarint64 v \<noteq> []"
  by (simp add: EncodeVarint64.simps [of v])

lemma VarintLength_loop_acc: "VarintLength_loop v len = len + length (EncodeVarint64 v) - 1"
proof (induction v len rule: VarintLength_loop.induct)
  case (1 v len)
  then show ?case
    by (cases "128 \<le> v")
      (simp_all add: VarintLength_loop.simps [of v] EncodeVarint64.simps [of v]
        EncodeVarint64_nonempty)
qed

lemma VarintLength_eq: "VarintLength v = length (EncodeVarint64 v)"
  by (simp add: VarintLength_def VarintLength_loop_acc)

lemma length_EncodeVarint64: "unat v < 2 ^ (7 * n) \<Longrightarrow> 0 < n \<Longrightarrow> length (EncodeVarint64 v) \<le> n"
proof (induction v arbitrary: n rule: EncodeVarint64.induct)
  case (1 v)
  show ?case
  proof (cases "128 \<le> v")
    case True
    then have "2 ^ 7 \<le> unat v" by (simp add: word_le_nat_alt)
    with "1.prems" have "n \<noteq> 1" by auto
    with \<open>0 < n\<close> obtain m where m: "n = Suc m" "0 < m" by (cases n) auto
    with "1.prems"(1) have "unat (drop_bit 7 v) < 2 ^ (7 * m)"
      by (intro word_below_drop_bit) (simp add: add.commute)
    with True "1.IH" m show ?thesis
      by (simp add: EncodeVarint64.simps [of v])
  next
    case False
    with "1.prems" show ?thesis by (simp add: EncodeVarint64.simps [of v])
  qed
qed

lemma length_EncodeVarint64_le [wire_length]: "length (EncodeVarint64 v) \<le> 10"
proof (rule length_EncodeVarint64)
  show "unat v < 2 ^ (7 * 10)"
    using unsigned_less [of v, where 'a = nat] by simp
qed simp

lemma length_EncodeVarint32_le [wire_length]:
  "length (EncodeVarint32 v) \<le> 5" "0 < length (EncodeVarint32 v)"
  by (auto simp: EncodeVarint32_def)

lemma length_EncodeVarint64_pos [wire_length]: "0 < length (EncodeVarint64 v)"
  by (simp add: EncodeVarint64_nonempty)

text \<open>A decoder consumes a nonempty prefix of its input and leaves the rest as it was.\<close>

lemma GetVarint32Ptr_loop_suffix:
  "GetVarint32Ptr_loop shift acc p = Some (v, rest) \<Longrightarrow> strict_suffix rest p"
  by (induction shift acc p rule: GetVarint32Ptr_loop.induct)
    (auto simp: Let_def strict_suffix_def suffix_def split: if_splits)

lemma GetVarint64Ptr_loop_suffix:
  "GetVarint64Ptr_loop shift acc p = Some (v, rest) \<Longrightarrow> strict_suffix rest p"
  by (induction shift acc p rule: GetVarint64Ptr_loop.induct)
    (auto simp: Let_def strict_suffix_def suffix_def split: if_splits)

lemma GetVarint_suffix:
  "GetVarint32 p = Some (v, rest) \<Longrightarrow> strict_suffix rest p"
  "GetVarint64 p = Some (w, rest) \<Longrightarrow> strict_suffix rest p"
  by (auto simp: GetVarint32_def GetVarint32Ptr_eq_loop GetVarint64_def GetVarint64Ptr_def
      intro: GetVarint32Ptr_loop_suffix GetVarint64Ptr_loop_suffix)

subsection \<open>Length-prefixed slices\<close>

lemma unat_of_nat_length: "n < 2 ^ 32 \<Longrightarrow> unat (of_nat n :: u32) = n"
  by (simp add: unsigned_of_nat take_bit_nat_eq_self)

lemma GetLengthPrefixedSlice_Put [simp, wire_decode]:
  "length v < 2 ^ 32 \<Longrightarrow>
   GetLengthPrefixedSlice (EncodeVarint32 (of_nat (length v)) @ v @ rest) = Some (v, rest)"
  by (simp add: GetLengthPrefixedSlice_def unat_of_nat_length)

lemma GetLengthPrefixedSlice_suffix:
  assumes "GetLengthPrefixedSlice p = Some (v, rest)"
  shows "strict_suffix rest p"
proof -
  from assms obtain len q where q: "GetVarint32 p = Some (len, q)" and r: "rest = drop (unat len) q"
    by (auto simp: GetLengthPrefixedSlice_def split: option.splits if_splits)
  have "suffix rest q" by (simp add: r suffix_drop)
  then show ?thesis
    using GetVarint_suffix(1) [OF q] by (rule suffix_order.le_less_trans)
qed

lemma GetLengthPrefixedSlicePtr_eq: "GetLengthPrefixedSlicePtr p = GetLengthPrefixedSlice p"
  by (auto simp: GetLengthPrefixedSlicePtr_def GetLengthPrefixedSlice_def GetVarint32_def not_le
      split: option.split)

subsection \<open>Arrays of 32-bit numbers\<close>

lemma foldl_PutFixed32:
  "foldl (\<lambda>buf r. PutFixed32 buf (f r)) buf xs = buf @ concat (map (\<lambda>r. EncodeFixed32 (f r)) xs)"
  by (induction xs arbitrary: buf) (simp_all add: PutFixed32_def)

lemma concat_fixed32_nth:
  "i < length xs \<Longrightarrow> drop (i * 4) (concat (map (\<lambda>x. EncodeFixed32 (f x)) xs) @ rest)
     = EncodeFixed32 (f (xs ! i)) @ concat (map (\<lambda>x. EncodeFixed32 (f x)) (drop (Suc i) xs)) @ rest"
proof (induction xs arbitrary: i)
  case (Cons x xs)
  then show ?case by (cases i) simp_all
qed simp

lemma length_concat_fixed32: "length (concat (map (\<lambda>x. EncodeFixed32 (f x)) xs)) = length xs * 4"
  by (induction xs) simp_all

section \<open>Properties\<close>


text \<open>
  C21. A length-prefixed string is read back whole by both readers, as long as its length fits the
  32-bit prefix.
\<close>

theorem length_prefixed_roundtrip:
  assumes "length v < 2 ^ 32"
  shows "GetLengthPrefixedSlice (PutLengthPrefixedSlice [] v @ rest) = Some (v, rest)
    \<and> GetLengthPrefixedSlicePtr (PutLengthPrefixedSlice [] v @ rest) = Some (v, rest)"
  using assms GetLengthPrefixedSlice_Put [of v rest]
  by (simp add: GetLengthPrefixedSlicePtr_eq PutLengthPrefixedSlice_def PutVarint32_def)

theorem length_prefixed_roundtrip_witness:
  "GetLengthPrefixedSlice (PutLengthPrefixedSlice [] [7, 8] @ [9]) = Some ([7, 8], [9])"
  using length_prefixed_roundtrip [of "[7, 8]" "[9]"] by simp

end
