(* ===== verification/Comparator.thy ===== *)
theory Comparator
  imports Prelude
begin

text \<open>
  The \<open>Comparator\<close> interface (\<open>include/leveldb/comparator.h\<close>), the slice order and the default
  \<open>BytewiseComparator\<close> (\<open>include/leveldb/slice.h\<close>, \<open>util/comparator.cc\<close>).

  The interface is the locale \<open>comparator\<close>: a three-way \<open>Compare\<close> whose sign is a total preorder.
  Everything that is ordered by a comparator (sorted runs, skip list, blocks, file lists,
  merging) is proved against it. The locale \<open>separators\<close> adds the documented contract of
  \<open>FindShortestSeparator\<close> and \<open>FindShortSuccessor\<close>. Both are interpreted here on the bytewise
  comparator, and in \<open>Dbformat\<close> on the internal key comparator.
\<close>

section \<open>Operations\<close>

text \<open>
  \<open>memcmp\<close> on two ranges of at least \<open>n\<close> bytes. The C library fixes only the sign of the result;
  the callers test nothing else, and the model returns -1, 0 or 1.
\<close>

fun memcmp :: "bytes \<Rightarrow> bytes \<Rightarrow> nat \<Rightarrow> int" where
  "memcmp (x # a) (y # b) (Suc n) =
     (if x < y then -1 else if y < x then 1 else memcmp a b n)"
| "memcmp a b n = 0"

definition slice_compare :: "bytes \<Rightarrow> bytes \<Rightarrow> int" where
  "slice_compare a b =
     (let min_len = (if length a < length b then length a else length b);
          r = memcmp a b min_len
      in if r = 0
         then (if length a < length b then -1 else if length b < length a then 1 else r)
         else r)"

definition starts_with :: "bytes \<Rightarrow> bytes \<Rightarrow> bool" where
  "starts_with a x = (length x \<le> length a \<and> memcmp a x (length x) = 0)"

definition slice_eq :: "bytes \<Rightarrow> bytes \<Rightarrow> bool" where
  "slice_eq x y = (length x = length y \<and> memcmp x y (length x) = 0)"

text \<open>
  The loop that counts the bytes two strings share from the front, bounded by the shorter one:
  \<open>while (i < min_length && a[i] == b[i]) i++\<close>.
\<close>

fun common_length :: "bytes \<Rightarrow> bytes \<Rightarrow> nat" where
  "common_length (x # a) (y # b) = (if x = y then Suc (common_length a b) else 0)"
| "common_length a b = 0"

definition Bytewise_FindShortestSeparator :: "bytes \<Rightarrow> bytes \<Rightarrow> bytes" where
  "Bytewise_FindShortestSeparator start limit =
     (let min_length = min (length start) (length limit);
          diff_index = common_length start limit
      in if min_length \<le> diff_index then start
         else let diff_byte = start ! diff_index
              in if diff_byte < 255 \<and> unat diff_byte + 1 < unat (limit ! diff_index)
                 then take diff_index start @ [diff_byte + 1]
                 else start)"

fun Bytewise_FindShortSuccessor :: "bytes \<Rightarrow> bytes" where
  "Bytewise_FindShortSuccessor [] = []"
| "Bytewise_FindShortSuccessor (b # key) =
     (if b \<noteq> 255 then [b + 1]
      else b # Bytewise_FindShortSuccessor key)"

section \<open>The comparator interface\<close>

locale comparator =
  fixes cmp :: "'k \<Rightarrow> 'k \<Rightarrow> int"
  assumes cmp_refl [simp]: "cmp a a = 0"
    and cmp_flip: "cmp a b < 0 \<longleftrightarrow> 0 < cmp b a"
    and cmp_trans: "cmp a b \<le> 0 \<Longrightarrow> cmp b c \<le> 0 \<Longrightarrow> cmp a c \<le> 0"
begin

lemma cmp_eq_sym: "cmp a b = 0 \<longleftrightarrow> cmp b a = 0"
  using cmp_flip [of a b] cmp_flip [of b a] by linarith

lemma cmp_le_flip: "cmp a b \<le> 0 \<longleftrightarrow> 0 \<le> cmp b a"
  using cmp_flip [of a b] cmp_flip [of b a] by linarith

lemma cmp_le_less_trans: "cmp a b \<le> 0 \<Longrightarrow> cmp b c < 0 \<Longrightarrow> cmp a c < 0"
  using cmp_trans [of c a b] cmp_le_flip cmp_flip by (meson not_le)

lemma cmp_less_le_trans: "cmp a b < 0 \<Longrightarrow> cmp b c \<le> 0 \<Longrightarrow> cmp a c < 0"
  using cmp_trans [of b c a] cmp_le_flip cmp_flip by (meson not_le)

lemma cmp_less_trans: "cmp a b < 0 \<Longrightarrow> cmp b c < 0 \<Longrightarrow> cmp a c < 0"
  using cmp_less_le_trans [of a b c] by simp

lemma cmp_eq_left: "cmp a b = 0 \<Longrightarrow> cmp a c < 0 \<longleftrightarrow> cmp b c < 0"
  using cmp_le_less_trans [of a b c] cmp_le_less_trans [of b a c] cmp_eq_sym [of a b] by auto

lemma cmp_eq_right: "cmp a b = 0 \<Longrightarrow> cmp c a < 0 \<longleftrightarrow> cmp c b < 0"
  using cmp_less_le_trans [of c a b] cmp_less_le_trans [of c b a] cmp_eq_sym [of a b] by auto

lemma cmp_eq_trans: "cmp a b = 0 \<Longrightarrow> cmp b c = 0 \<Longrightarrow> cmp a c = 0"
  using cmp_trans [of a b c] cmp_trans [of c b a] cmp_eq_sym cmp_le_flip
  by (metis order_antisym order_refl)

text \<open>A strictly increasing run, the shape of every sorted sequence of distinct keys.\<close>

lemma sorted_less_trans:
  "transp (\<lambda>a b. cmp a b < 0)"
  using cmp_less_trans by (auto intro: transpI)

lemma sorted_wrt_distinct_cmp:
  assumes "sorted_wrt (\<lambda>a b. cmp a b < 0) xs" "x \<in> set xs" "y \<in> set xs" "cmp x y = 0"
  shows "x = y"
  using assms
proof (induction xs)
  case (Cons z zs)
  then show ?case
    using cmp_eq_sym by (metis less_irrefl set_ConsD sorted_wrt.simps(2))
qed simp

end

text \<open>A comparator that tells apart every two different keys.\<close>

locale strict_comparator = comparator cmp for cmp :: "'k \<Rightarrow> 'k \<Rightarrow> int" +
  assumes cmp_eq: "cmp a b = 0 \<Longrightarrow> a = b"
begin

lemma cmp_eq_iff [simp]: "cmp a b = 0 \<longleftrightarrow> a = b"
  using cmp_eq by auto

end

text \<open>
  The contract of the two key-shortening operations, as \<open>include/leveldb/comparator.h\<close> states it:
  for \<open>start < limit\<close> a separator lies in \<open>[start, limit)\<close> (otherwise \<open>start\<close> stays as it is), and a
  successor is not below its key.
\<close>

locale separators = comparator cmp for cmp :: "'k \<Rightarrow> 'k \<Rightarrow> int" +
  fixes separator :: "'k \<Rightarrow> 'k \<Rightarrow> 'k" and successor :: "'k \<Rightarrow> 'k"
  assumes separator_ge: "cmp start limit < 0 \<Longrightarrow> cmp start (separator start limit) \<le> 0"
    and separator_less: "cmp start limit < 0 \<Longrightarrow> cmp (separator start limit) limit < 0"
    and separator_idle: "\<not> cmp start limit < 0 \<Longrightarrow> separator start limit = start"
    and successor_ge: "cmp key (successor key) \<le> 0"

section \<open>The slice order\<close>

lemma slice_compare_simps [simp]:
  "slice_compare [] [] = 0"
  "slice_compare [] (y # b) = -1"
  "slice_compare (x # a) [] = 1"
  "slice_compare (x # a) (y # b) =
     (if x < y then -1 else if y < x then 1 else slice_compare a b)"
  by (simp_all add: slice_compare_def Let_def)

lemma slice_compare_eq_iff: "slice_compare a b = 0 \<longleftrightarrow> a = b"
  by (induction a b rule: list_induct2') auto

lemma slice_compare_flip: "slice_compare a b = - slice_compare b a"
  by (induction a b rule: list_induct2') auto

lemma slice_compare_trans:
  "slice_compare a b \<le> 0 \<Longrightarrow> slice_compare b c \<le> 0 \<Longrightarrow> slice_compare a c \<le> 0"
proof (induction a b arbitrary: c rule: list_induct2')
  case (4 x a y b)
  then show ?case by (cases c) (auto split: if_splits)
next
  case (3 y b)
  then show ?case by (cases c) (auto split: if_splits)
qed auto

interpretation bytewise: strict_comparator slice_compare
proof
  fix a b c :: bytes
  show "slice_compare a a = 0" by (simp add: slice_compare_eq_iff)
  show "slice_compare a b < 0 \<longleftrightarrow> 0 < slice_compare b a"
    using slice_compare_flip [of a b] by linarith
  show "slice_compare a b \<le> 0 \<Longrightarrow> slice_compare b c \<le> 0 \<Longrightarrow> slice_compare a c \<le> 0"
    by (rule slice_compare_trans)
  show "slice_compare a b = 0 \<Longrightarrow> a = b" by (simp add: slice_compare_eq_iff)
qed

lemma memcmp_zero: "n \<le> length a \<Longrightarrow> n \<le> length b \<Longrightarrow> memcmp a b n = 0 \<longleftrightarrow> take n a = take n b"
  by (induction a b n rule: memcmp.induct) (auto simp: take_Cons split: nat.splits)

lemma starts_with_iff: "starts_with a x \<longleftrightarrow> take (length x) a = x"
proof (cases "length x \<le> length a")
  case False
  then have "length (take (length x) a) < length x" by simp
  with False show ?thesis by (auto simp: starts_with_def)
qed (simp add: starts_with_def memcmp_zero)

lemma slice_eq_iff: "slice_eq x y \<longleftrightarrow> x = y"
  by (auto simp: slice_eq_def memcmp_zero)

section \<open>Key shortening\<close>

lemma common_length_le: "common_length a b \<le> length a" "common_length a b \<le> length b"
  by (induction a b rule: common_length.induct) auto

lemma common_length_take: "take (common_length a b) a = take (common_length a b) b"
  by (induction a b rule: common_length.induct) auto

lemma common_length_differ:
  "common_length a b < min (length a) (length b) \<Longrightarrow> a ! common_length a b \<noteq> b ! common_length a b"
  by (induction a b rule: common_length.induct) auto

lemma slice_compare_append_same: "slice_compare (p @ a) (p @ b) = slice_compare a b"
  by (induction p) auto

text \<open>Where two strings first differ: a shared prefix, then two different bytes.\<close>

lemma common_length_split:
  assumes "common_length a b < min (length a) (length b)"
  obtains p x a' y b' where "a = p @ x # a'" "b = p @ y # b'" "x \<noteq> y"
    "length p = common_length a b"
proof
  let ?n = "common_length a b"
  show "a = take ?n a @ a ! ?n # drop (Suc ?n) a"
    using assms by (simp add: id_take_nth_drop)
  show "b = take ?n a @ b ! ?n # drop (Suc ?n) b"
    using assms by (simp add: id_take_nth_drop common_length_take [of a b])
  show "a ! ?n \<noteq> b ! ?n" using assms by (rule common_length_differ)
  show "length (take ?n a) = ?n" by (simp add: common_length_le)
qed

lemma byte_increment: "x < (255 :: byte) \<Longrightarrow> unat (x + 1) = unat x + 1"
  by (simp add: word_less_nat_alt unat_word_ariths)

text \<open>
  A separator is the start itself, or the shared prefix followed by the incremented first
  differing byte, which is still below the limit's byte.
\<close>

lemma Bytewise_separator_cases:
  obtains (same) "Bytewise_FindShortestSeparator start limit = start"
  | (short) p x a y b where "start = p @ x # a" "limit = p @ y # b" "x < x + 1" "x + 1 < y"
      "Bytewise_FindShortestSeparator start limit = p @ [x + 1]"
proof (cases "Bytewise_FindShortestSeparator start limit = start")
  case False
  let ?n = "common_length start limit"
  from False have n: "?n < min (length start) (length limit)"
    and b: "start ! ?n < 255" "unat (start ! ?n) + 1 < unat (limit ! ?n)"
    and eq: "Bytewise_FindShortestSeparator start limit = take ?n start @ [start ! ?n + 1]"
    by (auto simp: Bytewise_FindShortestSeparator_def Let_def split: if_splits)
  from n obtain p x a y b' where d: "start = p @ x # a" "limit = p @ y # b'" "length p = ?n"
    by (rule common_length_split)
  then have xy: "start ! ?n = x" "limit ! ?n = y" "take ?n start = p"
    by (metis nth_append_length, metis nth_append_length, metis append_eq_conv_conj)
  from b have "x < x + 1" "x + 1 < y"
    unfolding xy by (simp_all add: word_less_nat_alt byte_increment)
  with d eq show ?thesis unfolding xy by (intro short)
qed (rule same)

lemma Bytewise_separator_bounds:
  assumes "slice_compare start limit < 0"
  shows "slice_compare start (Bytewise_FindShortestSeparator start limit) \<le> 0"
    and "slice_compare (Bytewise_FindShortestSeparator start limit) limit < 0"
  using assms
  by (cases rule: Bytewise_separator_cases [of start limit];
      simp add: slice_compare_append_same; fail)+

lemma Bytewise_separator_idle:
  assumes "\<not> slice_compare start limit < 0"
  shows "Bytewise_FindShortestSeparator start limit = start"
proof (cases rule: Bytewise_separator_cases [of start limit])
  case (short p x a y b)
  from short(3,4) have "x < y" by (rule less_trans)
  with short assms show ?thesis by (simp add: slice_compare_append_same)
qed

lemma Bytewise_separator_length:
  "length (Bytewise_FindShortestSeparator start limit) \<le> length start"
  by (cases rule: Bytewise_separator_cases [of start limit]) simp_all

lemma Bytewise_successor_ge: "slice_compare key (Bytewise_FindShortSuccessor key) \<le> 0"
proof (induction key)
  case (Cons b key)
  have "b < b + 1" if "b \<noteq> 255"
  proof -
    have "(255 :: byte) = -1" by simp
    with that word_n1_ge [of b] have "b < 255" by (metis order_le_less)
    then show ?thesis using byte_increment [of b] by (simp add: word_less_nat_alt)
  qed
  with Cons show ?case by auto
qed simp

interpretation bytewise: separators slice_compare Bytewise_FindShortestSeparator
  Bytewise_FindShortSuccessor
  by unfold_locales
    (simp_all add: Bytewise_separator_bounds Bytewise_separator_idle Bytewise_successor_ge)

end
