(* ===== verification/Dbformat.thy ===== *)
theory Dbformat
  imports Coding Comparator
begin

text \<open>
  \<open>db/dbformat.h\<close> and \<open>db/dbformat.cc\<close>: internal keys (a user key followed by a packed sequence
  number and value type), their comparator, and lookup keys. An \<open>InternalKey\<close> is the byte string
  \<open>rep_\<close> it wraps. The user comparator is an argument \<open>ucmp\<close> of every definition that compares.
\<close>

section \<open>Constants\<close>

definition kNumLevels :: nat where "kNumLevels = 7"
definition kL0_CompactionTrigger :: nat where "kL0_CompactionTrigger = 4"
definition kL0_SlowdownWritesTrigger :: nat where "kL0_SlowdownWritesTrigger = 8"
definition kL0_StopWritesTrigger :: nat where "kL0_StopWritesTrigger = 12"
definition kMaxMemCompactLevel :: nat where "kMaxMemCompactLevel = 2"

datatype ValueType = kTypeDeletion | kTypeValue

fun ValueType_enc :: "ValueType \<Rightarrow> u64" where
  "ValueType_enc kTypeDeletion = 0"
| "ValueType_enc kTypeValue = 1"

definition kValueTypeForSeek :: ValueType where
  "kValueTypeForSeek = kTypeValue"

definition kMaxSequenceNumber :: u64 where
  "kMaxSequenceNumber = push_bit 56 1 - 1"

section \<open>Internal keys\<close>

record ParsedInternalKey =
  user_key :: bytes
  sequence :: u64
  vtype :: ValueType

definition PackSequenceAndType :: "u64 \<Rightarrow> ValueType \<Rightarrow> u64" where
  "PackSequenceAndType seq t = push_bit 8 seq OR ValueType_enc t"

definition AppendInternalKey :: "bytes \<Rightarrow> ParsedInternalKey \<Rightarrow> bytes" where
  "AppendInternalKey result key =
     PutFixed64 (result @ user_key key) (PackSequenceAndType (sequence key) (vtype key))"

definition InternalKey :: "bytes \<Rightarrow> u64 \<Rightarrow> ValueType \<Rightarrow> bytes" where
  "InternalKey ukey s t = AppendInternalKey [] \<lparr>user_key = ukey, sequence = s, vtype = t\<rparr>"

definition ExtractUserKey :: "bytes \<Rightarrow> bytes" where
  "ExtractUserKey ikey = take (length ikey - 8) ikey"

text \<open>The packed sequence number and type at the end of an internal key.\<close>

definition key_tag :: "bytes \<Rightarrow> u64" where
  "key_tag ikey = DecodeFixed64 (drop (length ikey - 8) ikey)"

definition ParseInternalKey :: "bytes \<Rightarrow> ParsedInternalKey option" where
  "ParseInternalKey ikey =
     (if length ikey < 8 then None
      else let num = key_tag ikey; c = (ucast (num AND 255) :: byte)
           in if c = 0 then Some \<lparr>user_key = take (length ikey - 8) ikey,
                                  sequence = drop_bit 8 num, vtype = kTypeDeletion\<rparr>
              else if c = 1 then Some \<lparr>user_key = take (length ikey - 8) ikey,
                                       sequence = drop_bit 8 num, vtype = kTypeValue\<rparr>
              else None)"

definition InternalKey_Compare :: "(bytes \<Rightarrow> bytes \<Rightarrow> int) \<Rightarrow> bytes \<Rightarrow> bytes \<Rightarrow> int" where
  "InternalKey_Compare ucmp akey bkey =
     (let r = ucmp (ExtractUserKey akey) (ExtractUserKey bkey)
      in if r = 0
         then (let anum = key_tag akey; bnum = key_tag bkey
               in if bnum < anum then -1 else if anum < bnum then 1 else r)
         else r)"

definition InternalKey_FindShortestSeparator ::
  "(bytes \<Rightarrow> bytes \<Rightarrow> int) \<Rightarrow> (bytes \<Rightarrow> bytes \<Rightarrow> bytes) \<Rightarrow> bytes \<Rightarrow> bytes \<Rightarrow> bytes" where
  "InternalKey_FindShortestSeparator ucmp usep start limit =
     (let user_start = ExtractUserKey start;
          user_limit = ExtractUserKey limit;
          tmp = usep user_start user_limit
      in if length tmp < length user_start \<and> ucmp user_start tmp < 0
         then PutFixed64 tmp (PackSequenceAndType kMaxSequenceNumber kValueTypeForSeek)
         else start)"

definition InternalKey_FindShortSuccessor ::
  "(bytes \<Rightarrow> bytes \<Rightarrow> int) \<Rightarrow> (bytes \<Rightarrow> bytes) \<Rightarrow> bytes \<Rightarrow> bytes" where
  "InternalKey_FindShortSuccessor ucmp usucc key =
     (let ukey = ExtractUserKey key; tmp = usucc ukey
      in if length tmp < length ukey \<and> ucmp ukey tmp < 0
         then PutFixed64 tmp (PackSequenceAndType kMaxSequenceNumber kValueTypeForSeek)
         else key)"

text \<open>
  \<open>InternalFilterPolicy\<close>: the wrapped policy is given by its two functions; it sees user keys only.
  \<open>create keys dst\<close> is \<open>CreateFilter\<close> appending to \<open>dst\<close>.
\<close>

definition InternalFilter_CreateFilter ::
  "(bytes list \<Rightarrow> bytes \<Rightarrow> bytes) \<Rightarrow> bytes list \<Rightarrow> bytes \<Rightarrow> bytes" where
  "InternalFilter_CreateFilter create keys dst = create (map ExtractUserKey keys) dst"

definition InternalFilter_KeyMayMatch ::
  "(bytes \<Rightarrow> bytes \<Rightarrow> bool) \<Rightarrow> bytes \<Rightarrow> bytes \<Rightarrow> bool" where
  "InternalFilter_KeyMayMatch may_match key f = may_match (ExtractUserKey key) f"

section \<open>Lookup keys\<close>

text \<open>
  \<open>start_\<close>, \<open>kstart_\<close> and \<open>end_\<close> point into one array: the length prefix, then the internal key.
\<close>

record LookupKey =
  lk_prefix :: bytes
  lk_ikey :: bytes

definition mk_LookupKey :: "bytes \<Rightarrow> u64 \<Rightarrow> LookupKey" where
  "mk_LookupKey ukey s =
     \<lparr>lk_prefix = EncodeVarint32 (of_nat (length ukey + 8)),
      lk_ikey = ukey @ EncodeFixed64 (PackSequenceAndType s kValueTypeForSeek)\<rparr>"

definition memtable_key :: "LookupKey \<Rightarrow> bytes" where
  "memtable_key k = lk_prefix k @ lk_ikey k"

definition internal_key :: "LookupKey \<Rightarrow> bytes" where
  "internal_key k = lk_ikey k"

definition lookup_user_key :: "LookupKey \<Rightarrow> bytes" where
  "lookup_user_key k = take (length (lk_ikey k) - 8) (lk_ikey k)"

section \<open>Lemmas: encoding\<close>

lemma InternalKey_eq:
  "InternalKey u s t = u @ EncodeFixed64 (PackSequenceAndType s t)"
  by (simp add: InternalKey_def AppendInternalKey_def PutFixed64_def)

lemma ExtractUserKey_tagged [simp]: "ExtractUserKey (u @ EncodeFixed64 n) = u"
  by (simp add: ExtractUserKey_def)

lemma key_tag_tagged [simp]: "key_tag (u @ EncodeFixed64 n) = n"
  by (simp add: key_tag_def)

lemma length_InternalKey [simp]: "length (InternalKey u s t) = length u + 8"
  by (simp add: InternalKey_eq)

lemma ExtractUserKey_InternalKey [simp]: "ExtractUserKey (InternalKey u s t) = u"
  by (simp add: InternalKey_eq)

lemma key_tag_InternalKey [simp]: "key_tag (InternalKey u s t) = PackSequenceAndType s t"
  by (simp add: InternalKey_eq)

text \<open>An internal key of at least eight bytes is its user key and its tag.\<close>

lemma ikey_split: "8 \<le> length k \<Longrightarrow> k = ExtractUserKey k @ EncodeFixed64 (key_tag k)"
  by (simp add: ExtractUserKey_def key_tag_def EncodeFixed64_Decode)

lemma kMax_unat: "s \<le> kMaxSequenceNumber \<longleftrightarrow> unat s < 2 ^ 56"
  by (simp add: kMaxSequenceNumber_def word_le_nat_alt) linarith

lemma Pack_unat:
  assumes "s \<le> kMaxSequenceNumber"
  shows "unat (PackSequenceAndType s t) = 256 * unat s + unat (ValueType_enc t)"
proof -
  have "PackSequenceAndType s t = push_bit 8 s + ValueType_enc t"
    unfolding PackSequenceAndType_def
    by (rule disjunctive_add_eq_or [symmetric], rule bit_word_eqI)
      (cases t; auto simp: bit_simps)
  moreover have "unat (push_bit 8 s) = 256 * unat s"
    using assms by (simp add: kMax_unat push_bit_eq_mult unat_word_ariths)
  moreover have "unat (ValueType_enc t) \<le> 1" by (cases t) simp_all
  ultimately show ?thesis
    using assms by (simp add: unat_word_ariths kMax_unat)
qed

lemma Pack_sequence: "s \<le> kMaxSequenceNumber \<Longrightarrow> drop_bit 8 (PackSequenceAndType s t) = s"
  by (cases t) (simp_all add: word_unat_eq_iff unat_drop_bit Pack_unat)

lemma Pack_type: "ucast (PackSequenceAndType s t AND 255) = (ucast (ValueType_enc t) :: byte)"
  by (rule bit_word_eqI) (cases t; auto simp: PackSequenceAndType_def bit_simps)

lemma Pack_less_iff:
  assumes "s \<le> kMaxSequenceNumber" "s' \<le> kMaxSequenceNumber"
  shows "PackSequenceAndType s t < PackSequenceAndType s' t' \<longleftrightarrow>
    s < s' \<or> s = s' \<and> ValueType_enc t < ValueType_enc t'"
  using assms
  by (cases t; cases t'; simp add: word_less_nat_alt Pack_unat word_unat_eq_iff; linarith)

lemma Pack_eq_iff:
  assumes "s \<le> kMaxSequenceNumber" "s' \<le> kMaxSequenceNumber"
  shows "PackSequenceAndType s t = PackSequenceAndType s' t' \<longleftrightarrow> s = s' \<and> t = t'"
proof
  assume eq: "PackSequenceAndType s t = PackSequenceAndType s' t'"
  then have "s = s'" using Pack_sequence assms by metis
  moreover from eq have "ucast (ValueType_enc t) = (ucast (ValueType_enc t') :: byte)"
    using Pack_type by metis
  then have "t = t'" by (cases t; cases t') simp_all
  ultimately show "s = s' \<and> t = t'" by simp
qed simp

text \<open>Parsing an encoded key gives the key back, for every sequence number that fits 56 bits.\<close>

lemma Parse_InternalKey [simp]:
  "s \<le> kMaxSequenceNumber \<Longrightarrow>
   ParseInternalKey (InternalKey u s t) = Some \<lparr>user_key = u, sequence = s, vtype = t\<rparr>"
  by (cases t)
    (simp_all add: ParseInternalKey_def Let_def Pack_type Pack_sequence, simp_all add: InternalKey_eq)

lemma ParseInternalKey_Some:
  assumes "ParseInternalKey k = Some p"
  shows "8 \<le> length k" "user_key p = ExtractUserKey k" "sequence p = drop_bit 8 (key_tag k)"
  using assms by (auto simp: ParseInternalKey_def ExtractUserKey_def Let_def split: if_splits)

section \<open>Lemmas: the internal key order\<close>

text \<open>
  A user comparator obeys the documented contract of \<open>Comparator::Compare\<close>: a total order in which
  only equal keys compare equal. Internal keys are then totally preordered, over all byte
  strings; two keys of at least eight bytes that compare equal are equal.
\<close>

locale user_comparator = strict_comparator ucmp for ucmp :: "bytes \<Rightarrow> bytes \<Rightarrow> int"
begin

lemma ikey_cmp_cases:
  "InternalKey_Compare ucmp a b < 0 \<longleftrightarrow>
     ucmp (ExtractUserKey a) (ExtractUserKey b) < 0 \<or>
     ExtractUserKey a = ExtractUserKey b \<and> key_tag b < key_tag a"
  "InternalKey_Compare ucmp a b = 0 \<longleftrightarrow>
     ExtractUserKey a = ExtractUserKey b \<and> key_tag a = key_tag b"
  "0 < InternalKey_Compare ucmp a b \<longleftrightarrow>
     0 < ucmp (ExtractUserKey a) (ExtractUserKey b) \<or>
     ExtractUserKey a = ExtractUserKey b \<and> key_tag a < key_tag b"
  by (auto simp: InternalKey_Compare_def Let_def)

lemma ikey_cmp_le:
  "InternalKey_Compare ucmp a b \<le> 0 \<longleftrightarrow>
     ucmp (ExtractUserKey a) (ExtractUserKey b) < 0 \<or>
     ExtractUserKey a = ExtractUserKey b \<and> key_tag b \<le> key_tag a"
  using ikey_cmp_cases [of a b] by (auto simp: order_le_less)

lemma ikey_comparator: "comparator (InternalKey_Compare ucmp)"
proof
  fix a b c
  show "InternalKey_Compare ucmp a a = 0" by (simp add: ikey_cmp_cases)
  show "InternalKey_Compare ucmp a b < 0 \<longleftrightarrow> 0 < InternalKey_Compare ucmp b a"
    unfolding ikey_cmp_cases using cmp_flip by auto
  show "InternalKey_Compare ucmp a b \<le> 0 \<Longrightarrow> InternalKey_Compare ucmp b c \<le> 0 \<Longrightarrow>
      InternalKey_Compare ucmp a c \<le> 0"
    unfolding ikey_cmp_le using cmp_less_trans by auto
qed

lemma ikey_cmp_eq:
  "InternalKey_Compare ucmp a b = 0 \<Longrightarrow> 8 \<le> length a \<Longrightarrow> 8 \<le> length b \<Longrightarrow> a = b"
  by (metis ikey_cmp_cases(2) ikey_split)

text \<open>Newer entries of a user key come first.\<close>

lemma ikey_newer_first:
  assumes "s \<le> kMaxSequenceNumber" "s' \<le> kMaxSequenceNumber"
  shows "InternalKey_Compare ucmp (InternalKey u s t) (InternalKey u s' t') < 0 \<longleftrightarrow>
    s' < s \<or> s = s' \<and> ValueType_enc t' < ValueType_enc t"
  using assms by (auto simp: ikey_cmp_cases Pack_less_iff)

end

sublocale user_comparator \<subseteq> ikey: comparator "InternalKey_Compare ucmp"
  by (rule ikey_comparator)

interpretation bytewise: user_comparator slice_compare
  by unfold_locales

text \<open>The key-shortening contract carries over from user keys to internal keys.\<close>

locale user_separators = user_comparator ucmp + separators ucmp usep usucc
  for ucmp :: "bytes \<Rightarrow> bytes \<Rightarrow> int" and usep usucc
begin

lemma ikey_separators:
  "separators (InternalKey_Compare ucmp) (InternalKey_FindShortestSeparator ucmp usep)
     (InternalKey_FindShortSuccessor ucmp usucc)"
proof
  fix start limit key
  let ?sep = "InternalKey_FindShortestSeparator ucmp usep start limit"
  let ?us = "ExtractUserKey start" and ?ul = "ExtractUserKey limit"
  show "InternalKey_Compare ucmp start ?sep \<le> 0"
    by (simp add: InternalKey_FindShortestSeparator_def Let_def PutFixed64_def ikey_cmp_le)
  have idle: "?sep = start" if "\<not> ucmp ?us ?ul < 0"
    using separator_idle [OF that] by (simp add: InternalKey_FindShortestSeparator_def Let_def)
  show "InternalKey_Compare ucmp ?sep limit < 0" if "InternalKey_Compare ucmp start limit < 0"
    using that separator_less [of ?us ?ul] idle
    by (cases "ucmp ?us ?ul < 0")
      (auto simp: InternalKey_FindShortestSeparator_def Let_def PutFixed64_def ikey_cmp_cases)
  show "?sep = start" if "\<not> InternalKey_Compare ucmp start limit < 0"
    using that idle by (auto simp: ikey_cmp_cases)
  show "InternalKey_Compare ucmp key (InternalKey_FindShortSuccessor ucmp usucc key) \<le> 0"
    by (simp add: InternalKey_FindShortSuccessor_def Let_def PutFixed64_def ikey_cmp_le)
qed

end

interpretation bytewise: user_separators slice_compare Bytewise_FindShortestSeparator
  Bytewise_FindShortSuccessor
  by unfold_locales

interpretation ikey_bytewise: separators "InternalKey_Compare slice_compare"
  "InternalKey_FindShortestSeparator slice_compare Bytewise_FindShortestSeparator"
  "InternalKey_FindShortSuccessor slice_compare Bytewise_FindShortSuccessor"
  by (rule bytewise.ikey_separators)

section \<open>Lemmas: lookup keys\<close>

lemma internal_key_lookup: "internal_key (mk_LookupKey u s) = InternalKey u s kValueTypeForSeek"
  by (simp add: internal_key_def mk_LookupKey_def InternalKey_eq)

lemma lookup_user_key_lookup [simp]: "lookup_user_key (mk_LookupKey u s) = u"
  by (simp add: lookup_user_key_def mk_LookupKey_def)

lemma memtable_key_lookup:
  "memtable_key (mk_LookupKey u s) =
    EncodeVarint32 (of_nat (length u + 8)) @ InternalKey u s kValueTypeForSeek"
  by (simp add: memtable_key_def mk_LookupKey_def InternalKey_eq)

section \<open>Properties\<close>

text \<open>
  C14. The internal key comparator is a total preorder for every user comparator that keeps its
  documented contract; on encoded keys it orders by user key, then by sequence number with the
  newest first, and only equal keys compare equal.
\<close>

theorem internal_key_order:
  assumes "user_comparator ucmp" and "s \<le> kMaxSequenceNumber" and "s' \<le> kMaxSequenceNumber"
  shows "comparator (InternalKey_Compare ucmp)
    \<and> (InternalKey_Compare ucmp (InternalKey u s t) (InternalKey u' s' t') < 0 \<longleftrightarrow>
         ucmp u u' < 0 \<or> u = u' \<and> (s' < s \<or> s = s' \<and> ValueType_enc t' < ValueType_enc t))
    \<and> (InternalKey_Compare ucmp (InternalKey u s t) (InternalKey u' s' t') = 0 \<longleftrightarrow>
         u = u' \<and> s = s' \<and> t = t')"
  using assms user_comparator.ikey_comparator [OF assms(1)] Pack_eq_iff [OF assms(2,3)]
  by (auto simp: user_comparator.ikey_cmp_cases Pack_less_iff)

theorem internal_key_order_witness:
  "InternalKey_Compare slice_compare (InternalKey [1] 7 kTypeValue) (InternalKey [1] 3 kTypeValue) < 0"
  using internal_key_order [OF bytewise.user_comparator_axioms, of 7 3 "[1]" kTypeValue "[1]" kTypeValue]
  by (simp add: kMaxSequenceNumber_def)

text \<open>
  C16. Index keys are sound: with the bytewise user comparator, a shortened separator of two
  internal keys still lies between them (not below the first, below the second), and a short
  successor is not below its key. The tags stay eight bytes, so the results are internal keys.
\<close>

theorem internal_separator_bounds:
  assumes "InternalKey_Compare slice_compare start limit < 0"
  defines "sep \<equiv> InternalKey_FindShortestSeparator slice_compare Bytewise_FindShortestSeparator start limit"
  shows "InternalKey_Compare slice_compare start sep \<le> 0
    \<and> InternalKey_Compare slice_compare sep limit < 0
    \<and> InternalKey_Compare slice_compare start
        (InternalKey_FindShortSuccessor slice_compare Bytewise_FindShortSuccessor start) \<le> 0
    \<and> (8 \<le> length start \<longrightarrow> 8 \<le> length sep)"
proof -
  have "8 \<le> length start \<longrightarrow> 8 \<le> length sep"
    by (simp add: sep_def InternalKey_FindShortestSeparator_def PutFixed64_def Let_def)
  then show ?thesis
    using ikey_bytewise.separator_ge [OF assms(1)] ikey_bytewise.separator_less [OF assms(1)]
      ikey_bytewise.successor_ge by (simp add: sep_def)
qed

theorem internal_separator_bounds_witness:
  "InternalKey_Compare slice_compare
     (InternalKey_FindShortestSeparator slice_compare Bytewise_FindShortestSeparator
        (InternalKey [1, 2, 3] 5 kTypeValue) (InternalKey [9] 4 kTypeValue))
     (InternalKey [9] 4 kTypeValue) < 0"
  using internal_separator_bounds [of "InternalKey [1, 2, 3] 5 kTypeValue" "InternalKey [9] 4 kTypeValue"]
  by (simp add: InternalKey_Compare_def)

text \<open>
  C23. An internal key parses back to the fields it was built from, for every sequence number below
  the 56-bit bound.
\<close>

theorem internal_key_roundtrip:
  assumes "s \<le> kMaxSequenceNumber"
  shows "ParseInternalKey (AppendInternalKey [] \<lparr>user_key = u, sequence = s, vtype = t\<rparr>) =
    Some \<lparr>user_key = u, sequence = s, vtype = t\<rparr>"
  using Parse_InternalKey [OF assms] by (simp only: InternalKey_def)

theorem internal_key_roundtrip_witness:
  "ParseInternalKey (AppendInternalKey [] \<lparr>user_key = [65], sequence = 300, vtype = kTypeValue\<rparr>) =
    Some \<lparr>user_key = [65], sequence = 300, vtype = kTypeValue\<rparr>"
  by (rule internal_key_roundtrip) (simp add: kMaxSequenceNumber_def)

end
