(* ===== verification/WriteBatch.thy ===== *)
theory WriteBatch
  imports Dbformat
begin

text \<open>
  \<open>include/leveldb/write_batch.h\<close>, \<open>db/write_batch.cc\<close> and \<open>db/write_batch_internal.h\<close>: the batch of
  updates a write applies atomically, as the byte string that is also its log record. \<open>buf_\<close> and
  \<open>len_\<close> are the field \<open>rep\<close> (the first \<open>len_\<close> bytes of the buffer) and \<open>cap_\<close> the field \<open>cap\<close>; the
  bytes between \<open>len_\<close> and \<open>cap_\<close> are never read. Buffer sizes are natural numbers: they are sizes of
  memory that exists, far below the wrap-around of \<open>size_t\<close>.

  The contract is \<open>batch_rep\<close>: a batch is a list of puts and deletes. The operations are shown to
  implement the operations on lists, and \<open>Iterate\<close> to replay the list.
\<close>

section \<open>Operations\<close>

record WriteBatch =
  rep :: bytes
  cap :: nat

definition kHeader :: nat where "kHeader = 12"

text \<open>The doubling loop of \<open>EnsureCapacity\<close>; \<open>cap\<close> is not zero there.\<close>

function grow_capacity :: "nat \<Rightarrow> nat \<Rightarrow> nat" where
  "grow_capacity c need =
     (if 0 < c \<and> 2 * c < need then grow_capacity (2 * c) need else 2 * c)"
  by pat_completeness auto
termination
  by (relation "measure (\<lambda>(c, need). need - c)") auto

declare grow_capacity.simps [simp del]

definition EnsureCapacity :: "WriteBatch \<Rightarrow> nat \<Rightarrow> WriteBatch" where
  "EnsureCapacity b need =
     (if cap b < need
      then (if cap b = 0 then b\<lparr>cap := need\<rparr> else b\<lparr>cap := grow_capacity (cap b) need\<rparr>)
      else b)"

text \<open>
  \<open>Resize\<close> sets \<open>len_\<close>. Growing would expose bytes of the buffer that nothing wrote; the only
  caller is \<open>Clear\<close>, which overwrites them, and the model fills them with zero.
\<close>

definition Resize :: "WriteBatch \<Rightarrow> nat \<Rightarrow> WriteBatch" where
  "Resize b len =
     b\<lparr>cap := (if cap b < len then len else cap b),
       rep := take len (rep b) @ replicate (len - length (rep b)) 0\<rparr>"

definition wb_Clear :: "WriteBatch \<Rightarrow> WriteBatch" where
  "wb_Clear b =
     (let b1 = EnsureCapacity b (kHeader + 124); b2 = Resize b1 kHeader
      in b2\<lparr>rep := poke (rep b2) 0 (replicate kHeader 0)\<rparr>)"

definition new_WriteBatch :: WriteBatch where
  "new_WriteBatch = wb_Clear \<lparr>rep = [], cap = 0\<rparr>"

definition ApproximateSize :: "WriteBatch \<Rightarrow> nat" where
  "ApproximateSize b = length (rep b)"

text \<open>\<open>int Count\<close> is kept as the 32-bit pattern it is stored with.\<close>

definition Count :: "WriteBatch \<Rightarrow> u32" where
  "Count b = DecodeFixed32 (drop 8 (rep b))"

definition SetCount :: "WriteBatch \<Rightarrow> u32 \<Rightarrow> WriteBatch" where
  "SetCount b n = b\<lparr>rep := poke (rep b) 8 (EncodeFixed32 n)\<rparr>"

definition Sequence :: "WriteBatch \<Rightarrow> u64" where
  "Sequence b = DecodeFixed64 (rep b)"

definition SetSequence :: "WriteBatch \<Rightarrow> u64 \<Rightarrow> WriteBatch" where
  "SetSequence b seq = b\<lparr>rep := poke (rep b) 0 (EncodeFixed64 seq)\<rparr>"

definition Contents :: "WriteBatch \<Rightarrow> bytes" where
  "Contents b = rep b"

definition ByteSize :: "WriteBatch \<Rightarrow> nat" where
  "ByteSize b = length (rep b)"

definition SetContents :: "WriteBatch \<Rightarrow> bytes \<Rightarrow> WriteBatch" where
  "SetContents b contents =
     b\<lparr>cap := (if cap b < length contents then length contents else cap b), rep := contents\<rparr>"

text \<open>\<open>min(size, UINT32_MAX)\<close> as a \<open>uint32_t\<close>: longer keys and values are cut.\<close>

definition clip_length :: "bytes \<Rightarrow> u32" where
  "clip_length k = of_nat (min (length k) (2 ^ 32 - 1))"

definition wb_Put :: "WriteBatch \<Rightarrow> bytes \<Rightarrow> bytes \<Rightarrow> WriteBatch" where
  "wb_Put b key v =
     (let b1 = SetCount b (Count b + 1);
          klen = clip_length key;
          vlen = clip_length v;
          b2 = EnsureCapacity b1 (length (rep b1) + 1 + 5 + unat klen + 5 + unat vlen)
      in b2\<lparr>rep := rep b2 @ [1] @ EncodeVarint32 klen @ take (unat klen) key
               @ EncodeVarint32 vlen @ take (unat vlen) v\<rparr>)"

definition wb_Delete :: "WriteBatch \<Rightarrow> bytes \<Rightarrow> WriteBatch" where
  "wb_Delete b key =
     (let b1 = SetCount b (Count b + 1);
          klen = clip_length key;
          b2 = EnsureCapacity b1 (length (rep b1) + 1 + 5 + unat klen)
      in b2\<lparr>rep := rep b2 @ [0] @ EncodeVarint32 klen @ take (unat klen) key\<rparr>)"

definition Append_raw :: "WriteBatch \<Rightarrow> bytes \<Rightarrow> WriteBatch" where
  "Append_raw b buf =
     (let cap_need = length (rep b) + length buf; b1 = EnsureCapacity b cap_need
      in b1\<lparr>rep := rep b1 @ buf\<rparr>)"

definition wb_Append :: "WriteBatch \<Rightarrow> WriteBatch \<Rightarrow> WriteBatch" where
  "wb_Append dst src =
     (let dst1 = SetCount dst (Count dst + Count src)
      in Append_raw dst1 (drop kHeader (rep src)))"

text \<open>
  \<open>Iterate\<close> over a handler: its two callbacks transform the handler's state. The loop consumes
  \<open>input\<close> and counts the records in \<open>found\<close>; \<open>None\<close> for the status means the input is used up.
\<close>

function Iterate_loop :: "(bytes \<Rightarrow> bytes \<Rightarrow> 's \<Rightarrow> 's) \<Rightarrow> (bytes \<Rightarrow> 's \<Rightarrow> 's) \<Rightarrow>
    bytes \<Rightarrow> u32 \<Rightarrow> 's \<Rightarrow> status option \<times> u32 \<times> 's" where
  "Iterate_loop put del [] found s = (None, found, s)"
| "Iterate_loop put del (tag # input) found s =
     (if tag = 1 then
        (case GetLengthPrefixedSlice input of
           Some (key, input1) \<Rightarrow>
             (case GetLengthPrefixedSlice input1 of
                Some (v, input2) \<Rightarrow> Iterate_loop put del input2 (found + 1) (put key v s)
              | None \<Rightarrow> (Some (Corruption ''bad WriteBatch Put''), found + 1, s))
         | None \<Rightarrow> (Some (Corruption ''bad WriteBatch Put''), found + 1, s))
      else if tag = 0 then
        (case GetLengthPrefixedSlice input of
           Some (key, input1) \<Rightarrow> Iterate_loop put del input1 (found + 1) (del key s)
         | None \<Rightarrow> (Some (Corruption ''bad WriteBatch Delete''), found + 1, s))
      else (Some (Corruption ''unknown WriteBatch tag''), found + 1, s))"
  by pat_completeness auto
termination
proof (relation "measure (\<lambda>(put, del, input, found, s). length input)", goal_cases)
  case (2 put del tag input found s p key input1 q v input2)
  then have "strict_suffix input1 input" "strict_suffix input2 input1"
    by (auto intro: GetLengthPrefixedSlice_suffix)
  then have "length input1 < length input" "length input2 < length input1"
    by (auto dest: suffix_length_less)
  then show ?case by simp
next
  case (3 put del tag input found s p key input1)
  then have "strict_suffix input1 input"
    by (auto intro: GetLengthPrefixedSlice_suffix)
  then show ?case by (auto dest: suffix_length_less)
qed simp

definition Iterate :: "(bytes \<Rightarrow> bytes \<Rightarrow> 's \<Rightarrow> 's) \<Rightarrow> (bytes \<Rightarrow> 's \<Rightarrow> 's) \<Rightarrow>
    WriteBatch \<Rightarrow> 's \<Rightarrow> status \<times> 's" where
  "Iterate put del b s =
     (if length (rep b) < kHeader then (Corruption ''malformed WriteBatch (too small)'', s)
      else (case Iterate_loop put del (drop kHeader (rep b)) 0 s of
              (Some err, found, s') \<Rightarrow> (err, s')
            | (None, found, s') \<Rightarrow>
                if found \<noteq> Count b then (Corruption ''WriteBatch has wrong count'', s')
                else (OK, s')))"

section \<open>The contract: a list of updates\<close>

datatype update = Put_update bytes bytes | Delete_update bytes

text \<open>What a put or delete stores of its arguments.\<close>

definition clip :: "bytes \<Rightarrow> bytes" where
  "clip k = take (2 ^ 32 - 1) k"

fun encode_update :: "update \<Rightarrow> bytes" where
  "encode_update (Put_update k v) =
     1 # EncodeVarint32 (of_nat (length k)) @ k @ EncodeVarint32 (of_nat (length v)) @ v"
| "encode_update (Delete_update k) = 0 # EncodeVarint32 (of_nat (length k)) @ k"

fun update_fits :: "update \<Rightarrow> bool" where
  "update_fits (Put_update k v) = (length k < 2 ^ 32 \<and> length v < 2 ^ 32)"
| "update_fits (Delete_update k) = (length k < 2 ^ 32)"

fun apply_update :: "(bytes \<Rightarrow> bytes \<Rightarrow> 's \<Rightarrow> 's) \<Rightarrow> (bytes \<Rightarrow> 's \<Rightarrow> 's) \<Rightarrow> update \<Rightarrow> 's \<Rightarrow> 's" where
  "apply_update put del (Put_update k v) s = put k v s"
| "apply_update put del (Delete_update k) s = del k s"

definition batch_rep :: "WriteBatch \<Rightarrow> u64 \<Rightarrow> update list \<Rightarrow> bool" where
  "batch_rep b seq us \<longleftrightarrow>
     rep b = EncodeFixed64 seq @ EncodeFixed32 (of_nat (length us)) @ concat (map encode_update us)
     \<and> (\<forall>u \<in> set us. update_fits u)"

text \<open>
  Memory safety of the hand-managed buffer: the bytes in use lie inside the allocation, and the
  header is always there for \<open>Count\<close> and \<open>SetCount\<close> to access.
\<close>

definition wb_ok :: "WriteBatch \<Rightarrow> bool" where
  "wb_ok b \<longleftrightarrow> kHeader \<le> length (rep b) \<and> length (rep b) \<le> cap b"

text \<open>Applying a list of updates to a batch through its public operations.\<close>

fun record_update :: "update \<Rightarrow> WriteBatch \<Rightarrow> WriteBatch" where
  "record_update (Put_update k v) b = wb_Put b k v"
| "record_update (Delete_update k) b = wb_Delete b k"

fun clip_update :: "update \<Rightarrow> update" where
  "clip_update (Put_update k v) = Put_update (clip k) (clip v)"
| "clip_update (Delete_update k) = Delete_update (clip k)"

section \<open>Lemmas\<close>

lemma grow_capacity_ge: "0 < c \<Longrightarrow> need \<le> grow_capacity c need"
  by (induction c need rule: grow_capacity.induct) (subst grow_capacity.simps, auto)

lemma EnsureCapacity_rep [simp]: "rep (EnsureCapacity b need) = rep b"
  by (simp add: EnsureCapacity_def)

lemma EnsureCapacity_ge: "need \<le> cap (EnsureCapacity b need)"
  by (simp add: EnsureCapacity_def grow_capacity_ge)

lemma wb_ok_EnsureCapacity: "wb_ok b \<Longrightarrow> wb_ok (EnsureCapacity b need)"
  using grow_capacity_ge [of "cap b" need] by (auto simp: wb_ok_def EnsureCapacity_def)

lemma wb_ok_SetCount [simp]: "wb_ok b \<Longrightarrow> wb_ok (SetCount b n)"
  by (simp add: wb_ok_def SetCount_def kHeader_def length_poke)

lemma wb_ok_grow:
  assumes "wb_ok b" and "length (rep b) + length xs \<le> need"
  shows "wb_ok (EnsureCapacity b need\<lparr>rep := rep b @ xs\<rparr>)"
  using assms EnsureCapacity_ge [of need b] by (simp add: wb_ok_def)

lemma wb_ok_Clear: "wb_ok (wb_Clear b)"
  using EnsureCapacity_ge [of "kHeader + 124" b]
  by (auto simp: wb_ok_def wb_Clear_def Resize_def Let_def kHeader_def length_poke)

lemma wb_ok_new: "wb_ok new_WriteBatch"
  by (simp add: new_WriteBatch_def wb_ok_Clear)

lemma wb_ok_Put: "wb_ok b \<Longrightarrow> wb_ok (wb_Put b k v)"
  unfolding wb_Put_def Let_def EnsureCapacity_rep
  using length_EncodeVarint32_le [of "clip_length k"] length_EncodeVarint32_le [of "clip_length v"]
  by (intro wb_ok_grow) simp_all

lemma wb_ok_Delete: "wb_ok b \<Longrightarrow> wb_ok (wb_Delete b k)"
  unfolding wb_Delete_def Let_def EnsureCapacity_rep
  using length_EncodeVarint32_le [of "clip_length k"] by (intro wb_ok_grow) simp_all

lemma wb_ok_Append: "wb_ok b \<Longrightarrow> wb_ok (wb_Append b c)"
  unfolding wb_Append_def Append_raw_def Let_def EnsureCapacity_rep
  by (intro wb_ok_grow) simp_all

lemma wb_ok_SetSequence: "wb_ok b \<Longrightarrow> wb_ok (SetSequence b seq)"
  by (simp add: wb_ok_def SetSequence_def kHeader_def length_poke)

lemma wb_ok_SetContents: "kHeader \<le> length c \<Longrightarrow> wb_ok (SetContents b c)"
  by (simp add: wb_ok_def SetContents_def)

lemma clip_length_eq: "clip_length k = of_nat (length (clip k))"
  by (simp add: clip_length_def clip_def min.commute)

lemma length_clip [simp]: "length (clip k) < 4294967296"
  by (simp add: clip_def)

lemma take_clip_length: "take (unat (clip_length k)) k = clip k"
  using length_clip [of k] by (simp add: clip_length_eq unat_of_nat_length) (simp add: clip_def min_def)

lemma batch_repD:
  assumes "batch_rep b seq us"
  shows "Count b = of_nat (length us)" "Sequence b = seq"
    "drop kHeader (rep b) = concat (map encode_update us)" "kHeader \<le> length (rep b)"
  using assms by (simp_all add: batch_rep_def Count_def Sequence_def kHeader_def)

lemma batch_rep_SetCount_append:
  assumes "batch_rep b seq us" and "\<forall>u \<in> set ws. update_fits u"
    and "n = of_nat (length (us @ ws))" and "rep b' = rep (SetCount b n) @ concat (map encode_update ws)"
  shows "batch_rep b' seq (us @ ws)"
  using assms by (auto simp: batch_rep_def SetCount_def poke_def)

lemma batch_rep_new: "batch_rep new_WriteBatch 0 []"
  by (simp add: batch_rep_def new_WriteBatch_def wb_Clear_def EnsureCapacity_def Resize_def
      poke_def kHeader_def EncodeFixed64_def EncodeFixed32_def numeral_eq_Suc)

lemma batch_rep_Clear: "batch_rep (wb_Clear b) 0 []"
  by (simp add: batch_rep_def wb_Clear_def Resize_def Let_def
      poke_def kHeader_def EncodeFixed64_def EncodeFixed32_def numeral_eq_Suc)

lemma batch_rep_Put:
  "batch_rep b seq us \<Longrightarrow> batch_rep (wb_Put b k v) seq (us @ [Put_update (clip k) (clip v)])"
  by (rule batch_rep_SetCount_append [where n = "Count b + 1"])
    (simp_all add: wb_Put_def Let_def take_clip_length [unfolded clip_length_eq] batch_repD clip_length_eq)

lemma batch_rep_Delete:
  "batch_rep b seq us \<Longrightarrow> batch_rep (wb_Delete b k) seq (us @ [Delete_update (clip k)])"
  by (rule batch_rep_SetCount_append [where n = "Count b + 1"])
    (simp_all add: wb_Delete_def Let_def take_clip_length [unfolded clip_length_eq] batch_repD clip_length_eq)

lemma batch_rep_Append:
  "batch_rep b seq us \<Longrightarrow> batch_rep c seq' ws \<Longrightarrow> batch_rep (wb_Append b c) seq (us @ ws)"
  by (rule batch_rep_SetCount_append [where b = b and n = "Count b + Count c"])
    (auto simp: wb_Append_def Append_raw_def Let_def batch_repD, simp add: batch_rep_def)

lemma batch_rep_SetSequence: "batch_rep b seq us \<Longrightarrow> batch_rep (SetSequence b seq') seq' us"
  by (auto simp: batch_rep_def SetSequence_def poke_def)

lemma batch_rep_SetContents: "batch_rep b seq us \<Longrightarrow> batch_rep (SetContents c (Contents b)) seq us"
  by (simp add: batch_rep_def SetContents_def Contents_def)

lemma Iterate_loop_encode:
  "\<forall>u \<in> set us. update_fits u \<Longrightarrow>
   Iterate_loop put del (concat (map encode_update us)) found s =
     (None, found + of_nat (length us), fold (apply_update put del) us s)"
proof (induction us arbitrary: found s)
  case (Cons u us)
  then show ?case
    by (cases u) (simp_all add: algebra_simps)
qed simp

lemma Iterate_replays:
  assumes "batch_rep b seq us"
  shows "Iterate put del b s = (OK, fold (apply_update put del) us s)"
proof -
  from assms have "\<forall>u \<in> set us. update_fits u" by (simp add: batch_rep_def)
  with batch_repD [OF assms] show ?thesis
    by (simp add: Iterate_def Iterate_loop_encode not_less)
qed

section \<open>Properties\<close>

lemma batch_rep_record:
  "batch_rep b seq us \<Longrightarrow> batch_rep (fold record_update ws b) seq (us @ map clip_update ws)"
proof (induction ws arbitrary: b us)
  case (Cons w ws)
  from Cons.prems have "batch_rep (record_update w b) seq (us @ [clip_update w])"
    by (cases w) (simp_all add: batch_rep_Put batch_rep_Delete)
  from Cons.IH [OF this] show ?case by simp
qed simp

lemma wb_ok_record: "wb_ok b \<Longrightarrow> wb_ok (fold record_update ws b)"
proof (induction ws arbitrary: b)
  case (Cons w ws)
  then show ?case by (cases w) (simp_all add: wb_ok_Put wb_ok_Delete)
qed simp

text \<open>
  C8. A batch replays what was put into it: whatever sequence of puts and deletes two batches
  received, iterating over the first with the second appended calls the handler once per update,
  in order, and reports success. Keys and values beyond \<open>UINT32_MAX\<close> bytes arrive cut.
\<close>

theorem write_batch_replay:
  "Iterate put del
     (wb_Append (fold record_update us new_WriteBatch) (fold record_update ws new_WriteBatch)) s =
   (OK, fold (apply_update put del) (map clip_update (us @ ws)) s)"
proof -
  let ?b = "\<lambda>us. fold record_update us new_WriteBatch"
  have "batch_rep (?b us) 0 (map clip_update us)" for us
    using batch_rep_record [OF batch_rep_new] by simp
  from batch_rep_Append [OF this this] show ?thesis
    using Iterate_replays by fastforce
qed


end
