(* ===== verification/Randgen.thy ===== *)
theory Randgen
  imports Prelude
begin

text \<open>
  \<open>util/random.h\<close>: the multiplicative congruential generator with modulus \<open>2^31 - 1\<close>, computed
  without division. The state is the seed; \<open>Next\<close> returns the new seed, which is also its value.
\<close>

definition Random_M :: u64 where "Random_M = 2147483647"
definition Random_A :: u64 where "Random_A = 16807"

definition mk_Random :: "u32 \<Rightarrow> u32" where
  "mk_Random s =
     (let seed = s AND 2147483647
      in if seed = 0 \<or> seed = 2147483647 then 1 else seed)"

definition Random_Next :: "u32 \<Rightarrow> u32" where
  "Random_Next seed =
     (let product = ucast seed * Random_A;
          seed1 = (ucast (drop_bit 31 product + (product AND Random_M)) :: u32)
      in if ucast Random_M < seed1 then seed1 - ucast Random_M else seed1)"

definition Uniform :: "u32 \<Rightarrow> u32 \<Rightarrow> u32 \<times> u32" where
  "Uniform seed n = (let s = Random_Next seed in (s mod n, s))"

definition OneIn :: "u32 \<Rightarrow> u32 \<Rightarrow> bool \<times> u32" where
  "OneIn seed n = (let s = Random_Next seed in (s mod n = 0, s))"

text \<open>The argument order of the two calls in \<open>Skewed\<close>: the inner one is evaluated first.\<close>

definition Skewed :: "u32 \<Rightarrow> nat \<Rightarrow> u32 \<times> u32" where
  "Skewed seed max_log =
     (let (bits, s1) = Uniform seed (of_nat (max_log + 1))
      in Uniform s1 (push_bit (unat bits) 1))"

definition Random_ok :: "u32 \<Rightarrow> bool" where
  "Random_ok seed \<longleftrightarrow> 0 < seed \<and> seed < 2147483647"

section \<open>Lemmas\<close>

lemma mersenne_fold:
  fixes p :: nat
  shows "(p div 2147483648 + p mod 2147483648) mod 2147483647 = p mod 2147483647"
proof -
  have "p = 2147483647 * (p div 2147483648) + (p div 2147483648 + p mod 2147483648)"
    using div_mult_mod_eq [of p 2147483648] by linarith
  then show ?thesis by (metis mod_mult_self4)
qed

lemma mod_once:
  fixes s m :: nat
  shows "s < 2 * m \<Longrightarrow> s \<noteq> m \<Longrightarrow> s mod m = (if m < s then s - m else s)"
  by (auto simp: le_mod_geq)

lemma product_unat:
  "unat (ucast (seed :: u32) * Random_A :: u64) = unat seed * 16807"
proof -
  have "unat seed < 2 ^ 32" using unat_less [of seed] by simp
  then show ?thesis by (simp add: unat_word_ariths Random_A_def unat_ucast)
qed

lemma reduced_unat:
  fixes p :: u64
  assumes "unat p < 2 ^ 62"
  shows "unat (ucast (drop_bit 31 p + (p AND Random_M)) :: u32) =
    unat p div 2147483648 + unat p mod 2147483648"
proof -
  have "p AND Random_M = take_bit 31 p"
    by (simp add: Random_M_def take_bit_eq_mask mask_eq_exp_minus_1)
  moreover have "unat (take_bit 31 p) = unat p mod 2147483648"
    by (simp add: unat_take_bit)
  moreover have "unat (drop_bit 31 p) = unat p div 2147483648"
    by (simp only: unat_drop_bit) simp
  moreover have "unat p div 2147483648 < 2147483648"
    using assms by (simp add: less_mult_imp_div_less)
  moreover have "unat p mod 2147483648 < 2147483648" by simp
  ultimately show ?thesis
    by (simp add: unat_ucast unat_word_ariths)
qed

lemma Random_Next_unat:
  assumes "Random_ok seed"
  shows "unat (Random_Next seed) = (unat seed * 16807) mod 2147483647"
proof -
  let ?p = "unat seed * 16807"
  let ?s = "?p div 2147483648 + ?p mod 2147483648"
  from assms have seed: "unat seed < 2147483647" by (simp add: Random_ok_def word_less_nat_alt)
  then have "?p < 2 ^ 62" by simp
  then have s: "unat (ucast (drop_bit 31 (ucast seed * Random_A) +
      (ucast seed * Random_A AND Random_M)) :: u32) = ?s" (is "unat ?w = _")
    using reduced_unat [of "ucast seed * Random_A"] by (simp only: product_unat)
  have M: "unat (ucast Random_M :: u32) = 2147483647" by (simp add: Random_M_def unat_ucast)
  have small: "?s < 2 * 2147483647"
  proof -
    have "?p div 2147483648 < 16807" using seed by (simp add: less_mult_imp_div_less)
    moreover have "?p mod 2147483648 < 2147483648" by simp
    ultimately show ?thesis by linarith
  qed
  have ne: "?s \<noteq> 2147483647"
  proof
    assume "?s = 2147483647"
    then have "2147483647 dvd ?p" using mersenne_fold [of ?p] by (simp add: mod_eq_0_iff_dvd)
    moreover have "coprime (2147483647 :: nat) 16807" by (simp add: coprime_iff_gcd_eq_1 gcd_non_0_nat)
    ultimately have "2147483647 dvd unat seed" by (simp add: coprime_dvd_mult_left_iff)
    then show False using assms seed
      by (auto simp: Random_ok_def word_less_nat_alt dest: dvd_imp_le)
  qed
  have "unat (Random_Next seed) = (if 2147483647 < ?s then ?s - 2147483647 else ?s)"
    unfolding Random_Next_def Let_def using s M by (simp add: word_less_nat_alt unat_sub_if')
  also have "\<dots> = ?s mod 2147483647"
    by (rule mod_once [symmetric]) (use small ne in simp_all)
  finally show ?thesis by (simp only: mersenne_fold)
qed

lemma Random_ok_mk: "Random_ok (mk_Random s)"
proof -
  let ?s = "s AND 2147483647"
  have "?s = take_bit 31 s" by (simp add: take_bit_eq_mask mask_eq_exp_minus_1)
  then have "unat ?s < 2 ^ 31"
    by (simp add: unat_take_bit)
  then have "?s = 0 \<or> ?s = 2147483647 \<or> Random_ok ?s"
    by (auto simp: Random_ok_def word_less_nat_alt word_unat_eq_iff)
  then show ?thesis by (auto simp: mk_Random_def Let_def Random_ok_def)
qed

lemma Random_ok_Next:
  assumes "Random_ok seed"
  shows "Random_ok (Random_Next seed)"
proof -
  from assms have seed: "0 < unat seed" "unat seed < 2147483647"
    by (simp_all add: Random_ok_def word_less_nat_alt)
  have "coprime (2147483647 :: nat) 16807" by (simp add: coprime_iff_gcd_eq_1 gcd_non_0_nat)
  with seed have "\<not> 2147483647 dvd unat seed * 16807"
    by (auto simp: coprime_dvd_mult_left_iff dest: dvd_imp_le)
  then have "0 < unat seed * 16807 mod 2147483647" by (simp add: mod_greater_zero_iff_not_dvd)
  then show ?thesis using Random_Next_unat [OF assms]
    by (simp add: Random_ok_def word_less_nat_alt)
qed

section \<open>Properties\<close>

text \<open>
  C24. The division-free step computes \<open>seed * 16807 mod (2^31 - 1)\<close>, and a generator that was
  started with any seed never falls into the fixed points 0 and \<open>2^31 - 1\<close>.
\<close>

theorem random_step:
  assumes "seed = (Random_Next ^^ n) (mk_Random s)"
  shows "unat (Random_Next seed) = unat seed * 16807 mod 2147483647
    \<and> 0 < Random_Next seed \<and> Random_Next seed < 2147483647"
proof -
  have "Random_ok seed"
    unfolding assms by (induction n) (simp_all add: Random_ok_mk Random_ok_Next)
  from Random_Next_unat [OF this] Random_ok_Next [OF this] show ?thesis
    by (simp add: Random_ok_def)
qed

theorem random_step_witness: "Random_Next (mk_Random 3735928559) < 2147483647"
  using random_step [of "mk_Random 3735928559" 0 3735928559] by simp

end
