(* ===== verification/SkipList.thy ===== *)
theory SkipList
  imports Comparator Randgen
begin

text \<open>
  \<open>db/skiplist.h\<close>: the skip list under the memtable. A \<open>Node*\<close> is an index into the list of nodes the
  arena has handed out (\<open>nodes\<close>); index 0 is \<open>head_\<close>. A node's \<open>next_\<close> array (field \<open>nexts\<close>) has one link per level;
  \<open>NewNode\<close> leaves the links unset, which the model writes as \<open>None\<close>. The search loops follow links
  through the heap and may not end on a damaged one, so they are partial functions, and that they
  return is part of what is proved. The acquire and release accesses are plain reads and writes:
  interleavings are those of a sequentially consistent memory.

  The contract is \<open>skip_inv\<close>: at every level the links run through the nodes of that height, in
  strictly increasing order of their keys. Its height function counts the levels at which a node is
  linked, so that it also describes a list in the middle of an insertion.
\<close>

section \<open>Operations\<close>

record 'k Node =
  node_key :: 'k
  nexts :: "nat option list"

record 'k SkipList =
  nodes :: "'k Node list"
  max_height :: nat
  rnd :: u32

definition kMaxHeight :: nat where "kMaxHeight = 12"

definition Next :: "'k SkipList \<Rightarrow> nat \<Rightarrow> nat \<Rightarrow> nat option" where
  "Next sl x n = nexts (nodes sl ! x) ! n"

definition SetNext :: "'k SkipList \<Rightarrow> nat \<Rightarrow> nat \<Rightarrow> nat option \<Rightarrow> 'k SkipList" where
  "SetNext sl x n y =
     sl\<lparr>nodes := (nodes sl)[x := (nodes sl ! x)\<lparr>nexts := (nexts (nodes sl ! x))[n := y]\<rparr>]\<rparr>"

definition key_of :: "'k SkipList \<Rightarrow> nat \<Rightarrow> 'k" where
  "key_of sl x = node_key (nodes sl ! x)"

definition NewNode :: "'k SkipList \<Rightarrow> 'k \<Rightarrow> nat \<Rightarrow> nat \<times> 'k SkipList" where
  "NewNode sl key height =
     (length (nodes sl),
      sl\<lparr>nodes := nodes sl @ [\<lparr>node_key = key, nexts = replicate height None\<rparr>]\<rparr>)"

text \<open>The head's key is any value: the constructor passes 0, and nothing ever reads it.\<close>

definition new_SkipList :: "'k \<Rightarrow> 'k SkipList" where
  "new_SkipList any_key =
     (let sl = \<lparr>nodes = [], max_height = 1, rnd = mk_Random 3735928559\<rparr>;
          (head, sl1) = NewNode sl any_key kMaxHeight
      in fold (\<lambda>i sl. SetNext sl head i None) [0..<kMaxHeight] sl1)"

function RandomHeight_loop :: "nat \<Rightarrow> u32 \<Rightarrow> nat \<times> u32" where
  "RandomHeight_loop height seed =
     (if height < kMaxHeight
      then let seed1 = Random_Next seed
           in if unat seed1 mod 4 = 0 then RandomHeight_loop (height + 1) seed1 else (height, seed1)
      else (height, seed))"
  by pat_completeness auto
termination
  by (relation "measure (\<lambda>(height, seed). kMaxHeight - height)") auto

declare RandomHeight_loop.simps [simp del]

definition RandomHeight :: "'k SkipList \<Rightarrow> nat \<times> 'k SkipList" where
  "RandomHeight sl = (let (height, seed) = RandomHeight_loop 1 (rnd sl) in (height, sl\<lparr>rnd := seed\<rparr>))"

definition KeyIsAfterNode ::
  "('k \<Rightarrow> 'k \<Rightarrow> int) \<Rightarrow> 'k SkipList \<Rightarrow> 'k \<Rightarrow> nat option \<Rightarrow> bool" where
  "KeyIsAfterNode cmp sl key n = (case n of None \<Rightarrow> False | Some y \<Rightarrow> cmp (key_of sl y) key < 0)"

text \<open>
  The array \<open>prev\<close> is a list; the null pointer some callers pass is the empty list, on which the
  update does nothing.
\<close>

partial_function (option) FindGreaterOrEqual_loop ::
  "('k \<Rightarrow> 'k \<Rightarrow> int) \<Rightarrow> 'k SkipList \<Rightarrow> 'k \<Rightarrow> nat \<Rightarrow> nat \<Rightarrow> nat list \<Rightarrow> (nat option \<times> nat list) option" where
  "FindGreaterOrEqual_loop cmp sl key x level prev =
     (let next = Next sl x level
      in if KeyIsAfterNode cmp sl key next
         then FindGreaterOrEqual_loop cmp sl key (the next) level prev
         else let prev1 = prev[level := x]
              in if level = 0 then Some (next, prev1)
                 else FindGreaterOrEqual_loop cmp sl key x (level - 1) prev1)"

definition FindGreaterOrEqual ::
  "('k \<Rightarrow> 'k \<Rightarrow> int) \<Rightarrow> 'k SkipList \<Rightarrow> 'k \<Rightarrow> nat list \<Rightarrow> (nat option \<times> nat list) option" where
  "FindGreaterOrEqual cmp sl key prev =
     FindGreaterOrEqual_loop cmp sl key 0 (max_height sl - 1) prev"

partial_function (option) FindLessThan_loop ::
  "('k \<Rightarrow> 'k \<Rightarrow> int) \<Rightarrow> 'k SkipList \<Rightarrow> 'k \<Rightarrow> nat \<Rightarrow> nat \<Rightarrow> nat option" where
  "FindLessThan_loop cmp sl key x level =
     (let next = Next sl x level
      in if next = None \<or> 0 \<le> cmp (key_of sl (the next)) key
         then (if level = 0 then Some x else FindLessThan_loop cmp sl key x (level - 1))
         else FindLessThan_loop cmp sl key (the next) level)"

definition FindLessThan :: "('k \<Rightarrow> 'k \<Rightarrow> int) \<Rightarrow> 'k SkipList \<Rightarrow> 'k \<Rightarrow> nat option" where
  "FindLessThan cmp sl key = FindLessThan_loop cmp sl key 0 (max_height sl - 1)"

partial_function (option) FindLast_loop :: "'k SkipList \<Rightarrow> nat \<Rightarrow> nat \<Rightarrow> nat option" where
  "FindLast_loop sl x level =
     (let next = Next sl x level
      in if next = None
         then (if level = 0 then Some x else FindLast_loop sl x (level - 1))
         else FindLast_loop sl (the next) level)"

definition FindLast :: "'k SkipList \<Rightarrow> nat option" where
  "FindLast sl = FindLast_loop sl 0 (max_height sl - 1)"

text \<open>One round of the loop that links the new node \<open>x\<close> in, at level \<open>i\<close>.\<close>

definition link_level :: "nat \<Rightarrow> nat list \<Rightarrow> nat \<Rightarrow> 'k SkipList \<Rightarrow> 'k SkipList" where
  "link_level x prev i sl =
     (let sl1 = SetNext sl x i (Next sl (prev ! i) i) in SetNext sl1 (prev ! i) i (Some x))"

text \<open>
  The local array \<open>prev\<close> starts uninitialised: its entries are a dangling pointer, the index of no
  node.
\<close>

definition Insert :: "('k \<Rightarrow> 'k \<Rightarrow> int) \<Rightarrow> 'k SkipList \<Rightarrow> 'k \<Rightarrow> 'k SkipList option" where
  "Insert cmp sl key =
     (case FindGreaterOrEqual cmp sl key (replicate kMaxHeight (length (nodes sl))) of
        None \<Rightarrow> None
      | Some (x, prev) \<Rightarrow>
          let (height, sl1) = RandomHeight sl;
              (prev1, sl2) =
                (if max_height sl1 < height
                 then (fold (\<lambda>i prev. prev[i := 0]) [max_height sl1..<height] prev,
                       sl1\<lparr>max_height := height\<rparr>)
                 else (prev, sl1));
              (x, sl3) = NewNode sl2 key height
          in Some (fold (link_level x prev1) [0..<height] sl3))"

definition Contains :: "('k \<Rightarrow> 'k \<Rightarrow> int) \<Rightarrow> 'k SkipList \<Rightarrow> 'k \<Rightarrow> bool option" where
  "Contains cmp sl key =
     map_option (\<lambda>(x, prev). case x of Some y \<Rightarrow> cmp key (key_of sl y) = 0 | None \<Rightarrow> False)
       (FindGreaterOrEqual cmp sl key [])"

text \<open>The iterator is its \<open>node_\<close>; the operations that move it return the new one.\<close>

definition it_Valid :: "nat option \<Rightarrow> bool" where
  "it_Valid node = (node \<noteq> None)"

definition it_key :: "'k SkipList \<Rightarrow> nat \<Rightarrow> 'k" where
  "it_key sl node = key_of sl node"

definition it_Next :: "'k SkipList \<Rightarrow> nat \<Rightarrow> nat option" where
  "it_Next sl node = Next sl node 0"

definition it_Prev :: "('k \<Rightarrow> 'k \<Rightarrow> int) \<Rightarrow> 'k SkipList \<Rightarrow> nat \<Rightarrow> nat option option" where
  "it_Prev cmp sl node =
     map_option (\<lambda>x. if x = 0 then None else Some x) (FindLessThan cmp sl (key_of sl node))"

definition it_Seek :: "('k \<Rightarrow> 'k \<Rightarrow> int) \<Rightarrow> 'k SkipList \<Rightarrow> 'k \<Rightarrow> nat option option" where
  "it_Seek cmp sl target = map_option fst (FindGreaterOrEqual cmp sl target [])"

definition it_SeekToFirst :: "'k SkipList \<Rightarrow> nat option" where
  "it_SeekToFirst sl = Next sl 0 0"

definition it_SeekToLast :: "'k SkipList \<Rightarrow> nat option option" where
  "it_SeekToLast sl = map_option (\<lambda>x. if x = 0 then None else Some x) (FindLast sl)"

text \<open>\<open>Seek\<close>, then \<open>key()\<close> if the iterator is valid: how the memtable reads.\<close>

definition seek_key :: "('k \<Rightarrow> 'k \<Rightarrow> int) \<Rightarrow> 'k SkipList \<Rightarrow> 'k \<Rightarrow> 'k option option" where
  "seek_key cmp sl target = map_option (map_option (it_key sl)) (it_Seek cmp sl target)"

text \<open>A sequence of insertions.\<close>

fun insert_all :: "('k \<Rightarrow> 'k \<Rightarrow> int) \<Rightarrow> 'k SkipList \<Rightarrow> 'k list \<Rightarrow> 'k SkipList option" where
  "insert_all cmp sl [] = Some sl"
| "insert_all cmp sl (k # ks) = Option.bind (Insert cmp sl k) (\<lambda>sl1. insert_all cmp sl1 ks)"

section \<open>The contract\<close>

text \<open>The links of level \<open>l\<close> run from node \<open>x\<close> through the nodes of the list, then end.\<close>

fun linked :: "'k SkipList \<Rightarrow> nat \<Rightarrow> nat \<Rightarrow> nat list \<Rightarrow> bool" where
  "linked sl l x [] = (Next sl x l = None)"
| "linked sl l x (y # ys) = (Next sl x l = Some y \<and> linked sl l y ys)"

definition skip_inv :: "('k \<Rightarrow> 'k \<Rightarrow> int) \<Rightarrow> 'k SkipList \<Rightarrow> nat list \<Rightarrow> (nat \<Rightarrow> nat) \<Rightarrow> bool" where
  "skip_inv cmp sl ids ht \<longleftrightarrow>
     nodes sl \<noteq> [] \<and> length (nexts (nodes sl ! 0)) = kMaxHeight
     \<and> 1 \<le> max_height sl \<and> max_height sl \<le> kMaxHeight
     \<and> distinct ids
     \<and> (\<forall>x \<in> set ids. 0 < x \<and> x < length (nodes sl) \<and> ht x \<le> max_height sl
          \<and> ht x \<le> length (nexts (nodes sl ! x)))
     \<and> sorted_wrt (\<lambda>x y. cmp (key_of sl x) (key_of sl y) < 0) ids
     \<and> (\<forall>l < kMaxHeight. linked sl l 0 (filter (\<lambda>x. l < ht x) ids))"

text \<open>A skip list between operations holds the sorted list of keys \<open>ks\<close>: every node is linked.\<close>

definition skip_rel :: "('k \<Rightarrow> 'k \<Rightarrow> int) \<Rightarrow> 'k SkipList \<Rightarrow> nat list \<Rightarrow> 'k list \<Rightarrow> bool" where
  "skip_rel cmp sl ids ks \<longleftrightarrow>
     (\<exists>ht. skip_inv cmp sl ids ht \<and> (\<forall>x \<in> set ids. 0 < ht x)) \<and> ks = map (key_of sl) ids"

definition skip_holds :: "('k \<Rightarrow> 'k \<Rightarrow> int) \<Rightarrow> 'k SkipList \<Rightarrow> 'k list \<Rightarrow> bool" where
  "skip_holds cmp sl ks \<longleftrightarrow> (\<exists>ids. skip_rel cmp sl ids ks)"

text \<open>Where a key goes among the keys of the list.\<close>

definition insert_key :: "('k \<Rightarrow> 'k \<Rightarrow> int) \<Rightarrow> 'k \<Rightarrow> 'k list \<Rightarrow> 'k list" where
  "insert_key cmp k ks = takeWhile (\<lambda>x. cmp x k < 0) ks @ k # dropWhile (\<lambda>x. cmp x k < 0) ks"

definition first_of :: "'a list \<Rightarrow> 'a option" where
  "first_of xs = (case xs of [] \<Rightarrow> None | x # _ \<Rightarrow> Some x)"

definition pred_at :: "(nat \<Rightarrow> nat) \<Rightarrow> nat list \<Rightarrow> nat \<Rightarrow> nat" where
  "pred_at ht lt l = last (0 # filter (\<lambda>x. l < ht x) lt)"


section \<open>Links and searches\<close>

lemma key_of_SetNext [simp]: "key_of (SetNext sl x n y) z = key_of sl z"
  by (cases "z = x"; cases "x < length (nodes sl)") (simp_all add: SetNext_def key_of_def list_update_beyond)

lemma SetNext_simps [simp]:
  "length (nodes (SetNext sl x n y)) = length (nodes sl)"
  "max_height (SetNext sl x n y) = max_height sl"
  by (simp_all add: SetNext_def)

lemma length_nexts_SetNext [simp]:
  "length (nexts (nodes (SetNext sl x n y) ! z)) = length (nexts (nodes sl ! z))"
  by (cases "z = x"; cases "x < length (nodes sl)") (simp_all add: SetNext_def list_update_beyond)

lemma Next_SetNext:
  "x < length (nodes sl) \<Longrightarrow> n < length (nexts (nodes sl ! x)) \<Longrightarrow>
   Next (SetNext sl x n v) y m = (if y = x \<and> m = n then v else Next sl y m)"
  by (auto simp: SetNext_def Next_def nth_list_update)

lemma linked_cong:
  "(\<And>y. y \<in> set (x # ys) \<Longrightarrow> Next sl' y l = Next sl y l) \<Longrightarrow> linked sl' l x ys = linked sl l x ys"
  by (induction ys arbitrary: x) auto

lemma linked_last: "linked sl l x (as @ bs) \<Longrightarrow> linked sl l (last (x # as)) bs"
  by (induction as arbitrary: x) auto

text \<open>From a node of the chain the rest of the chain follows.\<close>

lemma linked_mid:
  assumes "linked sl l x (as @ bs)" and "y = x \<or> y \<in> set as"
  obtains cs where "linked sl l y (cs @ bs)" "set cs \<subseteq> set as" "last (y # cs) = last (x # as)"
proof (cases "y = x")
  case False
  with assms(2) obtain as1 as2 where as: "as = as1 @ y # as2" by (meson split_list)
  from assms(1) have "linked sl l (last (x # as1 @ [y])) (as2 @ bs)"
    by (intro linked_last) (simp add: as)
  then show ?thesis by (intro that [of as2]) (auto simp: as)
qed (use assms(1) that in blast)

text \<open>
  All three searches are one pattern: follow the links of a level while \<open>P\<close> holds of the next node,
  then record the node reached and go down. On a list whose nodes split into those with \<open>P\<close> and
  those without, the search reaches the last node with \<open>P\<close> of every level.
\<close>

lemma descend_level:
  fixes f :: "nat \<Rightarrow> nat \<Rightarrow> 'p \<Rightarrow> 'r"
  assumes f: "\<And>x l p. f x l p =
      (let next = Next sl x l
       in if (case next of None \<Rightarrow> False | Some y \<Rightarrow> P y) then f (the next) l p
          else let p1 = upd l x p in if l = 0 then r x p1 else f x (l - 1) p1)"
    and "linked sl l x (as @ bs)" and "\<forall>a \<in> set as. P a" and "\<forall>b \<in> set bs. \<not> P b"
  shows "f x l p = (let y = last (x # as); p1 = upd l y p in if l = 0 then r y p1 else f y (l - 1) p1)"
  using assms(2,3)
proof (induction as arbitrary: x)
  case Nil
  then show ?case using assms(4) by (cases bs) (simp_all add: f [of x l p])
next
  case (Cons a as)
  then show ?case by (simp add: f [of x l p])
qed

lemma descend:
  fixes f :: "nat \<Rightarrow> nat \<Rightarrow> 'p \<Rightarrow> 'r"
  assumes f: "\<And>x l p. f x l p =
      (let next = Next sl x l
       in if (case next of None \<Rightarrow> False | Some y \<Rightarrow> P y) then f (the next) l p
          else let p1 = upd l x p in if l = 0 then r x p1 else f x (l - 1) p1)"
    and chain: "\<And>l. l < kMaxHeight \<Longrightarrow> linked sl l 0 (filter (\<lambda>x. l < ht x) (lt @ ge))"
    and P: "\<forall>x \<in> set lt. P x" "\<forall>x \<in> set ge. \<not> P x"
    and "l < kMaxHeight" and "x = 0 \<or> x \<in> set lt \<and> l < ht x"
  shows "f x l p =
    r (pred_at ht lt 0) (fold (\<lambda>j. upd j (pred_at ht lt j)) (rev [0..<Suc l]) p)"
  using assms(5,6)
proof (induction l arbitrary: x p)
  case 0
  let ?L = "\<lambda>xs. filter (\<lambda>x. 0 < ht x) xs"
  from 0 have x: "x = 0 \<or> x \<in> set (?L lt)" by auto
  from chain [OF 0(1)] have "linked sl 0 0 (?L lt @ ?L ge)" by simp
  from linked_mid [OF this x] obtain cs where
    "linked sl 0 x (cs @ ?L ge)" "set cs \<subseteq> set (?L lt)" "last (x # cs) = pred_at ht lt 0"
    unfolding pred_at_def .
  then show ?case
    using descend_level [OF f, of 0 x cs "?L ge" p] P by (auto simp: Let_def)
next
  case (Suc l)
  let ?L = "\<lambda>xs. filter (\<lambda>x. Suc l < ht x) xs"
  from Suc.prems have x: "x = 0 \<or> x \<in> set (?L lt)" by auto
  from chain [OF Suc.prems(1)] have "linked sl (Suc l) 0 (?L lt @ ?L ge)" by simp
  from linked_mid [OF this x] obtain cs where cs: "linked sl (Suc l) x (cs @ ?L ge)"
      "set cs \<subseteq> set (?L lt)" "last (x # cs) = pred_at ht lt (Suc l)"
    unfolding pred_at_def .
  have "pred_at ht lt (Suc l) \<in> set (0 # ?L lt)"
    unfolding pred_at_def by (rule last_in_set) simp
  then have "pred_at ht lt (Suc l) = 0 \<or> pred_at ht lt (Suc l) \<in> set lt \<and> l < ht (pred_at ht lt (Suc l))"
    by auto
  then have "f (pred_at ht lt (Suc l)) l q =
      r (pred_at ht lt 0) (fold (\<lambda>j. upd j (pred_at ht lt j)) (rev [0..<Suc l]) q)" for q
    using Suc by auto
  then show ?case
    using descend_level [OF f, of "Suc l" x cs "?L ge" p] cs P by (auto simp: Let_def)
qed

lemma fold_update_nth:
  "i < length p \<Longrightarrow>
   fold (\<lambda>j p. p[j := g j]) js p ! i = (if i \<in> set js then g i else p ! i)"
  by (induction js arbitrary: p) (auto simp: nth_list_update)

lemma length_fold_update [simp]: "length (fold (\<lambda>j p. p[j := g j]) js p) = length p"
  by (induction js arbitrary: p) auto


section \<open>The invariant under the writer's steps\<close>

lemma skip_inv_chain:
  "skip_inv cmp sl ids ht \<Longrightarrow> l < kMaxHeight \<Longrightarrow> linked sl l 0 (filter (\<lambda>x. l < ht x) ids)"
  by (simp add: skip_inv_def)

lemma skip_inv_transfer:
  assumes "skip_inv cmp sl ids ht" and "nodes sl' = nodes sl"
    and "max_height sl \<le> max_height sl'" and "max_height sl' \<le> kMaxHeight"
  shows "skip_inv cmp sl' ids ht"
proof -
  have "linked sl' l x ys = linked sl l x ys" for l x ys
    by (rule linked_cong) (simp add: Next_def assms(2))
  with assms show ?thesis by (auto simp: skip_inv_def key_of_def)
qed

lemma linked_insert:
  assumes "linked sl l x (as @ bs)" and "distinct (x # as @ bs)" and "n \<notin> set (x # as @ bs)"
    and "Next sl' (last (x # as)) l = Some n" and "Next sl' n l = Next sl (last (x # as)) l"
    and "\<And>y. y \<noteq> n \<Longrightarrow> y \<noteq> last (x # as) \<Longrightarrow> Next sl' y l = Next sl y l"
  shows "linked sl' l x (as @ n # bs)"
  using assms
proof (induction as arbitrary: x)
  case Nil
  then have "linked sl' l n bs"
  proof (cases bs)
    case (Cons b bs')
    have "linked sl' l b bs' = linked sl l b bs'"
    proof (rule linked_cong)
      fix y assume "y \<in> set (b # bs')"
      with Nil.prems(2,3) Cons show "Next sl' y l = Next sl y l" by (intro Nil.prems(6)) auto
    qed
    with Nil Cons show ?thesis by simp
  qed simp
  with Nil show ?case by simp
next
  case (Cons a as)
  from Cons.prems have "x \<noteq> last (a # as)" by (metis append_Cons distinct.simps(2) last_in_set
        list.distinct(1) Un_iff set_append)
  with Cons show ?case by (auto split: if_splits)
qed

text \<open>The height of a node that is not in a list does not matter to it.\<close>

lemma filter_height:
  "n \<notin> set xs \<Longrightarrow> filter (\<lambda>x. l < (ht(n := k)) x) xs = filter (\<lambda>x. l < ht x) xs"
  by (rule filter_cong [OF refl]) auto

lemma pred_at_height: "n \<notin> set lt \<Longrightarrow> pred_at (ht(n := k)) lt l = pred_at ht lt l"
  by (simp add: pred_at_def filter_height del: fun_upd_apply)

text \<open>Allocating a node: it takes its place in the order, not yet linked at any level.\<close>

lemma skip_inv_NewNode:
  assumes inv: "skip_inv cmp sl (lt @ ge) ht" and new: "NewNode sl key height = (n, sl')"
    and "\<forall>x \<in> set lt. cmp (key_of sl x) key < 0" and "\<forall>x \<in> set ge. cmp key (key_of sl x) < 0"
  shows "skip_inv cmp sl' (lt @ n # ge) (ht(n := 0))" and "n \<notin> set (lt @ ge)"
    and "length (nexts (nodes sl' ! n)) = height" and "key_of sl' n = key"
    and "n < length (nodes sl')" and "max_height sl' = max_height sl"
    and "\<And>x. x \<in> set (lt @ ge) \<Longrightarrow> key_of sl' x = key_of sl x"
proof -
  have n: "n = length (nodes sl)" and sl': "sl' = sl\<lparr>nodes := nodes sl @ [\<lparr>node_key = key, nexts = replicate height None\<rparr>]\<rparr>"
    using new by (auto simp: NewNode_def)
  show fresh: "n \<notin> set (lt @ ge)" using inv n by (auto simp: skip_inv_def)
  show "length (nexts (nodes sl' ! n)) = height" "n < length (nodes sl')" "max_height sl' = max_height sl"
    and kn: "key_of sl' n = key"
    by (simp_all add: n sl' key_of_def)
  have old: "nodes sl' ! x = nodes sl ! x" if "x < length (nodes sl)" for x
    using that by (simp add: sl' nth_append)
  have ids: "x < length (nodes sl)" if "x \<in> set (lt @ ge)" for x
    using that inv unfolding skip_inv_def by blast
  show key: "key_of sl' x = key_of sl x" if "x \<in> set (lt @ ge)" for x
    using old [OF ids [OF that]] by (simp add: key_of_def)
  have head: "0 < length (nodes sl)" using inv by (simp add: skip_inv_def)
  have filt: "filter (\<lambda>x. l < (ht(n := 0)) x) (lt @ n # ge) = filter (\<lambda>x. l < ht x) (lt @ ge)" for l
    using fresh filter_height [of n lt l ht 0] filter_height [of n ge l ht 0] by simp
  have "linked sl' l 0 (filter (\<lambda>x. l < ht x) (lt @ ge))" if "l < kMaxHeight" for l
  proof -
    have "Next sl' y l = Next sl y l" if "y \<in> set (0 # filter (\<lambda>x. l < ht x) (lt @ ge))" for y
      using old [of y] ids [of y] head that by (auto simp: Next_def)
    then show ?thesis using linked_cong [of 0 _ sl' l sl] skip_inv_chain [OF inv that] by blast
  qed
  moreover have "sorted_wrt (\<lambda>x y. cmp (key_of sl' x) (key_of sl' y) < 0) (lt @ ge)"
    using inv unfolding skip_inv_def by (auto simp: key elim!: sorted_wrt_mono_rel [rotated])
  then have "sorted_wrt (\<lambda>x y. cmp (key_of sl' x) (key_of sl' y) < 0) (lt @ n # ge)"
    using assms(3,4) key kn by (simp add: sorted_wrt_append)
  moreover have "\<forall>x \<in> set (lt @ n # ge). 0 < x \<and> x < length (nodes sl') \<and> (ht(n := 0)) x \<le> max_height sl'
      \<and> (ht(n := 0)) x \<le> length (nexts (nodes sl' ! x))"
  proof
    fix x assume x: "x \<in> set (lt @ n # ge)"
    show "0 < x \<and> x < length (nodes sl') \<and> (ht(n := 0)) x \<le> max_height sl'
      \<and> (ht(n := 0)) x \<le> length (nexts (nodes sl' ! x))"
    proof (cases "x = n")
      case False
      with x have "x \<in> set (lt @ ge)" by auto
      with inv have "0 < x \<and> x < length (nodes sl) \<and> ht x \<le> max_height sl
          \<and> ht x \<le> length (nexts (nodes sl ! x))" unfolding skip_inv_def by blast
      with False old show ?thesis by (simp add: sl')
    qed (use head in \<open>simp add: n sl'\<close>)
  qed
  ultimately show "skip_inv cmp sl' (lt @ n # ge) (ht(n := 0))"
    using inv fresh old [OF head] unfolding skip_inv_def filt by (simp add: sl')
qed

text \<open>Linking it at one more level.\<close>

lemma link_level_simps [simp]:
  "length (nodes (link_level n prev i sl)) = length (nodes sl)"
  "max_height (link_level n prev i sl) = max_height sl"
  "key_of (link_level n prev i sl) x = key_of sl x"
  "length (nexts (nodes (link_level n prev i sl) ! x)) = length (nexts (nodes sl ! x))"
  by (simp_all add: link_level_def Let_def)

lemma pred_at_in: "pred_at ht lt l = 0 \<or> pred_at ht lt l \<in> set lt \<and> l < ht (pred_at ht lt l)"
proof -
  have "pred_at ht lt l \<in> set (0 # filter (\<lambda>x. l < ht x) lt)"
    unfolding pred_at_def by (rule last_in_set) simp
  then show ?thesis by auto
qed

lemma skip_inv_link:
  assumes inv: "skip_inv cmp sl (lt @ n # ge) ht" and "ht n = i" and "i < max_height sl"
    and "i < length (nexts (nodes sl ! n))" and prev: "prev ! i = pred_at ht lt i"
  shows "skip_inv cmp (link_level n prev i sl) (lt @ n # ge) (ht(n := Suc i))"
proof -
  let ?p = "pred_at ht lt i" and ?sl = "link_level n prev i sl" and ?ht = "ht(n := Suc i)"
  have ids: "0 < x" "x < length (nodes sl)" "ht x \<le> length (nexts (nodes sl ! x))"
    if "x \<in> set (lt @ n # ge)" for x
    using that inv unfolding skip_inv_def by blast+
  have i: "i < kMaxHeight" and dist: "distinct (lt @ n # ge)"
    using inv \<open>i < max_height sl\<close> by (auto simp: skip_inv_def)
  have head: "0 < length (nodes sl)" "length (nexts (nodes sl ! 0)) = kMaxHeight"
    using inv by (simp_all add: skip_inv_def)
  have pn: "?p \<noteq> n" using pred_at_in [of ht lt i] ids(1) [of n] dist by auto
  have p: "?p < length (nodes sl)" "i < length (nexts (nodes sl ! ?p))"
    using pred_at_in [of ht lt i] head i ids(2,3) [of ?p] by auto
  have Next': "Next ?sl y m = (if y = ?p \<and> m = i then Some n
      else if y = n \<and> m = i then Next sl ?p i else Next sl y m)" for y m
    using p pn ids(2) [of n] assms(4) by (simp add: link_level_def Let_def prev Next_SetNext)
  have "linked ?sl l 0 (filter (\<lambda>x. l < ?ht x) (lt @ n # ge))" if l: "l < kMaxHeight" for l
  proof (cases "l = i")
    case True
    let ?L = "filter (\<lambda>x. i < ht x)"
    have filt: "filter (\<lambda>x. i < ?ht x) (lt @ n # ge) = ?L lt @ n # ?L ge"
      using dist filter_height [of n lt i ht "Suc i"] filter_height [of n ge i ht "Suc i"] by simp
    have chain: "linked sl i 0 (?L lt @ ?L ge)"
      using skip_inv_chain [OF inv i] assms(2) by simp
    have zero: "0 \<notin> set (lt @ n # ge)" using ids(1) by blast
    have "linked ?sl i 0 (?L lt @ n # ?L ge)"
      using chain dist zero pn by (intro linked_insert [OF chain]) (auto simp: Next' pred_at_def)
    then show ?thesis by (simp only: True filt)
  next
    case False
    have "filter (\<lambda>x. l < ?ht x) (lt @ n # ge) = filter (\<lambda>x. l < ht x) (lt @ n # ge)"
      using False assms(2) dist filter_height [of n lt l ht "Suc i"]
        filter_height [of n ge l ht "Suc i"] by simp
    moreover have "linked ?sl l x ys = linked sl l x ys" for x ys
      using False by (intro linked_cong) (simp add: Next')
    ultimately show ?thesis using skip_inv_chain [OF inv l] by simp
  qed
  moreover have "\<forall>x \<in> set (lt @ n # ge). ?ht x \<le> length (nexts (nodes ?sl ! x)) \<and> ?ht x \<le> max_height ?sl"
    using inv assms(3,4) by (auto simp: skip_inv_def)
  ultimately show ?thesis
    using inv unfolding skip_inv_def by (auto simp flip: length_greater_0_conv)
qed

lemma skip_inv_link_all:
  assumes "skip_inv cmp sl (lt @ n # ge) (ht(n := 0))" and "height \<le> max_height sl"
    and "height \<le> length (nexts (nodes sl ! n))" and "\<And>i. i < height \<Longrightarrow> prev ! i = pred_at ht lt i"
  shows "skip_inv cmp (fold (link_level n prev) [0..<height] sl) (lt @ n # ge) (ht(n := height))
    \<and> (\<forall>x. key_of (fold (link_level n prev) [0..<height] sl) x = key_of sl x)
    \<and> max_height (fold (link_level n prev) [0..<height] sl) = max_height sl
    \<and> (\<forall>x. length (nexts (nodes (fold (link_level n prev) [0..<height] sl) ! x)) = length (nexts (nodes sl ! x)))"
  using assms(2-4)
proof (induction height)
  case 0
  then show ?case using assms(1) by (simp del: fun_upd_apply)
next
  case (Suc i)
  have "n \<notin> set lt" using assms(1) by (auto simp: skip_inv_def)
  then have "pred_at (ht(n := i)) lt i = pred_at ht lt i" by (rule pred_at_height)
  then have "skip_inv cmp (link_level n prev i (fold (link_level n prev) [0..<i] sl)) (lt @ n # ge)
      ((ht(n := i))(n := Suc i))"
    using Suc by (intro skip_inv_link) (simp_all add: fun_upd_same del: fun_upd_apply)
  then show ?case using Suc by (simp del: fun_upd_apply)
qed


section \<open>Searching and inserting\<close>

lemma RandomHeight_loop_bounds:
  "h \<le> kMaxHeight \<Longrightarrow> h \<le> fst (RandomHeight_loop h seed) \<and> fst (RandomHeight_loop h seed) \<le> kMaxHeight"
proof (induction h seed rule: RandomHeight_loop.induct)
  case (1 h seed)
  show ?case
  proof (cases "h < kMaxHeight \<and> unat (Random_Next seed) mod 4 = 0")
    case True
    with 1(1) [OF _ refl] show ?thesis by (subst (1 2) RandomHeight_loop.simps) (simp add: Let_def)
  next
    case False
    with 1(2) show ?thesis by (subst (1 2) RandomHeight_loop.simps) (auto simp: Let_def)
  qed
qed

lemma RandomHeight_bounds:
  assumes "RandomHeight sl = (height, sl')"
  shows "1 \<le> height" "height \<le> kMaxHeight" "nodes sl' = nodes sl" "max_height sl' = max_height sl"
  using assms RandomHeight_loop_bounds [of 1 "rnd sl"]
  by (auto simp: RandomHeight_def kMaxHeight_def split: prod.splits)

context comparator
begin

lemma sorted_split:
  assumes "sorted_wrt (\<lambda>x y. cmp (g x) (g y) < 0) ids"
  shows "\<forall>x \<in> set (dropWhile (\<lambda>x. cmp (g x) key < 0) ids). \<not> cmp (g x) key < 0"
  using assms
proof (induction ids)
  case (Cons a ids)
  show ?case
  proof (cases "cmp (g a) key < 0")
    case True
    from Cons.prems have "sorted_wrt (\<lambda>x y. cmp (g x) (g y) < 0) ids" by (simp only: sorted_wrt.simps)
    from Cons.IH [OF this] True show ?thesis by (simp only: dropWhile.simps if_True)
  next
    case False
    have "\<not> cmp (g x) key < 0" if "x \<in> set ids" for x
      using that False Cons.prems cmp_less_trans [of "g a" "g x" key] by auto
    with False show ?thesis by simp
  qed
qed simp

text \<open>
  The three searches, at any moment of an insertion: the nodes split into those in front of the
  target and the others, and the search ends at the last linked node in front.
\<close>

lemma FindGreaterOrEqual_loop_step:
  "FindGreaterOrEqual_loop cmp sl key x l p =
    (let next = Next sl x l
     in if (case next of None \<Rightarrow> False | Some y \<Rightarrow> cmp (key_of sl y) key < 0)
        then FindGreaterOrEqual_loop cmp sl key (the next) l p
        else let p1 = p[l := x]
             in if l = 0 then Some (Next sl x 0, p1)
                else FindGreaterOrEqual_loop cmp sl key x (l - 1) p1)"
  unfolding FindGreaterOrEqual_loop.simps [of cmp sl key x l p] KeyIsAfterNode_def Let_def
  by (cases "l = 0") simp_all

lemma FindLessThan_loop_step:
  "FindLessThan_loop cmp sl key x l =
    (let next = Next sl x l
     in if (case next of None \<Rightarrow> False | Some y \<Rightarrow> cmp (key_of sl y) key < 0)
        then FindLessThan_loop cmp sl key (the next) l
        else let p1 = p
             in if l = 0 then Some x else FindLessThan_loop cmp sl key x (l - 1))"
  unfolding FindLessThan_loop.simps [of cmp sl key x l] Let_def
  by (cases "Next sl x l") (simp_all add: not_less)

lemma search_inv:
  fixes f :: "nat \<Rightarrow> nat \<Rightarrow> 'p \<Rightarrow> 'r"
  assumes f: "\<And>x l p. f x l p =
      (let next = Next sl x l
       in if (case next of None \<Rightarrow> False | Some y \<Rightarrow> cmp (key_of sl y) key < 0) then f (the next) l p
          else let p1 = upd l x p in if l = 0 then r x p1 else f x (l - 1) p1)"
    and inv: "skip_inv cmp sl ids ht"
    and lt: "lt = takeWhile (\<lambda>x. cmp (key_of sl x) key < 0) ids"
    and "l < kMaxHeight" and "x = 0 \<or> x \<in> set lt \<and> l < ht x"
  shows "f x l p =
    r (pred_at ht lt 0) (fold (\<lambda>j. upd j (pred_at ht lt j)) (rev [0..<Suc l]) p)"
proof (rule descend [OF f])
  let ?ge = "dropWhile (\<lambda>x. cmp (key_of sl x) key < 0) ids"
  show "linked sl l 0 (filter (\<lambda>x. l < ht x) (lt @ ?ge))" if "l < kMaxHeight" for l
    using skip_inv_chain [OF inv that] by (simp only: lt takeWhile_dropWhile_id)
  show "\<forall>x \<in> set lt. cmp (key_of sl x) key < 0" using lt by (auto dest: set_takeWhileD)
  show "\<forall>x \<in> set ?ge. \<not> cmp (key_of sl x) key < 0"
    using inv by (intro sorted_split) (simp add: skip_inv_def)
qed (fact assms)+

lemma FindGreaterOrEqual_loop_inv:
  assumes "skip_inv cmp sl ids ht" and "lt = takeWhile (\<lambda>x. cmp (key_of sl x) key < 0) ids"
    and "l < kMaxHeight" and "x = 0 \<or> x \<in> set lt \<and> l < ht x"
  shows "FindGreaterOrEqual_loop cmp sl key x l prev =
    Some (Next sl (pred_at ht lt 0) 0, fold (\<lambda>j p. p[j := pred_at ht lt j]) (rev [0..<Suc l]) prev)"
  by (rule search_inv [OF FindGreaterOrEqual_loop_step assms])

lemma FindLessThan_loop_inv:
  assumes "skip_inv cmp sl ids ht" and "lt = takeWhile (\<lambda>x. cmp (key_of sl x) key < 0) ids"
    and "l < kMaxHeight" and "x = 0 \<or> x \<in> set lt \<and> l < ht x"
  shows "FindLessThan_loop cmp sl key x l = Some (pred_at ht lt 0)"
  by (rule search_inv [where f = "\<lambda>x l p. FindLessThan_loop cmp sl key x l" and upd = "\<lambda>j x p. p"
        and r = "\<lambda>x p. Some x", OF FindLessThan_loop_step assms])

end

lemma FindLast_loop_step:
  "FindLast_loop sl x l =
    (let next = Next sl x l
     in if (case next of None \<Rightarrow> False | Some y \<Rightarrow> True) then FindLast_loop sl (the next) l
        else let p1 = p in if l = 0 then Some x else FindLast_loop sl x (l - 1))"
  unfolding FindLast_loop.simps [of sl x l] Let_def by (cases "Next sl x l") simp_all

lemma FindLast_loop_inv:
  assumes "skip_inv cmp sl ids ht" and "l < kMaxHeight" and "x = 0 \<or> x \<in> set ids \<and> l < ht x"
  shows "FindLast_loop sl x l = Some (pred_at ht ids 0)"
  by (rule descend [where f = "\<lambda>x l p. FindLast_loop sl x l" and upd = "\<lambda>j x p. p" and P = "\<lambda>_. True"
        and r = "\<lambda>x p. Some x" and ge = "[]", OF FindLast_loop_step])
    (use assms skip_inv_chain [OF assms(1)] in simp_all)

lemma first_of_None [simp]: "first_of xs = None \<longleftrightarrow> xs = []"
  by (simp add: first_of_def split: list.split)

lemma linked_next: "linked sl l x (as @ bs) \<Longrightarrow> Next sl (last (x # as)) l = first_of bs"
  by (drule linked_last) (cases bs; simp add: first_of_def)

context comparator
begin

lemma skip_rel_inv:
  assumes "skip_rel cmp sl ids ks"
  obtains ht where "skip_inv cmp sl ids ht" "\<forall>x \<in> set ids. 0 < ht x" "ks = map (key_of sl) ids"
  using assms by (auto simp: skip_rel_def)

text \<open>The first node at or after a target, as level 0 has it.\<close>

lemma Next_pred:
  assumes "skip_inv cmp sl ids ht"
  shows "Next sl (pred_at ht (takeWhile P ids) 0) 0 = first_of (filter (\<lambda>x. 0 < ht x) (dropWhile P ids))"
  unfolding pred_at_def
  using skip_inv_chain [OF assms, of 0]
  by (intro linked_next) (simp add: kMaxHeight_def flip: filter_append)

lemma FindGreaterOrEqual_inv:
  assumes "skip_inv cmp sl ids ht" and "lt = takeWhile (\<lambda>x. cmp (key_of sl x) key < 0) ids"
  shows "FindGreaterOrEqual cmp sl key prev =
    Some (first_of (filter (\<lambda>x. 0 < ht x) (dropWhile (\<lambda>x. cmp (key_of sl x) key < 0) ids)),
          fold (\<lambda>j p. p[j := pred_at ht lt j]) (rev [0..<max_height sl]) prev)"
proof -
  have "max_height sl - 1 < kMaxHeight" and h: "Suc (max_height sl - 1) = max_height sl"
    using assms(1) by (auto simp: skip_inv_def)
  with FindGreaterOrEqual_loop_inv [OF assms, of "max_height sl - 1" 0 prev] Next_pred [OF assms(1)]
  show ?thesis by (simp only: FindGreaterOrEqual_def h assms(2)) simp
qed

lemma it_Seek_rel:
  assumes "skip_rel cmp sl ids ks"
  shows "it_Seek cmp sl key = Some (first_of (dropWhile (\<lambda>x. cmp (key_of sl x) key < 0) ids))"
proof -
  from assms obtain ht where inv: "skip_inv cmp sl ids ht" and pos: "\<forall>x \<in> set ids. 0 < ht x"
    by (rule skip_rel_inv)
  from pos have "filter (\<lambda>x. 0 < ht x) (dropWhile P ids) = dropWhile P ids" for P
    by (auto simp: filter_id_conv dest: set_dropWhileD)
  then show ?thesis by (simp add: it_Seek_def FindGreaterOrEqual_inv [OF inv refl])
qed

lemma prev_at:
  assumes inv: "skip_inv cmp sl ids ht" and "lt = takeWhile P ids" and "i < height" and "height \<le> kMaxHeight"
    and "prev = fold (\<lambda>j p. p[j := pred_at ht lt j]) (rev [0..<max_height sl]) (replicate kMaxHeight d)"
    and "prev1 = (if max_height sl < height
      then fold (\<lambda>i prev. prev[i := 0]) [max_height sl..<height] prev else prev)"
  shows "prev1 ! i = pred_at ht lt i"
proof -
  have "pred_at ht lt i = 0" if "max_height sl \<le> i"
  proof -
    have "\<not> i < ht x" if "x \<in> set lt" for x
      using that inv assms(2) \<open>max_height sl \<le> i\<close> by (auto simp: skip_inv_def dest!: set_takeWhileD)
    then show ?thesis by (simp add: pred_at_def)
  qed
  then show ?thesis using assms(3-6) by (auto simp: fold_update_nth)
qed

lemma Insert_rel:
  assumes rel: "skip_rel cmp sl ids ks" and new: "\<forall>k \<in> set ks. cmp k key \<noteq> 0"
  shows "\<exists>sl' n. Insert cmp sl key = Some sl' \<and>
    skip_rel cmp sl' (takeWhile (\<lambda>x. cmp (key_of sl x) key < 0) ids @ n #
      dropWhile (\<lambda>x. cmp (key_of sl x) key < 0) ids) (insert_key cmp key ks)"
proof -
  let ?P = "\<lambda>x. cmp (key_of sl x) key < 0"
  let ?lt = "takeWhile ?P ids" and ?ge = "dropWhile ?P ids"
  from rel obtain ht where inv: "skip_inv cmp sl ids ht" and pos: "\<forall>x \<in> set ids. 0 < ht x"
    and ks: "ks = map (key_of sl) ids" by (rule skip_rel_inv)
  define prev where "prev = fold (\<lambda>j p. p[j := pred_at ht ?lt j]) (rev [0..<max_height sl])
    (replicate kMaxHeight (length (nodes sl)))"
  obtain height sl1 where rh: "RandomHeight sl = (height, sl1)" by fastforce
  note h = RandomHeight_bounds [OF rh]
  define prev1 where "prev1 = (if max_height sl < height
    then fold (\<lambda>i prev. prev[i := 0]) [max_height sl..<height] prev else prev)"
  define sl2 where "sl2 = (if max_height sl < height then sl1\<lparr>max_height := height\<rparr> else sl1)"
  obtain n sl3 where nn: "NewNode sl2 key height = (n, sl3)" by fastforce
  have key2: "key_of sl2 x = key_of sl x" for x using h by (simp add: key_of_def sl2_def)
  have "skip_inv cmp sl2 (?lt @ ?ge) ht"
    unfolding takeWhile_dropWhile_id using inv h
    by (intro skip_inv_transfer [OF inv]) (auto simp: sl2_def skip_inv_def)
  moreover have "\<forall>x \<in> set ?lt. cmp (key_of sl2 x) key < 0"
    by (auto simp: key2 dest: set_takeWhileD)
  moreover have "\<forall>x \<in> set ?ge. cmp key (key_of sl2 x) < 0"
  proof
    fix x assume x: "x \<in> set ?ge"
    have "sorted_wrt (\<lambda>x y. cmp (key_of sl x) (key_of sl y) < 0) ids"
      using inv unfolding skip_inv_def by blast
    from sorted_split [OF this] x have "\<not> cmp (key_of sl x) key < 0" by blast
    moreover have "cmp (key_of sl x) key \<noteq> 0" using x new ks by (auto dest: set_dropWhileD)
    ultimately show "cmp key (key_of sl2 x) < 0" using cmp_flip [of key "key_of sl x"] by (simp add: key2)
  qed
  ultimately have nn': "skip_inv cmp sl3 (?lt @ n # ?ge) (ht(n := 0))" "n \<notin> set (?lt @ ?ge)"
      "length (nexts (nodes sl3 ! n)) = height" "key_of sl3 n = key" "max_height sl3 = max_height sl2"
      "\<And>x. x \<in> set (?lt @ ?ge) \<Longrightarrow> key_of sl3 x = key_of sl2 x"
    by - (rule skip_inv_NewNode [OF _ nn], assumption+)+
  let ?sl = "fold (link_level n prev1) [0..<height] sl3"
  have link: "skip_inv cmp ?sl (?lt @ n # ?ge) (ht(n := height)) \<and> (\<forall>x. key_of ?sl x = key_of sl3 x)"
    using skip_inv_link_all [OF nn'(1), of height prev1] nn'(3,5) h
      prev_at [OF inv refl _ h(2) prev_def prev1_def] by (auto simp: sl2_def)
  moreover have "\<forall>x \<in> set (?lt @ n # ?ge). 0 < (ht(n := height)) x"
    using pos h(1) by (auto dest: set_takeWhileD set_dropWhileD)
  moreover have "insert_key cmp key ks = map (key_of ?sl) (?lt @ n # ?ge)"
  proof -
    have "key_of ?sl x = key_of sl x" if "x \<in> set ids" for x
      using that link nn'(6) [of x] key2 by simp
    then have "map (key_of ?sl) ?lt = map (key_of sl) ?lt" "map (key_of ?sl) ?ge = map (key_of sl) ?ge"
      by (auto dest: set_takeWhileD set_dropWhileD)
    then show ?thesis
      using link nn'(4) by (simp add: insert_key_def ks takeWhile_map dropWhile_map comp_def)
  qed
  moreover have "Insert cmp sl key = Some ?sl"
    unfolding Insert_def FindGreaterOrEqual_inv [OF inv refl] prev_def [symmetric]
    using rh nn h by (simp add: prev1_def sl2_def split: if_splits)
  ultimately show ?thesis unfolding skip_rel_def by blast
qed

text \<open>The iterator at position \<open>i\<close> stands on the node \<open>ids ! i\<close>.\<close>

lemma skip_rel_chain:
  assumes "skip_rel cmp sl ids ks"
  shows "linked sl 0 0 ids"
proof -
  from assms obtain ht where "skip_inv cmp sl ids ht" "\<forall>x \<in> set ids. 0 < ht x" by (rule skip_rel_inv)
  with skip_inv_chain [of cmp sl ids ht 0] show ?thesis by (simp add: kMaxHeight_def)
qed

lemma it_SeekToFirst_rel:
  assumes "skip_rel cmp sl ids ks"
  shows "it_SeekToFirst sl = first_of ids"
  using linked_next [of sl 0 0 "[]" ids] skip_rel_chain [OF assms] by (simp add: it_SeekToFirst_def)

lemma it_Next_rel:
  assumes "skip_rel cmp sl ids ks" and "i < length ids"
  shows "it_Next sl (ids ! i) = first_of (drop (Suc i) ids)"
proof -
  have "Next sl (last (0 # take (Suc i) ids)) 0 = first_of (drop (Suc i) ids)"
    using skip_rel_chain [OF assms(1)] by (intro linked_next) simp
  then show ?thesis using assms(2) by (simp add: it_Next_def take_Suc_conv_app_nth)
qed

lemma takeWhile_position:
  assumes "sorted_wrt (\<lambda>x y. cmp (g x) (g y) < 0) ids" and "i < length ids"
  shows "takeWhile (\<lambda>x. cmp (g x) (g (ids ! i)) < 0) ids = take i ids"
  by (rule takeWhile_eq_take_P_nth) (use assms in \<open>simp_all add: sorted_wrt_iff_nth_less\<close>)

lemma pred_at_0: "\<forall>x \<in> set lt. 0 < ht x \<Longrightarrow> pred_at ht lt 0 = (if lt = [] then 0 else last lt)"
  by (simp add: pred_at_def)

lemma it_Prev_rel:
  assumes rel: "skip_rel cmp sl ids ks" and i: "i < length ids"
  shows "it_Prev cmp sl (ids ! i) = Some (if i = 0 then None else Some (ids ! (i - 1)))"
proof -
  from rel obtain ht where inv: "skip_inv cmp sl ids ht" and pos: "\<forall>x \<in> set ids. 0 < ht x"
    by (rule skip_rel_inv)
  then have "sorted_wrt (\<lambda>x y. cmp (key_of sl x) (key_of sl y) < 0) ids"
    and h: "max_height sl - 1 < kMaxHeight" and zero: "\<forall>x \<in> set ids. 0 < x"
    by (auto simp: skip_inv_def)
  from takeWhile_position [OF this(1) i] FindLessThan_loop_inv [OF inv _ h, of _ "key_of sl (ids ! i)" 0]
  have "FindLessThan cmp sl (key_of sl (ids ! i)) = Some (pred_at ht (take i ids) 0)"
    by (simp add: FindLessThan_def)
  moreover have "pred_at ht (take i ids) 0 = (if i = 0 then 0 else ids ! (i - 1))"
    using i pos by (subst pred_at_0) (auto dest: in_set_takeD simp: last_conv_nth)
  moreover have "0 < ids ! (i - 1)" using zero i by simp
  ultimately show ?thesis by (simp add: it_Prev_def)
qed

lemma it_SeekToLast_rel:
  assumes rel: "skip_rel cmp sl ids ks"
  shows "it_SeekToLast sl = Some (if ids = [] then None else Some (last ids))"
proof -
  from rel obtain ht where inv: "skip_inv cmp sl ids ht" and pos: "\<forall>x \<in> set ids. 0 < ht x"
    by (rule skip_rel_inv)
  then have "max_height sl - 1 < kMaxHeight" and zero: "\<forall>x \<in> set ids. 0 < x"
    by (auto simp: skip_inv_def)
  from FindLast_loop_inv [OF inv this(1), of 0]
  have "FindLast sl = Some (if ids = [] then 0 else last ids)"
    using pos by (simp add: FindLast_def pred_at_0)
  moreover have "0 < last ids" if "ids \<noteq> []" using zero that by simp
  ultimately show ?thesis by (cases "ids = []") (simp_all add: it_SeekToLast_def)
qed

lemma skip_rel_sorted: "skip_rel cmp sl ids ks \<Longrightarrow> sorted_wrt (\<lambda>a b. cmp a b < 0) ks"
  by (auto simp: skip_rel_def skip_inv_def sorted_wrt_map)

lemma skip_rel_keys:
  assumes "skip_rel cmp sl ids ks"
  shows "ks = map (key_of sl) ids"
  using assms by (rule skip_rel_inv)

end

lemma SetNext_None:
  assumes "nodes sl = [\<lparr>node_key = k, nexts = replicate n None\<rparr>]"
  shows "SetNext sl 0 i None = sl"
proof -
  have "(replicate n (None :: nat option))[i := None] = replicate n None"
    by (cases "i < n") (simp_all add: list_update_beyond list_update_same_conv)
  with assms show ?thesis by (cases sl) (simp add: SetNext_def)
qed

lemma new_SkipList_eq:
  "new_SkipList k =
    \<lparr>nodes = [\<lparr>node_key = k, nexts = replicate kMaxHeight None\<rparr>], max_height = 1, rnd = mk_Random 3735928559\<rparr>"
proof -
  have "fold (\<lambda>i sl. SetNext sl 0 i None) is sl = sl"
    if "nodes sl = [\<lparr>node_key = k, nexts = replicate kMaxHeight None\<rparr>]" for "is" and sl :: "'a SkipList"
    using that by (induction "is") (simp_all add: SetNext_None)
  then show ?thesis by (simp add: new_SkipList_def NewNode_def)
qed

lemma skip_rel_new: "skip_rel cmp (new_SkipList k) [] []"
proof -
  have "skip_inv cmp (new_SkipList k) [] (\<lambda>_. 0)"
    by (simp add: skip_inv_def new_SkipList_eq Next_def kMaxHeight_def)
  then show ?thesis by (auto simp: skip_rel_def)
qed

section \<open>The interface\<close>

text \<open>
  What the memtable relies on: an index that holds a strictly sorted list of keys, into which a new
  key is inserted at its place, and in which a seek finds the first key at or after a target. Both
  operations always return.
\<close>

locale key_index = comparator cmp for cmp :: "'k \<Rightarrow> 'k \<Rightarrow> int" +
  fixes holds :: "'i \<Rightarrow> 'k list \<Rightarrow> bool"
    and ins :: "'i \<Rightarrow> 'k \<Rightarrow> 'i option"
    and seek :: "'i \<Rightarrow> 'k \<Rightarrow> 'k option option"
  assumes holds_sorted: "holds i ks \<Longrightarrow> sorted_wrt (\<lambda>a b. cmp a b < 0) ks"
    and ins_holds: "holds i ks \<Longrightarrow> \<forall>k \<in> set ks. cmp k key \<noteq> 0 \<Longrightarrow>
      \<exists>i'. ins i key = Some i' \<and> holds i' (insert_key cmp key ks)"
    and seek_holds: "holds i ks \<Longrightarrow> seek i key = Some (first_of (dropWhile (\<lambda>k. cmp k key < 0) ks))"
begin

lemma seek_None_iff:
  assumes "holds i ks"
  shows "seek i key = Some None \<longleftrightarrow> (\<forall>k \<in> set ks. cmp k key < 0)"
  by (simp add: seek_holds [OF assms] dropWhile_eq_Nil_conv)

lemma seek_least:
  assumes "holds i ks" and "seek i key = Some (Some k)"
  shows "k \<in> set ks" and "0 \<le> cmp k key"
    and "k' \<in> set ks \<Longrightarrow> 0 \<le> cmp k' key \<Longrightarrow> cmp k k' \<le> 0"
proof -
  from assms(2) obtain rest where d: "dropWhile (\<lambda>k. cmp k key < 0) ks = k # rest"
    by (auto simp: seek_holds [OF assms(1)] first_of_def split: list.splits)
  have ks: "ks = takeWhile (\<lambda>k. cmp k key < 0) ks @ k # rest"
    using takeWhile_dropWhile_id [of "\<lambda>k. cmp k key < 0" ks] by (simp only: d)
  then show "k \<in> set ks" by (metis in_set_conv_decomp)
  show "0 \<le> cmp k key" using hd_dropWhile [of "\<lambda>k. cmp k key < 0" ks] d by simp
  show "cmp k k' \<le> 0" if "k' \<in> set ks" "0 \<le> cmp k' key"
  proof -
    have "k' \<notin> set (takeWhile (\<lambda>k. cmp k key < 0) ks)" using that(2) by (auto dest: set_takeWhileD)
    moreover have "k' \<in> set (takeWhile (\<lambda>k. cmp k key < 0) ks @ k # rest)" using that(1) ks by simp
    ultimately have "k' = k \<or> k' \<in> set rest" by simp
    moreover have "sorted_wrt (\<lambda>a b. cmp a b < 0) (k # rest)"
      using holds_sorted [OF assms(1)] by (subst (asm) ks) (simp add: sorted_wrt_append)
    ultimately show ?thesis by auto
  qed
qed

end

lemma set_insert_key [simp]: "set (insert_key cmp k ks) = insert k (set ks)"
proof -
  have "set ks = set (takeWhile (\<lambda>x. cmp x k < 0) ks) \<union> set (dropWhile (\<lambda>x. cmp x k < 0) ks)"
    by (simp flip: set_append)
  then show ?thesis by (simp add: insert_key_def)
qed

lemma first_of_map: "first_of (map f xs) = map_option f (first_of xs)"
  by (simp add: first_of_def split: list.split)

sublocale comparator \<subseteq> index: key_index cmp "skip_holds cmp" "Insert cmp" "seek_key cmp"
proof
  fix sl and ks :: "'k list" and key
  assume "skip_holds cmp sl ks"
  then obtain ids where rel: "skip_rel cmp sl ids ks" by (auto simp: skip_holds_def)
  show "sorted_wrt (\<lambda>a b. cmp a b < 0) ks" using rel by (rule skip_rel_sorted)
  show "\<exists>sl'. Insert cmp sl key = Some sl' \<and> skip_holds cmp sl' (insert_key cmp key ks)"
    if "\<forall>k \<in> set ks. cmp k key \<noteq> 0"
    using Insert_rel [OF rel that] unfolding skip_holds_def by blast
  show "seek_key cmp sl key = Some (first_of (dropWhile (\<lambda>k. cmp k key < 0) ks))"
    by (simp add: seek_key_def it_Seek_rel [OF rel] skip_rel_keys [OF rel] dropWhile_map comp_def
        it_key_def [abs_def] first_of_map)
qed

context comparator
begin

lemma Contains_holds:
  assumes "skip_holds cmp sl ks"
  shows "Contains cmp sl key = Some (\<exists>k \<in> set ks. cmp key k = 0)"
proof -
  let ?r = "\<lambda>r. (case r of Some k \<Rightarrow> cmp key k = 0 | None \<Rightarrow> False)"
  have "Contains cmp sl key = map_option ?r (seek_key cmp sl key)"
    by (cases "FindGreaterOrEqual cmp sl key []")
      (auto simp: Contains_def seek_key_def it_Seek_def it_key_def split: option.split)
  moreover obtain r where r: "seek_key cmp sl key = Some r" using index.seek_holds [OF assms] by blast
  moreover have "?r r = (\<exists>k \<in> set ks. cmp key k = 0)"
  proof (cases r)
    case None
    then show ?thesis using r index.seek_None_iff [OF assms] cmp_eq_sym by fastforce
  next
    case (Some k)
    note least = index.seek_least [OF assms r [unfolded Some]]
    have "cmp key k = 0" if "k' \<in> set ks" "cmp key k' = 0" for k'
      using that least(2,3) cmp_eq_sym [of key k'] cmp_trans [of k k' key] cmp_eq_sym [of key k]
      by fastforce
    with least(1) Some show ?thesis by auto
  qed
  ultimately show ?thesis by simp
qed

lemma seek_key_spec:
  assumes "skip_holds cmp sl ks"
  shows "case seek_key cmp sl target of
      Some (Some r) \<Rightarrow> r \<in> set ks \<and> 0 \<le> cmp r target
        \<and> (\<forall>k \<in> set ks. 0 \<le> cmp k target \<longrightarrow> cmp r k \<le> 0)
    | Some None \<Rightarrow> (\<forall>k \<in> set ks. cmp k target < 0)
    | None \<Rightarrow> False"
  using index.seek_holds [OF assms, of target] index.seek_None_iff [OF assms, of target]
    index.seek_least [OF assms, of target]
  by (auto split: option.split)

lemma insert_all_holds:
  assumes "skip_holds cmp sl ks" and "sorted_wrt (\<lambda>a b. cmp a b \<noteq> 0) keys"
    and "\<forall>k \<in> set ks. \<forall>k' \<in> set keys. cmp k k' \<noteq> 0"
  shows "\<exists>sl' ks'. insert_all cmp sl keys = Some sl' \<and> skip_holds cmp sl' ks' \<and> set ks' = set ks \<union> set keys"
  using assms
proof (induction keys arbitrary: sl ks)
  case (Cons k keys)
  obtain sl1 where "Insert cmp sl k = Some sl1" "skip_holds cmp sl1 (insert_key cmp k ks)"
    using index.ins_holds [of sl ks k] Cons.prems by auto
  with Cons.IH [of sl1 "insert_key cmp k ks"] Cons.prems show ?case by auto
qed auto

end

section \<open>Properties\<close>

text \<open>
  C5. The skip list implements an ordered set of keys, for every comparator and whatever heights
  the generator draws. Inserting different keys into an empty list, in any order, always returns a
  list; seeking in it returns the least of the inserted keys at or after the target, or no key if
  there is none; and \<open>Contains\<close> answers membership.
\<close>

theorem skip_list_seek:
  assumes "comparator cmp" and "sorted_wrt (\<lambda>a b. cmp a b \<noteq> 0) keys"
  shows "\<exists>sl. insert_all cmp (new_SkipList k) keys = Some sl
    \<and> (\<forall>target. Contains cmp sl target = Some (\<exists>k \<in> set keys. cmp target k = 0)
         \<and> (case seek_key cmp sl target of
              Some (Some r) \<Rightarrow> r \<in> set keys \<and> 0 \<le> cmp r target
                \<and> (\<forall>k \<in> set keys. 0 \<le> cmp k target \<longrightarrow> cmp r k \<le> 0)
            | Some None \<Rightarrow> (\<forall>k \<in> set keys. cmp k target < 0)
            | None \<Rightarrow> False))"
proof -
  have "skip_holds cmp (new_SkipList k) []" unfolding skip_holds_def by (rule exI, rule skip_rel_new)
  from comparator.insert_all_holds [OF assms(1) this assms(2)] obtain sl ks where
    sl: "insert_all cmp (new_SkipList k) keys = Some sl" "skip_holds cmp sl ks" "set ks = set keys"
    by auto
  show ?thesis
    using sl(1) comparator.Contains_holds [OF assms(1) sl(2)]
      comparator.seek_key_spec [OF assms(1) sl(2)] unfolding sl(3) by blast
qed

theorem skip_list_seek_witness:
  "\<exists>sl. insert_all slice_compare (new_SkipList []) [[3], [1], [2]] = Some sl
    \<and> Contains slice_compare sl [2] = Some True"
proof -
  have "sorted_wrt (\<lambda>a b. slice_compare a b \<noteq> 0) [[3], [1], [2]]" by simp
  from skip_list_seek [OF bytewise.comparator_axioms this, of "[]"]
  obtain sl where "insert_all slice_compare (new_SkipList []) [[3], [1], [2]] = Some sl"
    and "Contains slice_compare sl [2] = Some (\<exists>k \<in> set [[3], [1], [2]]. slice_compare [2] k = 0)"
    by blast
  then show ?thesis by simp
qed

end
