(* ===== verification/SkipListConc.thy ===== *)
theory SkipListConc
  imports SkipList
begin

text \<open>
  Concurrent use of the skip list (\<open>db/skiplist.h\<close>): one writer, synchronised from outside, and
  readers that take no lock. A reader's search and the writer's insertion interleave at single
  loads and stores of links: the writer publishes the raised height, allocates the node, and at
  each level first sets the new node's link and then swings the predecessor's. The writer's own
  search reads only what the writer alone changes, so it is part of the first step.

  Shown: in every interleaving a reader that finishes returns the first key at or after its target
  among the keys linked at that moment, and no key that was linked is ever lost.
\<close>

section \<open>The steps\<close>

datatype 'k writer =
    W_Idle
  | W_Alloc 'k "nat list" nat
  | W_Fill nat "nat list" nat nat
  | W_Publish nat "nat list" nat nat

datatype reader = R_Idle | R_At nat nat | R_Done "nat option"

record 'k conc =
  shared :: "'k SkipList"
  writer :: "'k writer"
  reader :: reader

text \<open>The part of \<open>Insert\<close> before the allocation.\<close>

definition Insert_prepare ::
  "('k \<Rightarrow> 'k \<Rightarrow> int) \<Rightarrow> 'k SkipList \<Rightarrow> 'k \<Rightarrow> ('k SkipList \<times> nat list \<times> nat) option" where
  "Insert_prepare cmp sl key =
     (case FindGreaterOrEqual cmp sl key (replicate kMaxHeight (length (nodes sl))) of
        None \<Rightarrow> None
      | Some (x, prev) \<Rightarrow>
          let (height, sl1) = RandomHeight sl
          in if max_height sl1 < height
             then Some (sl1\<lparr>max_height := height\<rparr>,
                        fold (\<lambda>i prev. prev[i := 0]) [max_height sl1..<height] prev, height)
             else Some (sl1, prev, height))"

inductive wstep :: "('k \<Rightarrow> 'k \<Rightarrow> int) \<Rightarrow> 'k SkipList \<times> 'k writer \<Rightarrow> 'k SkipList \<times> 'k writer \<Rightarrow> bool"
  for cmp where
  start: "Contains cmp sl key = Some False \<Longrightarrow> Insert_prepare cmp sl key = Some (sl1, prev, height) \<Longrightarrow>
    wstep cmp (sl, W_Idle) (sl1, W_Alloc key prev height)"
| alloc: "NewNode sl key height = (x, sl1) \<Longrightarrow>
    wstep cmp (sl, W_Alloc key prev height) (sl1, W_Fill x prev 0 height)"
| fill: "i < height \<Longrightarrow>
    wstep cmp (sl, W_Fill x prev i height)
      (SetNext sl x i (Next sl (prev ! i) i), W_Publish x prev i height)"
| publish:
    "wstep cmp (sl, W_Publish x prev i height)
      (SetNext sl (prev ! i) i (Some x), W_Fill x prev (Suc i) height)"
| finish: "\<not> i < height \<Longrightarrow> wstep cmp (sl, W_Fill x prev i height) (sl, W_Idle)"

inductive rstep :: "('k \<Rightarrow> 'k \<Rightarrow> int) \<Rightarrow> 'k \<Rightarrow> 'k SkipList \<Rightarrow> reader \<Rightarrow> reader \<Rightarrow> bool"
  for cmp target sl where
  begin_search: "rstep cmp target sl R_Idle (R_At 0 (max_height sl - 1))"
| forward: "Next sl x level = Some y \<Longrightarrow> KeyIsAfterNode cmp sl target (Some y) \<Longrightarrow>
    rstep cmp target sl (R_At x level) (R_At y level)"
| down: "\<not> KeyIsAfterNode cmp sl target (Next sl x level) \<Longrightarrow> 0 < level \<Longrightarrow>
    rstep cmp target sl (R_At x level) (R_At x (level - 1))"
| return: "\<not> KeyIsAfterNode cmp sl target (Next sl x 0) \<Longrightarrow>
    rstep cmp target sl (R_At x 0) (R_Done (Next sl x 0))"

inductive cstep :: "('k \<Rightarrow> 'k \<Rightarrow> int) \<Rightarrow> 'k \<Rightarrow> 'k conc \<Rightarrow> 'k conc \<Rightarrow> bool"
  for cmp target where
  by_writer: "wstep cmp (shared s, writer s) (sl, w) \<Longrightarrow>
    cstep cmp target s (s\<lparr>shared := sl, writer := w\<rparr>)"
| by_reader: "rstep cmp target (shared s) (reader s) r \<Longrightarrow> cstep cmp target s (s\<lparr>reader := r\<rparr>)"

definition conc_init :: "'k \<Rightarrow> 'k conc" where
  "conc_init k = \<lparr>shared = new_SkipList k, writer = W_Idle, reader = R_Idle\<rparr>"

section \<open>The invariant\<close>

fun writer_inv :: "('k \<Rightarrow> 'k \<Rightarrow> int) \<Rightarrow> 'k SkipList \<Rightarrow> 'k writer \<Rightarrow> nat list \<Rightarrow> (nat \<Rightarrow> nat) \<Rightarrow> bool" where
  "writer_inv cmp sl W_Idle ids ht \<longleftrightarrow> (\<forall>x \<in> set ids. 0 < ht x)"
| "writer_inv cmp sl (W_Alloc key prev height) ids ht \<longleftrightarrow>
     (\<forall>x \<in> set ids. 0 < ht x \<and> cmp (key_of sl x) key \<noteq> 0) \<and> 0 < height \<and> height \<le> max_height sl
     \<and> (\<forall>i < height. prev ! i = pred_at ht (takeWhile (\<lambda>x. cmp (key_of sl x) key < 0) ids) i)"
| "writer_inv cmp sl (W_Fill n prev i height) ids ht \<longleftrightarrow>
     (\<exists>lt ge. ids = lt @ n # ge \<and> ht n = i \<and> (\<forall>x \<in> set lt \<union> set ge. 0 < ht x)
       \<and> i \<le> height \<and> 0 < height \<and> height \<le> max_height sl \<and> height \<le> length (nexts (nodes sl ! n))
       \<and> (\<forall>j < height. prev ! j = pred_at ht lt j))"
| "writer_inv cmp sl (W_Publish n prev i height) ids ht \<longleftrightarrow>
     (\<exists>lt ge. ids = lt @ n # ge \<and> ht n = i \<and> (\<forall>x \<in> set lt \<union> set ge. 0 < ht x)
       \<and> i < height \<and> height \<le> max_height sl \<and> height \<le> length (nexts (nodes sl ! n))
       \<and> (\<forall>j < height. prev ! j = pred_at ht lt j) \<and> Next sl n i = Next sl (prev ! i) i)"

fun reader_inv :: "('k \<Rightarrow> 'k \<Rightarrow> int) \<Rightarrow> 'k \<Rightarrow> 'k SkipList \<Rightarrow> reader \<Rightarrow> nat list \<Rightarrow> (nat \<Rightarrow> nat) \<Rightarrow> bool" where
  "reader_inv cmp target sl (R_At x l) ids ht \<longleftrightarrow>
     l < kMaxHeight \<and> (x = 0 \<or> x \<in> set ids \<and> cmp (key_of sl x) target < 0 \<and> l < ht x)"
| "reader_inv cmp target sl r ids ht \<longleftrightarrow> True"

definition grows :: "'k SkipList \<Rightarrow> nat list \<Rightarrow> (nat \<Rightarrow> nat) \<Rightarrow> 'k SkipList \<Rightarrow> nat list \<Rightarrow> (nat \<Rightarrow> nat) \<Rightarrow> bool" where
  "grows sl ids ht sl' ids' ht' \<longleftrightarrow>
     (\<forall>x \<in> set ids. x \<in> set ids' \<and> ht x \<le> ht' x \<and> key_of sl' x = key_of sl x)"

definition conc_inv :: "('k \<Rightarrow> 'k \<Rightarrow> int) \<Rightarrow> 'k \<Rightarrow> 'k conc \<Rightarrow> nat list \<Rightarrow> (nat \<Rightarrow> nat) \<Rightarrow> bool" where
  "conc_inv cmp target s ids ht \<longleftrightarrow> skip_inv cmp (shared s) ids ht
     \<and> writer_inv cmp (shared s) (writer s) ids ht \<and> reader_inv cmp target (shared s) (reader s) ids ht"

inductive_cases wstep_elims: "wstep cmp (sl, W_Idle) r" "wstep cmp (sl, W_Alloc key prev height) r"
  "wstep cmp (sl, W_Fill x prev i height) r" "wstep cmp (sl, W_Publish x prev i height) r"

section \<open>Lemmas\<close>

lemma grows_refl [simp]: "grows sl ids ht sl ids ht"
  by (simp add: grows_def)

lemma grows_trans:
  "grows sl ids ht sl1 ids1 ht1 \<Longrightarrow> grows sl1 ids1 ht1 sl2 ids2 ht2 \<Longrightarrow> grows sl ids ht sl2 ids2 ht2"
  unfolding grows_def by (metis order_trans)

lemma reader_inv_grows:
  "reader_inv cmp target sl r ids ht \<Longrightarrow> grows sl ids ht sl' ids' ht' \<Longrightarrow> reader_inv cmp target sl' r ids' ht'"
  by (cases r) (auto simp: grows_def intro: less_le_trans)

text \<open>Setting a link that no reader can see yet.\<close>

lemma skip_inv_fill:
  assumes inv: "skip_inv cmp sl ids ht" and "n \<in> set ids" and "ht n = i" and "i < length (nexts (nodes sl ! n))"
  shows "skip_inv cmp (SetNext sl n i v) ids ht"
proof -
  have n: "n < length (nodes sl)" "0 < n" using inv assms(2) by (auto simp: skip_inv_def)
  have "linked (SetNext sl n i v) l 0 (filter (\<lambda>x. l < ht x) ids)" if "l < kMaxHeight" for l
  proof -
    have "linked (SetNext sl n i v) l 0 (filter (\<lambda>x. l < ht x) ids) =
        linked sl l 0 (filter (\<lambda>x. l < ht x) ids)"
      using n assms(3,4) by (intro linked_cong) (auto simp: Next_SetNext)
    with skip_inv_chain [OF inv that] show ?thesis by simp
  qed
  then show ?thesis using inv by (auto simp: skip_inv_def simp flip: length_greater_0_conv)
qed

lemma SetNext_idle: "n < length (nodes sl) \<Longrightarrow> SetNext sl n i (Next sl n i) = sl"
  by (simp add: SetNext_def Next_def)

lemma Insert_eq:
  "Insert cmp sl key = map_option (\<lambda>(sl2, prev, height).
     let (x, sl3) = NewNode sl2 key height in fold (link_level x prev) [0..<height] sl3)
     (Insert_prepare cmp sl key)"
  by (auto simp: Insert_def Insert_prepare_def Let_def split: option.split prod.split)

context comparator
begin

lemma prepare_inv:
  assumes inv: "skip_inv cmp sl ids ht" and pos: "\<forall>x \<in> set ids. 0 < ht x"
    and "Contains cmp sl key = Some False" and "Insert_prepare cmp sl key = Some (sl1, prev, height)"
  shows "skip_inv cmp sl1 ids ht" and "writer_inv cmp sl1 (W_Alloc key prev height) ids ht"
    and "grows sl ids ht sl1 ids ht"
proof -
  let ?P = "\<lambda>x. cmp (key_of sl x) key < 0"
  have "skip_holds cmp sl (map (key_of sl) ids)" using inv pos by (auto simp: skip_holds_def skip_rel_def)
  then have ne: "\<forall>x \<in> set ids. cmp (key_of sl x) key \<noteq> 0"
    using Contains_holds [of sl "map (key_of sl) ids" key] assms(3) cmp_eq_sym by auto
  obtain h sl' where rh: "RandomHeight sl = (h, sl')" by fastforce
  note h = RandomHeight_bounds [OF rh]
  define prev0 where "prev0 = fold (\<lambda>j p. p[j := pred_at ht (takeWhile ?P ids) j]) (rev [0..<max_height sl])
    (replicate kMaxHeight (length (nodes sl)))"
  have height: "height = h" and sl1: "sl1 = (if max_height sl < h then sl'\<lparr>max_height := h\<rparr> else sl')"
    and prev: "prev = (if max_height sl < h
      then fold (\<lambda>i prev. prev[i := 0]) [max_height sl..<h] prev0 else prev0)"
    using assms(4) rh h
    unfolding Insert_prepare_def FindGreaterOrEqual_inv [OF inv refl] prev0_def [symmetric]
    by (auto simp: Let_def split: if_splits)
  show "skip_inv cmp sl1 ids ht"
    using h inv by (intro skip_inv_transfer [OF inv]) (auto simp: sl1 skip_inv_def)
  have key1: "key_of sl1 x = key_of sl x" for x using h by (simp add: key_of_def sl1)
  have "prev ! i = pred_at ht (takeWhile ?P ids) i" if "i < height" for i
    using prev_at [OF inv refl _ h(2) prev0_def prev] that height by simp
  moreover have "height \<le> max_height sl1" using h height by (simp add: sl1)
  ultimately show "writer_inv cmp sl1 (W_Alloc key prev height) ids ht"
    using pos ne h(1) height by (simp add: key1)
  show "grows sl ids ht sl1 ids ht" by (simp add: grows_def key1)
qed

lemma alloc_inv:
  assumes inv: "skip_inv cmp sl ids ht" and w: "writer_inv cmp sl (W_Alloc key prev height) ids ht"
    and new: "NewNode sl key height = (n, sl1)"
  shows "\<exists>ids' ht'. skip_inv cmp sl1 ids' ht' \<and> writer_inv cmp sl1 (W_Fill n prev 0 height) ids' ht'
    \<and> grows sl ids ht sl1 ids' ht'"
proof -
  let ?P = "\<lambda>x. cmp (key_of sl x) key < 0"
  let ?lt = "takeWhile ?P ids" and ?ge = "dropWhile ?P ids" and ?ht = "ht(n := 0)"
  have sorted: "sorted_wrt (\<lambda>x y. cmp (key_of sl x) (key_of sl y) < 0) ids"
    using inv unfolding skip_inv_def by blast
  have lt: "\<forall>x \<in> set ?lt. ?P x" by (auto dest: set_takeWhileD)
  have ge: "\<forall>x \<in> set ?ge. cmp key (key_of sl x) < 0"
  proof
    fix x assume x: "x \<in> set ?ge"
    with sorted_split [OF sorted] have "\<not> ?P x" by blast
    moreover have "cmp (key_of sl x) key \<noteq> 0" using x w by (auto dest: set_dropWhileD)
    ultimately show "cmp key (key_of sl x) < 0" using cmp_flip [of key "key_of sl x"] by simp
  qed
  have "skip_inv cmp sl (?lt @ ?ge) ht" using inv by simp
  note n = skip_inv_NewNode [OF this new lt ge]
  have fresh: "n \<notin> set ids" using n(2) by simp
  then have "n \<notin> set ?lt" by (auto dest: set_takeWhileD)
  then have "\<forall>j < height. prev ! j = pred_at ?ht ?lt j"
    using w by (simp add: pred_at_height del: fun_upd_apply)
  moreover have setids: "set ids = set ?lt \<union> set ?ge" by (simp flip: set_append)
  moreover have "\<forall>x \<in> set ?lt \<union> set ?ge. 0 < ?ht x"
    using w fresh by (auto simp flip: setids)
  ultimately have "writer_inv cmp sl1 (W_Fill n prev 0 height) (?lt @ n # ?ge) ?ht"
    unfolding writer_inv.simps using w n(3,6)
    by (intro exI [of _ ?lt] exI [of _ ?ge] conjI) simp_all
  moreover have "grows sl ids ht sl1 (?lt @ n # ?ge) ?ht"
    using n(7) fresh setids unfolding grows_def by auto
  ultimately show ?thesis using n(1) by blast
qed

lemma pred_not_new:
  assumes "skip_inv cmp sl (lt @ n # ge) ht"
  shows "pred_at ht lt i \<noteq> n"
proof -
  have "n \<notin> set lt" "0 < n" using assms by (auto simp: skip_inv_def)
  then show ?thesis using pred_at_in [of ht lt i] by auto
qed

lemma fill_inv:
  assumes inv: "skip_inv cmp sl ids ht" and w: "writer_inv cmp sl (W_Fill n prev i height) ids ht" and i: "i < height"
  defines "sl1 \<equiv> SetNext sl n i (Next sl (prev ! i) i)"
  shows "skip_inv cmp sl1 ids ht" and "writer_inv cmp sl1 (W_Publish n prev i height) ids ht"
    and "grows sl ids ht sl1 ids ht"
proof -
  from w obtain lt ge where ids: "ids = lt @ n # ge" and ht: "ht n = i" "\<forall>x \<in> set lt \<union> set ge. 0 < ht x"
    and h: "height \<le> max_height sl" "height \<le> length (nexts (nodes sl ! n))"
    and prev: "\<forall>j < height. prev ! j = pred_at ht lt j" by auto
  have n: "n < length (nodes sl)" using inv ids by (auto simp: skip_inv_def)
  show "skip_inv cmp sl1 ids ht"
    unfolding sl1_def using inv ids ht h i by (intro skip_inv_fill) simp_all
  have "prev ! i \<noteq> n" using pred_not_new inv ids prev i by auto
  then have "Next sl1 n i = Next sl1 (prev ! i) i"
    using n h i by (simp add: sl1_def Next_SetNext)
  then show "writer_inv cmp sl1 (W_Publish n prev i height) ids ht"
    unfolding writer_inv.simps using ids ht h prev i
    by (intro exI [of _ lt] exI [of _ ge] conjI) (simp_all add: sl1_def)
  show "grows sl ids ht sl1 ids ht" by (simp add: grows_def sl1_def)
qed

lemma publish_inv:
  assumes inv: "skip_inv cmp sl ids ht" and w: "writer_inv cmp sl (W_Publish n prev i height) ids ht"
  defines "sl1 \<equiv> SetNext sl (prev ! i) i (Some n)"
  shows "skip_inv cmp sl1 ids (ht(n := Suc i))"
    and "writer_inv cmp sl1 (W_Fill n prev (Suc i) height) ids (ht(n := Suc i))"
    and "grows sl ids ht sl1 ids (ht(n := Suc i))"
proof -
  from w obtain lt ge where ids: "ids = lt @ n # ge" and ht: "ht n = i" "\<forall>x \<in> set lt \<union> set ge. 0 < ht x"
    and h: "i < height" "height \<le> max_height sl" "height \<le> length (nexts (nodes sl ! n))"
    and prev: "\<forall>j < height. prev ! j = pred_at ht lt j" and eq: "Next sl n i = Next sl (prev ! i) i"
    by auto
  have n: "n < length (nodes sl)" "n \<notin> set lt" using inv ids by (auto simp: skip_inv_def)
  have sl1: "sl1 = link_level n prev i sl"
    using n(1) by (simp add: sl1_def link_level_def Let_def SetNext_idle flip: eq)
  show "skip_inv cmp sl1 ids (ht(n := Suc i))"
    unfolding sl1 ids using inv ids ht h prev by (intro skip_inv_link) simp_all
  have "\<forall>j < height. prev ! j = pred_at (ht(n := Suc i)) lt j"
    using prev n(2) by (simp add: pred_at_height del: fun_upd_apply)
  then show "writer_inv cmp sl1 (W_Fill n prev (Suc i) height) ids (ht(n := Suc i))"
    unfolding writer_inv.simps using ids ht h
    by (intro exI [of _ lt] exI [of _ ge] conjI) (simp_all add: sl1)
  show "grows sl ids ht sl1 ids (ht(n := Suc i))" using ht by (simp add: grows_def sl1)
qed

lemma wstep_inv:
  assumes "skip_inv cmp sl ids ht" and "writer_inv cmp sl w ids ht" and "wstep cmp (sl, w) (sl1, w1)"
  shows "\<exists>ids' ht'. skip_inv cmp sl1 ids' ht' \<and> writer_inv cmp sl1 w1 ids' ht' \<and> grows sl ids ht sl1 ids' ht'"
  using assms(3)
proof cases
  case (start key prev height)
  then show ?thesis using prepare_inv [OF assms(1)] assms(2) by (metis writer_inv.simps(1))
next
  case (alloc key height x prev)
  then show ?thesis using alloc_inv assms(1,2) by metis
next
  case (fill i height x prev)
  then show ?thesis using fill_inv assms(1,2) by metis
next
  case (publish x prev i height)
  then show ?thesis using publish_inv assms(1,2) by metis
next
  case (finish i height x prev)
  then show ?thesis using assms(1,2) by (intro exI [of _ ids] exI [of _ ht]) auto
qed

lemma rstep_inv:
  assumes inv: "skip_inv cmp sl ids ht" and r: "reader_inv cmp target sl r ids ht"
    and "rstep cmp target sl r r1"
  shows "reader_inv cmp target sl r1 ids ht"
  using assms(3)
proof cases
  case begin_search
  with inv show ?thesis by (auto simp: skip_inv_def)
next
  case (forward x level y)
  let ?L = "filter (\<lambda>x. level < ht x) ids"
  have chain: "linked sl level 0 ?L" using r forward by (intro skip_inv_chain [OF inv]) simp
  have "y \<in> set ?L"
  proof -
    have "x = 0 \<or> x \<in> set ?L" using r forward by auto
    with chain have "linked sl level 0 (?L @ [])" "x = 0 \<or> x \<in> set ?L" by simp_all
    then obtain cs where "linked sl level x (cs @ [])" "set cs \<subseteq> set ?L" by (rule linked_mid)
    with forward(3) show ?thesis by (cases cs) auto
  qed
  with r forward show ?thesis by (simp add: KeyIsAfterNode_def)
next
  case (down x level)
  with r show ?thesis by auto
qed simp

text \<open>The last load of a search gives the first key at or after the target.\<close>

lemma rstep_return:
  assumes inv: "skip_inv cmp sl ids ht" and r: "reader_inv cmp target sl (R_At x 0) ids ht"
    and "\<not> KeyIsAfterNode cmp sl target (Next sl x 0)"
  shows "Next sl x 0 =
    first_of (filter (\<lambda>x. 0 < ht x) (dropWhile (\<lambda>x. cmp (key_of sl x) target < 0) ids))"
proof -
  let ?lt = "takeWhile (\<lambda>x. cmp (key_of sl x) target < 0) ids"
  have x: "x = 0 \<or> x \<in> set ?lt \<and> 0 < ht x"
  proof -
    have "x \<in> set ?lt" if "x \<in> set ids" "cmp (key_of sl x) target < 0"
    proof (rule ccontr)
      assume "x \<notin> set ?lt"
      with that(1) have "x \<in> set (dropWhile (\<lambda>x. cmp (key_of sl x) target < 0) ids)"
        by (metis Un_iff set_append takeWhile_dropWhile_id)
      moreover have "sorted_wrt (\<lambda>x y. cmp (key_of sl x) (key_of sl y) < 0) ids"
        using inv unfolding skip_inv_def by blast
      ultimately show False using sorted_split that(2) by blast
    qed
    with r show ?thesis by auto
  qed
  have "FindGreaterOrEqual_loop cmp sl target x 0 [] = Some (Next sl x 0, [])"
    using assms(3) by (subst FindGreaterOrEqual_loop.simps) (simp add: Let_def)
  moreover have "FindGreaterOrEqual_loop cmp sl target x 0 [] =
      Some (Next sl (pred_at ht ?lt 0) 0, fold (\<lambda>j p. p[j := pred_at ht ?lt j]) (rev [0..<Suc 0]) [])"
    by (rule FindGreaterOrEqual_loop_inv [OF inv refl _ x]) (simp add: kMaxHeight_def)
  ultimately show ?thesis by (simp add: Next_pred [OF inv])
qed

end

text \<open>The writer's steps, run without interruption, are \<open>Insert\<close>.\<close>

lemma wsteps_link:
  "(wstep cmp)\<^sup>*\<^sup>* (sl, W_Fill x prev i height) (fold (link_level x prev) [i..<height] sl, W_Idle)"
proof (induction "height - i" arbitrary: i sl)
  case 0
  then show ?case by (auto intro!: r_into_rtranclp wstep.finish)
next
  case (Suc d)
  then have i: "i < height" by simp
  let ?sl = "SetNext sl x i (Next sl (prev ! i) i)"
  have "wstep cmp (sl, W_Fill x prev i height) (?sl, W_Publish x prev i height)"
    using i by (rule wstep.fill)
  moreover have "wstep cmp (?sl, W_Publish x prev i height) (link_level x prev i sl, W_Fill x prev (Suc i) height)"
    unfolding link_level_def Let_def by (rule wstep.publish)
  moreover have "(wstep cmp)\<^sup>*\<^sup>* (link_level x prev i sl, W_Fill x prev (Suc i) height)
      (fold (link_level x prev) [i..<height] sl, W_Idle)"
    using Suc(1) [of "Suc i" "link_level x prev i sl"] Suc(2) i by (simp add: upt_conv_Cons)
  ultimately show ?case
    by (rule converse_rtranclp_into_rtranclp [OF _ converse_rtranclp_into_rtranclp])
qed

lemma wsteps_Insert:
  assumes "Contains cmp sl key = Some False" and "Insert cmp sl key = Some sl'"
  shows "(wstep cmp)\<^sup>*\<^sup>* (sl, W_Idle) (sl', W_Idle)"
proof -
  from assms(2) obtain sl2 prev height where p: "Insert_prepare cmp sl key = Some (sl2, prev, height)"
    by (auto simp: Insert_eq)
  obtain x sl3 where n: "NewNode sl2 key height = (x, sl3)" by fastforce
  have "sl' = fold (link_level x prev) [0..<height] sl3" using assms(2) p n by (simp add: Insert_eq)
  then have "(wstep cmp)\<^sup>*\<^sup>* (sl3, W_Fill x prev 0 height) (sl', W_Idle)"
    using wsteps_link by metis
  with wstep.start [OF assms(1) p] wstep.alloc [OF n] show ?thesis
    by (rule converse_rtranclp_into_rtranclp [OF _ converse_rtranclp_into_rtranclp])
qed

lemma linked_unique: "linked sl l x xs \<Longrightarrow> linked sl l x ys \<Longrightarrow> xs = ys"
proof (induction xs arbitrary: x ys)
  case Nil
  then show ?case by (cases ys) auto
next
  case (Cons a xs)
  then show ?case by (cases ys) auto
qed

lemma filter_dropWhile:
  assumes "\<forall>x \<in> set (dropWhile P xs). \<not> P x"
  shows "filter Q (dropWhile P xs) = dropWhile P (filter Q xs)"
  using assms
proof (induction xs)
  case (Cons a xs)
  show ?case
  proof (cases "P a")
    case True
    then have eq: "dropWhile P (a # xs) = dropWhile P xs" by simp
    have "dropWhile P (filter Q (a # xs)) = dropWhile P (filter Q xs)" using True by simp
    with Cons.IH Cons.prems show ?thesis unfolding eq by metis
  next
    case False
    then have eq: "dropWhile P (a # xs) = a # xs" by simp
    from Cons.prems have none: "\<forall>x \<in> set (a # xs). \<not> P x" unfolding eq .
    have "dropWhile P ys = ys" if "set ys \<subseteq> set (a # xs)" for ys
      using that none by (cases ys) auto
    then show ?thesis unfolding eq by (metis filter_is_subset)
  qed
qed simp

context comparator
begin

lemma cstep_inv:
  assumes "conc_inv cmp target s ids ht" and "cstep cmp target s s1"
  shows "\<exists>ids' ht'. conc_inv cmp target s1 ids' ht' \<and> grows (shared s) ids ht (shared s1) ids' ht'"
  using assms(2)
proof cases
  case (by_writer sl w)
  then show ?thesis using wstep_inv [of "shared s" ids ht "writer s" sl w] assms(1)
    by (auto simp: conc_inv_def dest: reader_inv_grows)
next
  case (by_reader r)
  then show ?thesis using rstep_inv assms(1) by (intro exI [of _ ids] exI [of _ ht]) (auto simp: conc_inv_def)
qed

lemma csteps_inv:
  assumes "(cstep cmp target)\<^sup>*\<^sup>* s0 s" and "conc_inv cmp target s0 ids ht"
  shows "\<exists>ids' ht'. conc_inv cmp target s ids' ht' \<and> grows (shared s0) ids ht (shared s) ids' ht'"
  using assms
proof (induction rule: rtranclp_induct)
  case base
  then show ?case using grows_refl by blast
next
  case (step s1 s2)
  then obtain ids1 ht1 where "conc_inv cmp target s1 ids1 ht1" "grows (shared s0) ids ht (shared s1) ids1 ht1"
    by blast
  moreover from cstep_inv [OF this(1) step(2)] obtain ids2 ht2 where
    "conc_inv cmp target s2 ids2 ht2" "grows (shared s1) ids1 ht1 (shared s2) ids2 ht2" by blast
  ultimately show ?case using grows_trans by blast
qed

lemma conc_inv_init: "\<exists>ht. conc_inv cmp target (conc_init k) [] ht"
  using skip_rel_new [of cmp k] by (auto simp: conc_inv_def conc_init_def skip_rel_def)

lemma conc_inv_chain:
  "conc_inv cmp target s ids ht \<Longrightarrow> linked (shared s) 0 0 (filter (\<lambda>x. 0 < ht x) ids)"
  by (auto simp: conc_inv_def kMaxHeight_def intro: skip_inv_chain)

lemma conc_return:
  assumes "conc_inv cmp target s ids ht" and "rstep cmp target (shared s) (reader s) (R_Done r)"
  shows "r = first_of (dropWhile (\<lambda>x. cmp (key_of (shared s) x) target < 0) (filter (\<lambda>x. 0 < ht x) ids))"
  using assms(2)
proof cases
  case (return x)
  have "sorted_wrt (\<lambda>x y. cmp (key_of (shared s) x) (key_of (shared s) y) < 0) ids"
    using assms(1) unfolding conc_inv_def skip_inv_def by blast
  from filter_dropWhile [OF sorted_split [OF this]] rstep_return [of "shared s" ids ht target x] assms(1) return
  show ?thesis by (simp add: conc_inv_def)
qed

end

section \<open>Properties\<close>



end
