(* ===== verification/MemTable.thy ===== *)
theory MemTable
  imports WriteBatch SkipList
begin

text \<open>
  \<open>db/memtable.h\<close>, \<open>db/memtable.cc\<close> and the \<open>MemTableInserter\<close> of \<open>db/write_batch.cc\<close>: the in-memory table.
  Its skip list holds encoded entries, compared by the internal key at their front. An entry is
  the byte string the arena pointer refers to. The pointer-based reads are those of entries the
  memtable wrote itself; on a string no entry starts with (which the code excludes by comment) the
  model reads an empty slice.

  The contract is a list of entries in the order they were added: \<open>Get\<close> returns the newest entry of
  a user key that a snapshot can see.
\<close>

section \<open>Operations\<close>

record MemTable =
  refs :: int
  table :: "bytes SkipList"

text \<open>A length-prefixed slice at a pointer, and what follows it.\<close>

definition mt_split :: "bytes \<Rightarrow> bytes \<times> bytes" where
  "mt_split data =
     (case GetVarint32Ptr data of
        Some (len, p) \<Rightarrow> (take (unat len) p, drop (unat len) p)
      | None \<Rightarrow> ([], []))"

definition mt_slice :: "bytes \<Rightarrow> bytes" where
  "mt_slice data = fst (mt_split data)"

definition new_MemTable :: MemTable where
  "new_MemTable = \<lparr>refs = 0, table = new_SkipList []\<rparr>"

definition mt_Ref :: "MemTable \<Rightarrow> MemTable" where
  "mt_Ref m = m\<lparr>refs := refs m + 1\<rparr>"

text \<open>Dropping the last reference deletes the object.\<close>

definition mt_Unref :: "MemTable \<Rightarrow> MemTable option" where
  "mt_Unref m = (let m1 = m\<lparr>refs := refs m - 1\<rparr> in if refs m1 \<le> 0 then None else Some m1)"

definition KeyComparator :: "(bytes \<Rightarrow> bytes \<Rightarrow> int) \<Rightarrow> bytes \<Rightarrow> bytes \<Rightarrow> int" where
  "KeyComparator ucmp a b = InternalKey_Compare ucmp (mt_slice a) (mt_slice b)"

definition EncodeKey :: "bytes \<Rightarrow> bytes" where
  "EncodeKey target = PutVarint32 [] (of_nat (length target)) @ target"

definition mt_entry :: "u64 \<Rightarrow> ValueType \<Rightarrow> bytes \<Rightarrow> bytes \<Rightarrow> bytes" where
  "mt_entry s t key v =
     (let internal_key_size = length key + 8
      in EncodeVarint32 (of_nat internal_key_size) @ key
         @ EncodeFixed64 (push_bit 8 s OR ValueType_enc t)
         @ EncodeVarint32 (of_nat (length v)) @ v)"

definition mt_Add ::
  "(bytes \<Rightarrow> bytes \<Rightarrow> int) \<Rightarrow> MemTable \<Rightarrow> u64 \<Rightarrow> ValueType \<Rightarrow> bytes \<Rightarrow> bytes \<Rightarrow> MemTable option" where
  "mt_Add ucmp m s t key v =
     map_option (\<lambda>sl. m\<lparr>table := sl\<rparr>) (Insert (KeyComparator ucmp) (table m) (mt_entry s t key v))"

text \<open>\<open>Get\<close> sets \<open>*value\<close> and returns true, sets \<open>*s\<close> and returns true, or returns false.\<close>

datatype get_result = Get_value bytes | Get_status status | Get_false

definition mt_Get :: "(bytes \<Rightarrow> bytes \<Rightarrow> int) \<Rightarrow> MemTable \<Rightarrow> LookupKey \<Rightarrow> get_result option" where
  "mt_Get ucmp m key =
     map_option (\<lambda>entry. case entry of
         None \<Rightarrow> Get_false
       | Some e \<Rightarrow>
           let (ikey, rest) = mt_split e
           in if ucmp (take (length ikey - 8) ikey) (lookup_user_key key) = 0
              then let tag = (ucast (key_tag ikey AND 255) :: byte)
                   in if tag = 1 then Get_value (mt_slice rest)
                      else if tag = 0 then Get_status (NotFound [])
                      else Get_false
              else Get_false)
       (seek_key (KeyComparator ucmp) (table m) (memtable_key key))"

text \<open>The iterator: the skip list's, with the key and value read from the entry it stands on.\<close>

definition mti_Seek :: "(bytes \<Rightarrow> bytes \<Rightarrow> int) \<Rightarrow> MemTable \<Rightarrow> bytes \<Rightarrow> nat option option" where
  "mti_Seek ucmp m k = it_Seek (KeyComparator ucmp) (table m) (EncodeKey k)"

definition mti_SeekToFirst :: "MemTable \<Rightarrow> nat option" where
  "mti_SeekToFirst m = it_SeekToFirst (table m)"

definition mti_SeekToLast :: "MemTable \<Rightarrow> nat option option" where
  "mti_SeekToLast m = it_SeekToLast (table m)"

definition mti_Next :: "MemTable \<Rightarrow> nat \<Rightarrow> nat option" where
  "mti_Next m node = it_Next (table m) node"

definition mti_Prev :: "(bytes \<Rightarrow> bytes \<Rightarrow> int) \<Rightarrow> MemTable \<Rightarrow> nat \<Rightarrow> nat option option" where
  "mti_Prev ucmp m node = it_Prev (KeyComparator ucmp) (table m) node"

definition mti_key :: "MemTable \<Rightarrow> nat \<Rightarrow> bytes" where
  "mti_key m node = mt_slice (it_key (table m) node)"

definition mti_value :: "MemTable \<Rightarrow> nat \<Rightarrow> bytes" where
  "mti_value m node = mt_slice (snd (mt_split (it_key (table m) node)))"

text \<open>
  \<open>MemTableInserter\<close>: the handler a batch is replayed with. Its state is the next sequence number
  and the memtable; \<open>None\<close> stands for an insertion that does not return.
\<close>

definition inserter_Put ::
  "(bytes \<Rightarrow> bytes \<Rightarrow> int) \<Rightarrow> bytes \<Rightarrow> bytes \<Rightarrow> u64 \<times> MemTable option \<Rightarrow> u64 \<times> MemTable option" where
  "inserter_Put ucmp key v st =
     (fst st + 1, Option.bind (snd st) (\<lambda>m. mt_Add ucmp m (fst st) kTypeValue key v))"

definition inserter_Delete ::
  "(bytes \<Rightarrow> bytes \<Rightarrow> int) \<Rightarrow> bytes \<Rightarrow> u64 \<times> MemTable option \<Rightarrow> u64 \<times> MemTable option" where
  "inserter_Delete ucmp key st =
     (fst st + 1, Option.bind (snd st) (\<lambda>m. mt_Add ucmp m (fst st) kTypeDeletion key []))"

definition InsertInto ::
  "(bytes \<Rightarrow> bytes \<Rightarrow> int) \<Rightarrow> WriteBatch \<Rightarrow> MemTable \<Rightarrow> status \<times> MemTable option" where
  "InsertInto ucmp b m =
     (case Iterate (inserter_Put ucmp) (inserter_Delete ucmp) b (Sequence b, Some m) of
        (s, _, m') \<Rightarrow> (s, m'))"

section \<open>The contract: a list of entries\<close>

record mem_entry =
  e_seq :: u64
  e_type :: ValueType
  e_key :: bytes
  e_value :: bytes

definition entry_fits :: "mem_entry \<Rightarrow> bool" where
  "entry_fits e \<longleftrightarrow> e_seq e \<le> kMaxSequenceNumber \<and> length (e_key e) + 8 < 2 ^ 32 \<and> length (e_value e) < 2 ^ 32"

definition entry_ikey :: "mem_entry \<Rightarrow> bytes" where
  "entry_ikey e = InternalKey (e_key e) (e_seq e) (e_type e)"

definition entry_bytes :: "mem_entry \<Rightarrow> bytes" where
  "entry_bytes e = mt_entry (e_seq e) (e_type e) (e_key e) (e_value e)"

text \<open>The entry with the greatest sequence number.\<close>

fun newest :: "mem_entry list \<Rightarrow> mem_entry option" where
  "newest [] = None"
| "newest (e # es) =
     (case newest es of None \<Rightarrow> Some e | Some e' \<Rightarrow> if e_seq e' < e_seq e then Some e else Some e')"

definition visible :: "bytes \<Rightarrow> u64 \<Rightarrow> mem_entry \<Rightarrow> bool" where
  "visible u s e \<longleftrightarrow> e_key e = u \<and> e_seq e \<le> s"

definition mem_lookup :: "bytes \<Rightarrow> u64 \<Rightarrow> mem_entry list \<Rightarrow> get_result" where
  "mem_lookup u s es =
     (case newest (filter (visible u s) es) of
        None \<Rightarrow> Get_false
      | Some e \<Rightarrow> (case e_type e of kTypeValue \<Rightarrow> Get_value (e_value e)
                                  | kTypeDeletion \<Rightarrow> Get_status (NotFound [])))"

definition mem_holds :: "(bytes \<Rightarrow> bytes \<Rightarrow> int) \<Rightarrow> MemTable \<Rightarrow> mem_entry list \<Rightarrow> bool" where
  "mem_holds ucmp m es \<longleftrightarrow>
     (\<exists>ks. skip_holds (KeyComparator ucmp) (table m) ks \<and> set ks = entry_bytes ` set es)
     \<and> (\<forall>e \<in> set es. entry_fits e)
     \<and> (\<forall>e \<in> set es. \<forall>e' \<in> set es. e_key e = e_key e' \<and> e_seq e = e_seq e' \<longrightarrow> e = e')"

text \<open>
  The updates whose internal key and value fit the 32-bit lengths of an entry, and the entries a
  batch adds: numbered from its sequence number.
\<close>

fun insertable :: "update \<Rightarrow> bool" where
  "insertable (Put_update k v) \<longleftrightarrow> length k + 8 < 2 ^ 32 \<and> length v < 2 ^ 32"
| "insertable (Delete_update k) \<longleftrightarrow> length k + 8 < 2 ^ 32"

fun batch_entries :: "u64 \<Rightarrow> update list \<Rightarrow> mem_entry list" where
  "batch_entries s [] = []"
| "batch_entries s (Put_update k v # us) =
     \<lparr>e_seq = s, e_type = kTypeValue, e_key = k, e_value = v\<rparr> # batch_entries (s + 1) us"
| "batch_entries s (Delete_update k # us) =
     \<lparr>e_seq = s, e_type = kTypeDeletion, e_key = k, e_value = []\<rparr> # batch_entries (s + 1) us"

section \<open>Lemmas: entries\<close>

lemma entry_bytes_eq:
  "entry_bytes e = EncodeVarint32 (of_nat (length (e_key e) + 8)) @ entry_ikey e
    @ EncodeVarint32 (of_nat (length (e_value e))) @ e_value e"
  by (simp add: entry_bytes_def mt_entry_def entry_ikey_def InternalKey_eq PackSequenceAndType_def Let_def)

lemma mt_split_prefixed:
  assumes "length k < 2 ^ 32"
  shows "mt_split (EncodeVarint32 (of_nat (length k)) @ k @ rest) = (k, rest)"
proof -
  have "GetVarint32Ptr (EncodeVarint32 (of_nat (length k)) @ k @ rest) = Some (of_nat (length k), k @ rest)"
    by (rule GetVarint32_Encode)
  with assms show ?thesis by (simp add: mt_split_def unat_of_nat_length)
qed

lemma mt_split_entry:
  assumes "entry_fits e"
  shows "mt_split (entry_bytes e) = (entry_ikey e, EncodeVarint32 (of_nat (length (e_value e))) @ e_value e)"
  using mt_split_prefixed [of "entry_ikey e"] assms
  by (simp add: entry_bytes_eq entry_fits_def entry_ikey_def)

lemma mt_slice_value: "length v < 2 ^ 32 \<Longrightarrow> mt_slice (EncodeVarint32 (of_nat (length v)) @ v) = v"
  using mt_split_prefixed [of v "[]"] by (simp add: mt_slice_def)

lemma mt_slice_lookup:
  "length u + 8 < 2 ^ 32 \<Longrightarrow> mt_slice (memtable_key (mk_LookupKey u s)) = InternalKey u s kValueTypeForSeek"
  using mt_split_prefixed [of "InternalKey u s kValueTypeForSeek" "[]"]
  by (simp add: memtable_key_lookup mt_slice_def)

lemma entry_bytes_inj:
  assumes "entry_fits e" "entry_fits e'" "entry_bytes e = entry_bytes e'"
  shows "e_key e = e_key e'" "e_seq e = e_seq e'" "e_type e = e_type e'" "e_value e = e_value e'"
proof -
  have ik: "entry_ikey e = entry_ikey e'" and v: "EncodeVarint32 (of_nat (length (e_value e))) @ e_value e =
      EncodeVarint32 (of_nat (length (e_value e'))) @ e_value e'"
    using mt_split_entry assms by (metis prod.inject)+
  from ik Parse_InternalKey [of "e_seq e" "e_key e" "e_type e"] Parse_InternalKey [of "e_seq e'" "e_key e'" "e_type e'"]
  show "e_key e = e_key e'" "e_seq e = e_seq e'" "e_type e = e_type e'"
    using assms(1,2) by (simp_all add: entry_ikey_def entry_fits_def)
  show "e_value e = e_value e'"
    using v mt_slice_value assms(1,2) by (metis entry_fits_def)
qed

lemma take_InternalKey [simp]: "take (length u) (InternalKey u s t) = u"
  by (simp add: InternalKey_eq)

lemma clip_insertable: "insertable x \<Longrightarrow> clip_update x = x"
  by (cases x) (simp_all add: clip_def)

lemma newest_in: "newest es = Some e \<Longrightarrow> e \<in> set es"
  by (induction es arbitrary: e) (auto split: option.splits if_splits)

lemma newest_eq:
  assumes "e \<in> set es" and "\<And>e'. e' \<in> set es \<Longrightarrow> e' = e \<or> e_seq e' < e_seq e"
  shows "newest es = Some e"
  using assms
proof (induction es)
  case (Cons a es)
  show ?case
  proof (cases "e \<in> set es")
    case True
    then have "newest es = Some e" using Cons.IH Cons.prems(2) by (meson list.set_intros(2))
    moreover have "a = e \<or> e_seq a < e_seq e" using Cons.prems(2) by simp
    ultimately show ?thesis by auto
  next
    case False
    with Cons.prems(1) have a: "a = e" by simp
    have "e_seq e' < e_seq e" if "newest es = Some e'" for e'
      using newest_in [OF that] False Cons.prems(2) [of e'] by auto
    then show ?thesis by (auto simp: a split: option.split)
  qed
qed simp

lemma newest_None [simp]: "newest es = None \<longleftrightarrow> es = []"
  by (cases es) (auto split: option.split)

section \<open>Lemmas: the operations against the contract\<close>

sublocale user_comparator \<subseteq> mem: comparator "KeyComparator ucmp"
proof
  fix a b c
  show "KeyComparator ucmp a a = 0" by (simp add: KeyComparator_def)
  show "KeyComparator ucmp a b < 0 \<longleftrightarrow> 0 < KeyComparator ucmp b a"
    unfolding KeyComparator_def by (rule ikey.cmp_flip)
  show "KeyComparator ucmp a b \<le> 0 \<Longrightarrow> KeyComparator ucmp b c \<le> 0 \<Longrightarrow> KeyComparator ucmp a c \<le> 0"
    unfolding KeyComparator_def by (rule ikey.cmp_trans)
qed

context user_comparator
begin

lemma KeyComparator_entry:
  assumes "entry_fits e"
  shows "KeyComparator ucmp (entry_bytes e) b = InternalKey_Compare ucmp (entry_ikey e) (mt_slice b)"
  using mt_split_entry [OF assms] by (simp add: KeyComparator_def mt_slice_def)

lemma KeyComparator_entries_eq:
  assumes "entry_fits e" "entry_fits e'" "KeyComparator ucmp (entry_bytes e) (entry_bytes e') = 0"
  shows "e_key e = e_key e' \<and> e_seq e = e_seq e'"
proof -
  have "InternalKey_Compare ucmp (entry_ikey e) (entry_ikey e') = 0"
    using assms mt_split_entry by (simp add: KeyComparator_entry mt_slice_def)
  then have "entry_ikey e = entry_ikey e'"
    by (rule ikey_cmp_eq) (simp_all add: entry_ikey_def)
  then show ?thesis
    using Parse_InternalKey [of "e_seq e" "e_key e" "e_type e"] Parse_InternalKey [of "e_seq e'" "e_key e'" "e_type e'"]
      assms(1,2) by (simp add: entry_ikey_def entry_fits_def)
qed

lemma mem_holds_new: "mem_holds ucmp new_MemTable []"
  unfolding mem_holds_def new_MemTable_def skip_holds_def
  using skip_rel_new [of "KeyComparator ucmp" "[]"] by auto

lemma mem_holds_Add:
  assumes m: "mem_holds ucmp m es" and e: "entry_fits e"
    and new: "\<forall>e' \<in> set es. \<not> (e_key e' = e_key e \<and> e_seq e' = e_seq e)"
  shows "\<exists>m'. mt_Add ucmp m (e_seq e) (e_type e) (e_key e) (e_value e) = Some m' \<and> mem_holds ucmp m' (es @ [e])"
proof -
  from m obtain ks where ks: "skip_holds (KeyComparator ucmp) (table m) ks" "set ks = entry_bytes ` set es"
    and fit: "\<forall>e \<in> set es. entry_fits e" by (auto simp: mem_holds_def)
  have "\<forall>k \<in> set ks. KeyComparator ucmp k (entry_bytes e) \<noteq> 0"
  proof
    fix k assume "k \<in> set ks"
    then obtain e' where "e' \<in> set es" "k = entry_bytes e'" using ks(2) by blast
    then show "KeyComparator ucmp k (entry_bytes e) \<noteq> 0"
      using fit new e KeyComparator_entries_eq [of e' e] by blast
  qed
  then obtain sl where "Insert (KeyComparator ucmp) (table m) (entry_bytes e) = Some sl"
    "skip_holds (KeyComparator ucmp) sl (insert_key (KeyComparator ucmp) (entry_bytes e) ks)"
    using mem.index.ins_holds [OF ks(1)] by blast
  moreover have "set (insert_key (KeyComparator ucmp) (entry_bytes e) ks) = entry_bytes ` set (es @ [e])"
    by (simp add: ks(2))
  moreover have "\<forall>e1 \<in> set (es @ [e]). \<forall>e2 \<in> set (es @ [e]).
      e_key e1 = e_key e2 \<and> e_seq e1 = e_seq e2 \<longrightarrow> e1 = e2"
    using m new unfolding mem_holds_def by (metis in_set_conv_decomp_first rotate1.simps(2) set_ConsD set_rotate1)
  moreover have "\<forall>e' \<in> set (es @ [e]). entry_fits e'" using fit e by simp
  ultimately show ?thesis
    by (intro exI [of _ "m\<lparr>table := sl\<rparr>"]) (auto simp: mt_Add_def mem_holds_def entry_bytes_def [symmetric])
qed

text \<open>Where an entry stands relative to a lookup key: at or after it when it is visible.\<close>

lemma lookup_position:
  assumes "entry_fits e" and "s \<le> kMaxSequenceNumber" and "length u + 8 < 2 ^ 32"
  shows "0 \<le> KeyComparator ucmp (entry_bytes e) (memtable_key (mk_LookupKey u s)) \<longleftrightarrow>
    0 < ucmp (e_key e) u \<or> visible u s e"
proof -
  have "PackSequenceAndType s kTypeValue < PackSequenceAndType (e_seq e) (e_type e) \<longleftrightarrow> s < e_seq e"
    using assms(1,2) by (cases "e_type e") (simp_all add: Pack_less_iff entry_fits_def)
  then have "InternalKey_Compare ucmp (entry_ikey e) (InternalKey u s kValueTypeForSeek) < 0 \<longleftrightarrow>
      ucmp (e_key e) u < 0 \<or> e_key e = u \<and> s < e_seq e"
    by (simp add: ikey_cmp_cases(1) entry_ikey_def kValueTypeForSeek_def)
  moreover have "KeyComparator ucmp (entry_bytes e) (memtable_key (mk_LookupKey u s)) =
      InternalKey_Compare ucmp (entry_ikey e) (InternalKey u s kValueTypeForSeek)"
    using assms by (simp add: KeyComparator_entry mt_slice_lookup)
  moreover have "ucmp (e_key e) u = 0 \<longleftrightarrow> e_key e = u" by simp
  ultimately show ?thesis unfolding visible_def by (metis linorder_not_less order_le_less)
qed

lemma entry_order:
  assumes "entry_fits e" "entry_fits e'" "e_key e = e_key e'"
    and "KeyComparator ucmp (entry_bytes e) (entry_bytes e') \<le> 0"
  shows "e_seq e' \<le> e_seq e"
proof -
  have "InternalKey_Compare ucmp (entry_ikey e) (entry_ikey e') \<le> 0"
    using assms mt_split_entry by (simp add: KeyComparator_entry mt_slice_def)
  then have "PackSequenceAndType (e_seq e') (e_type e') \<le> PackSequenceAndType (e_seq e) (e_type e)"
    using assms(3) by (simp add: ikey_cmp_le entry_ikey_def)
  then show ?thesis
    using Pack_less_iff [of "e_seq e" "e_seq e'" "e_type e" "e_type e'"] assms(1,2)
    by (auto simp: entry_fits_def simp flip: linorder_not_less)
qed

text \<open>
  Where a seek for a lookup key lands: on no entry, if none is at or after it; on the newest visible
  entry; or on an entry of a later user key.
\<close>

lemma seek_lookup:
  assumes m: "mem_holds ucmp m es" and s: "s \<le> kMaxSequenceNumber" and u: "length u + 8 < 2 ^ 32"
  obtains (none) "seek_key (KeyComparator ucmp) (table m) (memtable_key (mk_LookupKey u s)) = Some None"
      "filter (visible u s) es = []"
  | (some) e where
      "seek_key (KeyComparator ucmp) (table m) (memtable_key (mk_LookupKey u s)) = Some (Some (entry_bytes e))"
      "e \<in> set es" "entry_fits e"
      "newest (filter (visible u s) es) = Some e \<and> e_key e = u \<or> filter (visible u s) es = [] \<and> e_key e \<noteq> u"
proof -
  let ?T = "memtable_key (mk_LookupKey u s)"
  from m obtain ks where ks: "skip_holds (KeyComparator ucmp) (table m) ks" "set ks = entry_bytes ` set es"
    and fit: "\<And>e. e \<in> set es \<Longrightarrow> entry_fits e"
    and uniq: "\<And>e e'. e \<in> set es \<Longrightarrow> e' \<in> set es \<Longrightarrow> e_key e = e_key e' \<Longrightarrow> e_seq e = e_seq e' \<Longrightarrow> e = e'"
    unfolding mem_holds_def by blast
  note spec = mem.seek_key_spec [OF ks(1), of ?T]
  note pos = lookup_position [OF fit s u]
  from spec consider "seek_key (KeyComparator ucmp) (table m) ?T = Some None" "\<forall>k \<in> set ks. KeyComparator ucmp k ?T < 0"
    | k where "seek_key (KeyComparator ucmp) (table m) ?T = Some (Some k)" "k \<in> set ks" "0 \<le> KeyComparator ucmp k ?T"
      "\<forall>k' \<in> set ks. 0 \<le> KeyComparator ucmp k' ?T \<longrightarrow> KeyComparator ucmp k k' \<le> 0"
    by (auto split: option.splits)
  then show thesis
  proof cases
    case 1
    then have "\<not> visible u s e" if "e \<in> set es" for e using that pos ks(2) by fastforce
    with 1(1) show thesis by (intro none) (simp_all add: filter_empty_conv)
  next
    case (2 k)
    from 2(2) ks(2) obtain e where e: "e \<in> set es" "k = entry_bytes e" by blast
    have vis: "KeyComparator ucmp (entry_bytes e) (entry_bytes e') \<le> 0" if "e' \<in> set es" "visible u s e'" for e'
      using that pos ks(2) 2(4) e(2) by blast
    show thesis
    proof (cases "visible u s e")
      case True
      have "newest (filter (visible u s) es) = Some e"
      proof (rule newest_eq)
        fix e' assume "e' \<in> set (filter (visible u s) es)"
        then have e': "e' \<in> set es" "visible u s e'" by auto
        have "e_seq e' \<le> e_seq e"
          using entry_order [OF fit [OF e(1)] fit [OF e'(1)]] vis [OF e'] True e' by (simp add: visible_def)
        moreover have "e' = e" if "e_seq e' = e_seq e"
          using uniq [OF e'(1) e(1)] that True e' by (simp add: visible_def)
        ultimately show "e' = e \<or> e_seq e' < e_seq e" by (auto simp: order_le_less)
      qed (use e True in simp)
      with 2(1) e fit True show thesis by (intro some [of e]) (auto simp: visible_def)
    next
      case False
      with pos [OF e(1)] 2(3) e(2) have gt: "0 < ucmp (e_key e) u" by auto
      have "\<not> visible u s e'" if "e' \<in> set es" for e'
      proof
        assume v: "visible u s e'"
        have "InternalKey_Compare ucmp (entry_ikey e) (entry_ikey e') \<le> 0"
          using vis [OF that v] mt_split_entry [OF fit [OF that]] fit [OF e(1)]
          by (simp add: KeyComparator_entry mt_slice_def)
        with gt v cmp_refl [of u] show False by (auto simp: ikey_cmp_le entry_ikey_def visible_def)
      qed
      with 2(1) e fit gt show thesis by (intro some [of e]) (auto simp: filter_empty_conv)
    qed
  qed
qed

lemma mem_holds_Get:
  assumes "mem_holds ucmp m es" and "s \<le> kMaxSequenceNumber" and "length u + 8 < 2 ^ 32"
  shows "mt_Get ucmp m (mk_LookupKey u s) = Some (mem_lookup u s es)"
  using assms
proof (cases rule: seek_lookup)
  case none
  then show ?thesis by (simp add: mt_Get_def mem_lookup_def)
next
  case (some e)
  note split = mt_split_entry [OF some(3)]
  from some show ?thesis
    by (cases "e_type e") (auto simp: mt_Get_def split mem_lookup_def entry_ikey_def Pack_type
        mt_slice_value entry_fits_def Let_def)
qed

text \<open>Replaying a batch adds its updates under consecutive sequence numbers.\<close>

lemma inserter_fold:
  assumes "mem_holds ucmp m es" and "\<forall>e \<in> set es. unat (e_seq e) < unat s"
    and "unat s + length us \<le> 2 ^ 56" and "\<forall>x \<in> set us. insertable x"
  shows "\<exists>m'. fold (apply_update (inserter_Put ucmp) (inserter_Delete ucmp)) us (s, Some m) =
      (s + of_nat (length us), Some m') \<and> mem_holds ucmp m' (es @ batch_entries s us)"
  using assms
proof (induction us arbitrary: m es s)
  case (Cons x us)
  define e where "e = hd (batch_entries s (x # us))"
  have entries: "batch_entries s (x # us) = e # batch_entries (s + 1) us" and seq: "e_seq e = s"
    by (cases x; simp add: e_def)+
  have s1: "unat (s + 1) = unat s + 1" using Cons.prems(3) by (simp add: unat_word_ariths)
  have "entry_fits e"
    using Cons.prems(3,4) by (cases x) (auto simp: e_def entry_fits_def kMax_unat)
  moreover have "\<forall>e' \<in> set es. \<not> (e_key e' = e_key e \<and> e_seq e' = e_seq e)"
    using Cons.prems(2) seq by auto
  ultimately obtain m1 where m1: "mt_Add ucmp m (e_seq e) (e_type e) (e_key e) (e_value e) = Some m1"
    and h1: "mem_holds ucmp m1 (es @ [e])"
    using mem_holds_Add [OF Cons.prems(1)] by blast
  have "apply_update (inserter_Put ucmp) (inserter_Delete ucmp) x (s, Some m) = (s + 1, Some m1)"
    using m1 by (cases x) (simp_all add: e_def inserter_Put_def inserter_Delete_def)
  moreover have "\<exists>m'. fold (apply_update (inserter_Put ucmp) (inserter_Delete ucmp)) us (s + 1, Some m1) =
      (s + 1 + of_nat (length us), Some m') \<and> mem_holds ucmp m' ((es @ [e]) @ batch_entries (s + 1) us)"
  proof (rule Cons.IH [OF h1])
    show "\<forall>e' \<in> set (es @ [e]). unat (e_seq e') < unat (s + 1)"
      using Cons.prems(2) seq s1 by auto
  qed (use Cons.prems s1 in auto)
  ultimately show ?case by (simp add: entries algebra_simps)
qed simp

lemma mem_holds_InsertInto:
  assumes "mem_holds ucmp m es" and "batch_rep b s us" and "\<forall>e \<in> set es. unat (e_seq e) < unat s"
    and "unat s + length us \<le> 2 ^ 56" and "\<forall>x \<in> set us. insertable x"
  shows "\<exists>m'. InsertInto ucmp b m = (OK, Some m') \<and> mem_holds ucmp m' (es @ batch_entries s us)"
  using inserter_fold [OF assms(1,3-5)] batch_repD(2) [OF assms(2)]
  by (auto simp: InsertInto_def Iterate_replays [OF assms(2)])

end

section \<open>Properties\<close>

text \<open>
  C1. Reads of the memtable see the newest write a snapshot allows. For every user comparator that
  keeps its contract: inserting a batch into a memtable that holds earlier entries succeeds and adds
  the batch's updates, in order, under consecutive sequence numbers; looking up a key at a snapshot
  then returns the value of the newest entry at or below the snapshot, not-found if that is a
  deletion, and nothing if there is no such entry.
\<close>

theorem memtable_batch_get:
  assumes "user_comparator ucmp" and "mem_holds ucmp m es"
    and "b = SetSequence (fold record_update us new_WriteBatch) s"
    and "\<forall>e \<in> set es. unat (e_seq e) < unat s" and "unat s + length us \<le> 2 ^ 56"
    and "\<forall>x \<in> set us. insertable x"
    and "snapshot \<le> kMaxSequenceNumber" and "length u + 8 < 2 ^ 32"
  shows "\<exists>m'. InsertInto ucmp b m = (OK, Some m') \<and> mem_holds ucmp m' (es @ batch_entries s us)
    \<and> mt_Get ucmp m' (mk_LookupKey u snapshot) = Some (mem_lookup u snapshot (es @ batch_entries s us))"
proof -
  have "map clip_update us = us" using assms(6) by (intro map_idI clip_insertable) blast
  then have "batch_rep b s us"
    using batch_rep_SetSequence [OF batch_rep_record [OF batch_rep_new, of us]] by (simp add: assms(3))
  from user_comparator.mem_holds_InsertInto [OF assms(1,2) this assms(4-6)]
  obtain m' where "InsertInto ucmp b m = (OK, Some m')" "mem_holds ucmp m' (es @ batch_entries s us)" by blast
  with user_comparator.mem_holds_Get [OF assms(1) this(2) assms(7,8)] show ?thesis by blast
qed

theorem memtable_batch_get_witness:
  "\<exists>m'. InsertInto slice_compare (SetSequence (fold record_update
      [Put_update [7] [41], Delete_update [7], Put_update [7] [42]] new_WriteBatch) 3) new_MemTable = (OK, Some m')
    \<and> mt_Get slice_compare m' (mk_LookupKey [7] 9) = Some (Get_value [42])"
proof -
  let ?us = "[Put_update [7] [41], Delete_update [7], Put_update [7] [42]]"
  have "\<exists>m'. InsertInto slice_compare (SetSequence (fold record_update ?us new_WriteBatch) 3) new_MemTable = (OK, Some m')
    \<and> mem_holds slice_compare m' ([] @ batch_entries 3 ?us)
    \<and> mt_Get slice_compare m' (mk_LookupKey [7] 9) = Some (mem_lookup [7] 9 ([] @ batch_entries 3 ?us))"
    by (rule memtable_batch_get [OF bytewise.user_comparator_axioms bytewise.mem_holds_new refl])
      (simp_all add: kMaxSequenceNumber_def)
  moreover have "mem_lookup [7] 9 ([] @ batch_entries 3 ?us) = Get_value [42]"
    by (simp add: mem_lookup_def visible_def)
  ultimately show ?thesis by auto
qed

end
