(* ===== verification/Crc32c.thy ===== *)
theory Crc32c
  imports Crc32cTables Coding
begin

text \<open>
  \<open>util/crc32c.h\<close> and \<open>util/crc32c.cc\<close>: CRC-32C, computed sixteen bytes at a time in four interleaved
  strides, and the masking of stored checksums. The address of the data only decides how many bytes
  are processed one by one before the strides start; it is an argument \<open>addr\<close>. The hardware routine
  \<open>port::AcceleratedCRC32C\<close> is the argument \<open>accel\<close>.

  The reference is the plain byte-by-byte definition \<open>crc_ref\<close>; the strided computation is shown to
  equal it, by linearity over exclusive or.
\<close>

section \<open>Operations\<close>

definition kCRC32Xor :: u32 where "kCRC32Xor = 0xffffffff"
definition kMaskDelta :: u32 where "kMaskDelta = 0xa282ead8"

definition STEP1 :: "u32 \<Rightarrow> byte \<Rightarrow> u32" where
  "STEP1 l b = (let c = (l AND 0xff) XOR ucast b in kByteExtensionTable ! unat c XOR drop_bit 8 l)"

text \<open>One stride: \<open>w\<close> is the word \<open>ReadUint32LE\<close> loaded for it.\<close>

definition STEP4 :: "u32 \<Rightarrow> u32 \<Rightarrow> u32" where
  "STEP4 w crc =
     w XOR kStrideExtensionTable3 ! unat (crc AND 0xff)
       XOR kStrideExtensionTable2 ! unat (drop_bit 8 crc AND 0xff)
       XOR kStrideExtensionTable1 ! unat (drop_bit 16 crc AND 0xff)
       XOR kStrideExtensionTable0 ! unat (drop_bit 24 crc)"

definition ReadUint32LE :: "bytes \<Rightarrow> nat \<Rightarrow> u32" where
  "ReadUint32LE p i = DecodeFixed32 (drop i p)"

type_synonym strides = "u32 \<times> u32 \<times> u32 \<times> u32"

definition STEP16 :: "bytes \<Rightarrow> strides \<Rightarrow> strides" where
  "STEP16 p s =
     (case s of (crc0, crc1, crc2, crc3) \<Rightarrow>
        (STEP4 (ReadUint32LE p 0) crc0, STEP4 (ReadUint32LE p 4) crc1,
         STEP4 (ReadUint32LE p 8) crc2, STEP4 (ReadUint32LE p 12) crc3))"

definition STEP4W :: "u32 \<Rightarrow> u32 \<Rightarrow> u32" where
  "STEP4W w l = ((\<lambda>w. drop_bit 8 w XOR kByteExtensionTable ! unat (w AND 0xff)) ^^ 4) (w XOR l)"

definition RoundUp4 :: "nat \<Rightarrow> nat" where
  "RoundUp4 pointer = (pointer + 3) div 4 * 4"

fun swath_loop :: "bytes \<Rightarrow> strides \<Rightarrow> bytes \<times> strides" where
  "swath_loop p s = (if 16 \<le> length p then swath_loop (drop 16 p) (STEP16 p s) else (p, s))"

fun word_loop :: "bytes \<Rightarrow> strides \<Rightarrow> bytes \<times> strides" where
  "word_loop p s =
     (if 4 \<le> length p
      then (case s of (crc0, crc1, crc2, crc3) \<Rightarrow>
              word_loop (drop 4 p) (crc1, crc2, crc3, STEP4 (ReadUint32LE p 0) crc0))
      else (p, s))"

declare swath_loop.simps [simp del] word_loop.simps [simp del]

definition Extend_portable :: "nat \<Rightarrow> u32 \<Rightarrow> bytes \<Rightarrow> u32" where
  "Extend_portable addr crc data =
     (let l = crc XOR kCRC32Xor;
          x = RoundUp4 addr;
          (l, p) = (if x \<le> addr + length data
                    then (foldl STEP1 l (take (x - addr) data), drop (x - addr) data)
                    else (l, data));
          (l, p) = (if 16 \<le> length p
                    then let s = (ReadUint32LE p 0 XOR l, ReadUint32LE p 4, ReadUint32LE p 8, ReadUint32LE p 12);
                             (p, s) = swath_loop (drop 16 p) s;
                             (p, s) = word_loop p s
                         in (case s of (crc0, crc1, crc2, crc3) \<Rightarrow>
                               (STEP4W crc3 (STEP4W crc2 (STEP4W crc1 (STEP4W crc0 0))), p))
                    else (l, p))
      in foldl STEP1 l p XOR kCRC32Xor)"

definition CanAccelerateCRC32C :: "(u32 \<Rightarrow> bytes \<Rightarrow> u32) \<Rightarrow> bool" where
  "CanAccelerateCRC32C accel = (accel 0 (lit ''TestCRCBuffer'') = 0xdcbc59fa)"

definition Extend :: "(u32 \<Rightarrow> bytes \<Rightarrow> u32) \<Rightarrow> nat \<Rightarrow> u32 \<Rightarrow> bytes \<Rightarrow> u32" where
  "Extend accel addr crc data =
     (if CanAccelerateCRC32C accel then accel crc data else Extend_portable addr crc data)"

text \<open>The build without the hardware library: \<open>AcceleratedCRC32C\<close> returns 0.\<close>

definition crc_Extend :: "u32 \<Rightarrow> bytes \<Rightarrow> u32" where
  "crc_Extend crc data = Extend (\<lambda>_ _. 0) 0 crc data"

definition crc_Value :: "bytes \<Rightarrow> u32" where
  "crc_Value data = crc_Extend 0 data"

definition Mask :: "u32 \<Rightarrow> u32" where
  "Mask crc = (drop_bit 15 crc OR push_bit 17 crc) + kMaskDelta"

definition Unmask :: "u32 \<Rightarrow> u32" where
  "Unmask masked_crc =
     (let rot = masked_crc - kMaskDelta in drop_bit 17 rot OR push_bit 15 rot)"

section \<open>The reference\<close>

definition crc_ref :: "u32 \<Rightarrow> bytes \<Rightarrow> u32" where
  "crc_ref crc data = foldl STEP1 (crc XOR kCRC32Xor) data XOR kCRC32Xor"

text \<open>One step over a zero byte, and a function that respects exclusive or.\<close>

definition zstep :: "u32 \<Rightarrow> u32" where
  "zstep l = kByteExtensionTable ! unat (l AND 0xff) XOR drop_bit 8 l"

definition linear :: "(u32 \<Rightarrow> u32) \<Rightarrow> bool" where
  "linear f \<longleftrightarrow> (\<forall>x y. f (x XOR y) = f x XOR f y)"

abbreviation Z :: "nat \<Rightarrow> u32 \<Rightarrow> u32" where
  "Z n \<equiv> zstep ^^ n"

text \<open>The four partial results of the strides, folded into one.\<close>

definition combine :: "strides \<Rightarrow> u32" where
  "combine s = (case s of (c0, c1, c2, c3) \<Rightarrow> STEP4W c3 (STEP4W c2 (STEP4W c1 (STEP4W c0 0))))"

section \<open>Linearity\<close>

lemma linearD: "linear f \<Longrightarrow> f (x XOR y) = f x XOR f y"
  by (simp add: linear_def)

lemma linear_0: "linear f \<Longrightarrow> f 0 = 0"
  using linearD [of f 0 0] by simp

lemma linear_xor: "linear f \<Longrightarrow> linear g \<Longrightarrow> linear (\<lambda>x. f x XOR g x)"
  by (simp add: linear_def ac_simps)

lemma linear_comp: "linear f \<Longrightarrow> linear g \<Longrightarrow> linear (\<lambda>x. f (g x))"
  by (simp add: linear_def)

lemma linear_funpow: "linear f \<Longrightarrow> linear (f ^^ n)"
  by (induction n) (simp_all add: linear_def)

lemma linear_drop_bit: "linear (drop_bit n)"
  by (simp add: linear_def drop_bit_xor)

lemma linear_mask: "linear (\<lambda>x. x AND m)"
  unfolding linear_def by (auto intro!: bit_word_eqI simp: bit_simps)

lemma linear_table:
  assumes "length bs = 8" and "linear g" and lt: "\<And>x. unat (g x) < 256"
  shows "linear (\<lambda>x. lin_table bs ! unat (g x))"
  unfolding linear_def
proof (intro allI)
  fix x y
  have "lin_table bs ! unat (g z) = lin_entry bs (unat (g z))" for z
    using assms by (intro lin_table_nth) simp
  then show "lin_table bs ! unat (g (x XOR y)) = lin_table bs ! unat (g x) XOR lin_table bs ! unat (g y)"
    by (simp only:) (simp only: linearD [OF assms(2)] unsigned_xor_eq lin_entry_xor)
qed

text \<open>Two linear functions that agree on every power of two are equal.\<close>

lemma linear_ext:
  assumes f: "linear f" and g: "linear g" and eq: "\<And>k. k < 32 \<Longrightarrow> f (push_bit k 1) = g (push_bit k 1)"
  shows "f x = g x"
proof -
  have "f (take_bit n x) = g (take_bit n x)" if "n \<le> 32" for n
    using that
  proof (induction n)
    case 0
    then show ?case by (simp add: linear_0 f g)
  next
    case (Suc n)
    have "take_bit (Suc n) x = take_bit n x XOR (if bit x n then push_bit n 1 else 0)"
      by (rule bit_word_eqI) (auto simp: bit_simps less_Suc_eq)
    then show ?case using Suc eq [of n] by (simp add: linearD [OF f] linearD [OF g] linear_0 f g)
  qed
  from this [of 32] show ?thesis by (simp add: take_bit_word_eq_self)
qed

lemma byte_mask: "unat ((x :: u32) AND 0xff) < 256"
proof -
  have "x AND 0xff = take_bit 8 x" by (simp add: take_bit_eq_mask mask_eq_exp_minus_1)
  then show ?thesis by (simp add: unat_take_bit)
qed

lemma byte_top: "unat (drop_bit 24 (x :: u32)) < 256"
  using unat_less [of x] by (simp add: unat_drop_bit less_mult_imp_div_less del: drop_bit_numeral_bit0)

lemma zstep_linear: "linear zstep"
  unfolding zstep_def [abs_def] kByteExtensionTable_lin
  by (intro linear_xor linear_table linear_mask linear_drop_bit byte_mask) simp

lemma STEP4_linear: "linear (STEP4 0)"
  unfolding STEP4_def [abs_def] kStrideExtensionTable0_lin kStrideExtensionTable1_lin
    kStrideExtensionTable2_lin kStrideExtensionTable3_lin xor.left_neutral
  by (intro linear_xor linear_table linear_comp [OF linear_mask] linear_mask linear_drop_bit byte_mask byte_top) simp_all


section \<open>A stride is sixteen zero bytes\<close>

text \<open>A step through the table's basis, which is cheaper to compute with than the table.\<close>

lemma zstep_lin:
  "zstep l = lin_entry
    [0x82f63b78, 0x417b1dbc, 0x20bd8ede, 0x105ec76f, 0x8ad958cf, 0xc79a971f, 0xe13b70f7, 0xf26b8303]
    (unat (l AND 0xff)) XOR drop_bit 8 l"
  unfolding zstep_def kByteExtensionTable_lin by (subst lin_table_nth) (use byte_mask in simp_all)

lemma stride_entries:
  "kStrideExtensionTable0 ! 0 = 0x00000000" "kStrideExtensionTable0 ! Suc 0 = 0x30d23865" "kStrideExtensionTable0 ! 2 = 0x61a470ca"
  "kStrideExtensionTable0 ! 4 = 0xc348e194" "kStrideExtensionTable0 ! 8 = 0x837db5d9" "kStrideExtensionTable0 ! 16 = 0x03171d43"
  "kStrideExtensionTable0 ! 32 = 0x062e3a86" "kStrideExtensionTable0 ! 64 = 0x0c5c750c" "kStrideExtensionTable0 ! 128 = 0x18b8ea18"
  "kStrideExtensionTable1 ! 0 = 0x00000000" "kStrideExtensionTable1 ! Suc 0 = 0x54075546" "kStrideExtensionTable1 ! 2 = 0xa80eaa8c"
  "kStrideExtensionTable1 ! 4 = 0x55f123e9" "kStrideExtensionTable1 ! 8 = 0xabe247d2" "kStrideExtensionTable1 ! 16 = 0x5228f955"
  "kStrideExtensionTable1 ! 32 = 0xa451f2aa" "kStrideExtensionTable1 ! 64 = 0x4d4f93a5" "kStrideExtensionTable1 ! 128 = 0x9a9f274a"
  "kStrideExtensionTable2 ! 0 = 0x00000000" "kStrideExtensionTable2 ! Suc 0 = 0x678efd01" "kStrideExtensionTable2 ! 2 = 0xcf1dfa02"
  "kStrideExtensionTable2 ! 4 = 0x9bd782f5" "kStrideExtensionTable2 ! 8 = 0x3243731b" "kStrideExtensionTable2 ! 16 = 0x6486e636"
  "kStrideExtensionTable2 ! 32 = 0xc90dcc6c" "kStrideExtensionTable2 ! 64 = 0x97f7ee29" "kStrideExtensionTable2 ! 128 = 0x2a03aaa3"
  "kStrideExtensionTable3 ! 0 = 0x00000000" "kStrideExtensionTable3 ! Suc 0 = 0xf20c0dfe" "kStrideExtensionTable3 ! 2 = 0xe1f46d0d"
  "kStrideExtensionTable3 ! 4 = 0xc604aceb" "kStrideExtensionTable3 ! 8 = 0x89e52f27" "kStrideExtensionTable3 ! 16 = 0x162628bf"
  "kStrideExtensionTable3 ! 32 = 0x2c4c517e" "kStrideExtensionTable3 ! 64 = 0x5898a2fc" "kStrideExtensionTable3 ! 128 = 0xb13145f8"
  by (simp_all add: kStrideExtensionTable0_def kStrideExtensionTable1_def kStrideExtensionTable2_def
      kStrideExtensionTable3_def)

text \<open>The powers of two, advanced byte by byte.\<close>

lemma zstep_powers0:
  "zstep 0x1 = 0xf26b8303" "zstep 0xf26b8303 = 0x13a29877"
  "zstep 0x13a29877 = 0xa541927e" "zstep 0xa541927e = 0xdd45aab8"
  "zstep 0xdd45aab8 = 0x38116fac" "zstep 0x38116fac = 0xef306b19"
  "zstep 0xef306b19 = 0x68032cc8" "zstep 0x68032cc8 = 0x493c7d27"
  "zstep 0x493c7d27 = 0xf43ed648" "zstep 0xf43ed648 = 0xcb567ba5"
  "zstep 0xcb567ba5 = 0x9771f7c1" "zstep 0x9771f7c1 = 0x3171d430"
  "zstep 0x3171d430 = 0x30d23865" "zstep 0x30d23865 = 0x54075546"
  "zstep 0x54075546 = 0x678efd01" "zstep 0x678efd01 = 0xf20c0dfe"
  by (simp_all add: zstep_lin bit_0)

lemma zstep_powers1:
  "zstep 0x2 = 0xe13b70f7" "zstep 0xe13b70f7 = 0x274530ee"
  "zstep 0x274530ee = 0x4f6f520d" "zstep 0x4f6f520d = 0xbf672381"
  "zstep 0xbf672381 = 0x7022df58" "zstep 0x7022df58 = 0xdb8ca0c3"
  "zstep 0xdb8ca0c3 = 0xd0065990" "zstep 0xd0065990 = 0x9278fa4e"
  "zstep 0x9278fa4e = 0xed91da61" "zstep 0xed91da61 = 0x934081bb"
  "zstep 0x934081bb = 0x2b0f9973" "zstep 0x2b0f9973 = 0x62e3a860"
  "zstep 0x62e3a860 = 0x61a470ca" "zstep 0x61a470ca = 0xa80eaa8c"
  "zstep 0xa80eaa8c = 0xcf1dfa02" "zstep 0xcf1dfa02 = 0xe1f46d0d"
  by (simp_all add: zstep_lin bit_0)

lemma zstep_powers2:
  "zstep 0x4 = 0xc79a971f" "zstep 0xc79a971f = 0x4e8a61dc"
  "zstep 0x4e8a61dc = 0x9edea41a" "zstep 0x9edea41a = 0x7b2231f3"
  "zstep 0x7b2231f3 = 0xe045beb0" "zstep 0xe045beb0 = 0xb2f53777"
  "zstep 0xb2f53777 = 0xa5e0c5d1" "zstep 0xa5e0c5d1 = 0x211d826d"
  "zstep 0x211d826d = 0xdecfc233" "zstep 0xdecfc233 = 0x236d7587"
  "zstep 0x236d7587 = 0x561f32e6" "zstep 0x561f32e6 = 0xc5c750c0"
  "zstep 0xc5c750c0 = 0xc348e194" "zstep 0xc348e194 = 0x55f123e9"
  "zstep 0x55f123e9 = 0x9bd782f5" "zstep 0x9bd782f5 = 0xc604aceb"
  by (simp_all add: zstep_lin bit_0)

lemma zstep_powers3:
  "zstep 0x8 = 0x8ad958cf" "zstep 0x8ad958cf = 0x9d14c3b8"
  "zstep 0x9d14c3b8 = 0x38513ec5" "zstep 0x38513ec5 = 0xf64463e6"
  "zstep 0xf64463e6 = 0xc5670b91" "zstep 0xc5670b91 = 0x6006181f"
  "zstep 0x6006181f = 0x4e2dfd53" "zstep 0x4e2dfd53 = 0x423b04da"
  "zstep 0x423b04da = 0xb873f297" "zstep 0xb873f297 = 0x46daeb0e"
  "zstep 0x46daeb0e = 0xac3e65cc" "zstep 0xac3e65cc = 0x8e62d771"
  "zstep 0x8e62d771 = 0x837db5d9" "zstep 0x837db5d9 = 0xabe247d2"
  "zstep 0xabe247d2 = 0x3243731b" "zstep 0x3243731b = 0x89e52f27"
  by (simp_all add: zstep_lin bit_0)

lemma zstep_powers4:
  "zstep 0x10 = 0x105ec76f" "zstep 0x105ec76f = 0x3fc5f181"
  "zstep 0x3fc5f181 = 0x70a27d8a" "zstep 0x70a27d8a = 0xe964b13d"
  "zstep 0xe964b13d = 0x8f2261d3" "zstep 0x8f2261d3 = 0xc00c303e"
  "zstep 0xc00c303e = 0x9c5bfaa6" "zstep 0x9c5bfaa6 = 0x847609b4"
  "zstep 0x847609b4 = 0x750b93df" "zstep 0x750b93df = 0x8db5d61c"
  "zstep 0x8db5d61c = 0x5d90bd69" "zstep 0x5d90bd69 = 0x1929d813"
  "zstep 0x1929d813 = 0x3171d43" "zstep 0x3171d43 = 0x5228f955"
  "zstep 0x5228f955 = 0x6486e636" "zstep 0x6486e636 = 0x162628bf"
  by (simp_all add: zstep_lin bit_0)

lemma zstep_powers5:
  "zstep 0x20 = 0x20bd8ede" "zstep 0x20bd8ede = 0x7f8be302"
  "zstep 0x7f8be302 = 0xe144fb14" "zstep 0xe144fb14 = 0xd725148b"
  "zstep 0xd725148b = 0x1ba8b557" "zstep 0x1ba8b557 = 0x85f4168d"
  "zstep 0x85f4168d = 0x3d5b83bd" "zstep 0x3d5b83bd = 0xd006599"
  "zstep 0xd006599 = 0xea1727be" "zstep 0xea1727be = 0x1e87dac9"
  "zstep 0x1e87dac9 = 0xbb217ad2" "zstep 0xbb217ad2 = 0x3253b026"
  "zstep 0x3253b026 = 0x62e3a86" "zstep 0x62e3a86 = 0xa451f2aa"
  "zstep 0xa451f2aa = 0xc90dcc6c" "zstep 0xc90dcc6c = 0x2c4c517e"
  by (simp_all add: zstep_lin bit_0)

lemma zstep_powers6:
  "zstep 0x40 = 0x417b1dbc" "zstep 0x417b1dbc = 0xff17c604"
  "zstep 0xff17c604 = 0xc76580d9" "zstep 0xc76580d9 = 0xaba65fe7"
  "zstep 0xaba65fe7 = 0x37516aae" "zstep 0x37516aae = 0xe045beb"
  "zstep 0xe045beb = 0x7ab7077a" "zstep 0x7ab7077a = 0x1a00cb32"
  "zstep 0x1a00cb32 = 0xd1c2398d" "zstep 0xd1c2398d = 0x3d0fb592"
  "zstep 0x3d0fb592 = 0x73ae8355" "zstep 0x73ae8355 = 0x64a7604c"
  "zstep 0x64a7604c = 0xc5c750c" "zstep 0xc5c750c = 0x4d4f93a5"
  "zstep 0x4d4f93a5 = 0x97f7ee29" "zstep 0x97f7ee29 = 0x5898a2fc"
  by (simp_all add: zstep_lin bit_0)

lemma zstep_powers7:
  "zstep 0x80 = 0x82f63b78" "zstep 0x82f63b78 = 0xfbc3faf9"
  "zstep 0xfbc3faf9 = 0x8b277743" "zstep 0x8b277743 = 0x52a0c93f"
  "zstep 0x52a0c93f = 0x6ea2d55c" "zstep 0x6ea2d55c = 0x1c08b7d6"
  "zstep 0x1c08b7d6 = 0xf56e0ef4" "zstep 0xf56e0ef4 = 0x34019664"
  "zstep 0x34019664 = 0xa66805eb" "zstep 0xa66805eb = 0x7a1f6b24"
  "zstep 0x7a1f6b24 = 0xe75d06aa" "zstep 0xe75d06aa = 0xc94ec098"
  "zstep 0xc94ec098 = 0x18b8ea18" "zstep 0x18b8ea18 = 0x9a9f274a"
  "zstep 0x9a9f274a = 0x2a03aaa3" "zstep 0x2a03aaa3 = 0xb13145f8"
  by (simp_all add: zstep_lin bit_0)

lemma zstep_high:
  "zstep 0x100 = 0x1" "zstep 0x200 = 0x2" "zstep 0x400 = 0x4"
  "zstep 0x800 = 0x8" "zstep 0x1000 = 0x10" "zstep 0x2000 = 0x20"
  "zstep 0x4000 = 0x40" "zstep 0x8000 = 0x80" "zstep 0x10000 = 0x100"
  "zstep 0x20000 = 0x200" "zstep 0x40000 = 0x400" "zstep 0x80000 = 0x800"
  "zstep 0x100000 = 0x1000" "zstep 0x200000 = 0x2000" "zstep 0x400000 = 0x4000"
  "zstep 0x800000 = 0x8000" "zstep 0x1000000 = 0x10000" "zstep 0x2000000 = 0x20000"
  "zstep 0x4000000 = 0x40000" "zstep 0x8000000 = 0x80000" "zstep 0x10000000 = 0x100000"
  "zstep 0x20000000 = 0x200000" "zstep 0x40000000 = 0x400000" "zstep 0x80000000 = 0x800000"
  by (simp_all add: zstep_lin bit_0)

lemmas zstep_powers = zstep_powers0 zstep_powers1 zstep_powers2 zstep_powers3 zstep_powers4
  zstep_powers5 zstep_powers6 zstep_powers7 zstep_high

lemma funpow16: "(f ^^ 16) x = f (f (f (f (f (f (f (f (f (f (f (f (f (f (f (f x)))))))))))))))"
  by (simp add: eval_nat_numeral)

lemma STEP4_powers:
  "STEP4 0 0x1 = (zstep ^^ 16) 0x1" "STEP4 0 0x2 = (zstep ^^ 16) 0x2"
  "STEP4 0 0x4 = (zstep ^^ 16) 0x4" "STEP4 0 0x8 = (zstep ^^ 16) 0x8"
  "STEP4 0 0x10 = (zstep ^^ 16) 0x10" "STEP4 0 0x20 = (zstep ^^ 16) 0x20"
  "STEP4 0 0x40 = (zstep ^^ 16) 0x40" "STEP4 0 0x80 = (zstep ^^ 16) 0x80"
  "STEP4 0 0x100 = (zstep ^^ 16) 0x100" "STEP4 0 0x200 = (zstep ^^ 16) 0x200"
  "STEP4 0 0x400 = (zstep ^^ 16) 0x400" "STEP4 0 0x800 = (zstep ^^ 16) 0x800"
  "STEP4 0 0x1000 = (zstep ^^ 16) 0x1000" "STEP4 0 0x2000 = (zstep ^^ 16) 0x2000"
  "STEP4 0 0x4000 = (zstep ^^ 16) 0x4000" "STEP4 0 0x8000 = (zstep ^^ 16) 0x8000"
  "STEP4 0 0x10000 = (zstep ^^ 16) 0x10000" "STEP4 0 0x20000 = (zstep ^^ 16) 0x20000"
  "STEP4 0 0x40000 = (zstep ^^ 16) 0x40000" "STEP4 0 0x80000 = (zstep ^^ 16) 0x80000"
  "STEP4 0 0x100000 = (zstep ^^ 16) 0x100000" "STEP4 0 0x200000 = (zstep ^^ 16) 0x200000"
  "STEP4 0 0x400000 = (zstep ^^ 16) 0x400000" "STEP4 0 0x800000 = (zstep ^^ 16) 0x800000"
  "STEP4 0 0x1000000 = (zstep ^^ 16) 0x1000000" "STEP4 0 0x2000000 = (zstep ^^ 16) 0x2000000"
  "STEP4 0 0x4000000 = (zstep ^^ 16) 0x4000000" "STEP4 0 0x8000000 = (zstep ^^ 16) 0x8000000"
  "STEP4 0 0x10000000 = (zstep ^^ 16) 0x10000000" "STEP4 0 0x20000000 = (zstep ^^ 16) 0x20000000"
  "STEP4 0 0x40000000 = (zstep ^^ 16) 0x40000000" "STEP4 0 0x80000000 = (zstep ^^ 16) 0x80000000"
  by (simp_all add: STEP4_def stride_entries funpow16 zstep_powers)

lemma STEP4_zero: "STEP4 0 x = (zstep ^^ 16) x"
proof (rule linear_ext [OF STEP4_linear linear_funpow [OF zstep_linear]])
  fix k :: nat
  assume "k < 32"
  then have "k = 0 \<or> k = 1 \<or> k = 2 \<or> k = 3 \<or> k = 4 \<or> k = 5 \<or> k = 6 \<or> k = 7 \<or> k = 8 \<or> k = 9 \<or> k = 10 \<or> k = 11 \<or> k = 12 \<or> k = 13 \<or> k = 14 \<or> k = 15
    \<or> k = 16 \<or> k = 17 \<or> k = 18 \<or> k = 19 \<or> k = 20 \<or> k = 21 \<or> k = 22 \<or> k = 23 \<or> k = 24 \<or> k = 25 \<or> k = 26 \<or> k = 27 \<or> k = 28 \<or> k = 29 \<or> k = 30 \<or> k = 31" by arith
  then show "STEP4 0 (push_bit k 1) = (zstep ^^ 16) (push_bit k 1)"
    using STEP4_powers by auto
qed

section \<open>The strides compute the reference\<close>

lemma Z_xor: "Z n (x XOR y) = Z n x XOR Z n y"
  by (rule linearD [OF linear_funpow [OF zstep_linear]])

lemma Z_Z: "Z m (Z n x) = Z (m + n) x"
  by (simp add: funpow_add)

lemma Z_0 [simp]: "Z n 0 = 0"
  by (rule linear_0 [OF linear_funpow [OF zstep_linear]])

lemma STEP4_eq: "STEP4 w c = w XOR Z 16 c"
proof -
  have "STEP4 w c = w XOR STEP4 0 c" by (simp add: STEP4_def ac_simps)
  then show ?thesis by (simp only: STEP4_zero)
qed

lemma STEP4W_eq: "STEP4W w l = Z 4 (w XOR l)"
proof -
  have "(\<lambda>w. drop_bit 8 w XOR kByteExtensionTable ! unat (w AND 0xff)) = zstep"
    by (simp add: zstep_def fun_eq_iff ac_simps)
  then show ?thesis by (simp only: STEP4W_def)
qed

lemma bit_255: "bit (255 :: int) n \<longleftrightarrow> n < 8"
proof -
  have "bit (mask 8 :: int) n \<longleftrightarrow> n < 8" by (simp only: bit_mask_iff possible_bit_int simp_thms)
  then show ?thesis by (simp add: mask_eq_exp_minus_1)
qed

lemma STEP1_eq: "STEP1 l b = zstep (l XOR ucast b)"
proof -
  have "(l AND 0xff) XOR ucast b = (l XOR ucast b) AND 0xff"
    by (rule bit_word_eqI) (auto simp: bit_simps bit_255 dest: bit_imp_le_length)
  moreover have "drop_bit 8 (l XOR ucast b) = drop_bit 8 l"
    by (rule bit_word_eqI) (auto simp: bit_simps dest: bit_imp_le_length)
  ultimately show ?thesis by (simp add: STEP1_def zstep_def Let_def)
qed

lemma zstep_shift:
  assumes "n \<le> 2"
  shows "zstep (push_bit (8 * Suc n) (ucast (b :: byte))) = push_bit (8 * n) (ucast b)"
proof -
  have "push_bit (8 * Suc n) (ucast b :: u32) AND 0xff = 0"
    by (rule bit_word_eqI) (auto simp: bit_simps bit_255)
  moreover have "drop_bit 8 (push_bit (8 * Suc n) (ucast b :: u32)) = push_bit (8 * n) (ucast b)"
    using assms by (intro bit_word_eqI) (auto simp: bit_simps dest: bit_imp_le_length)
  moreover have "kByteExtensionTable ! 0 = 0" by (simp add: kByteExtensionTable_def)
  ultimately show ?thesis by (simp add: zstep_def)
qed

lemma Z_shift: "n \<le> 3 \<Longrightarrow> Z n (push_bit (8 * n) (ucast (b :: byte))) = ucast b"
proof (induction n)
  case (Suc n)
  then show ?case using zstep_shift [of n b] by (simp add: funpow_swap1)
qed simp

lemma DecodeFixed32_xor:
  "DecodeFixed32 (b0 # b1 # b2 # b3 # p) =
    ucast b0 XOR push_bit 8 (ucast b1) XOR push_bit 16 (ucast b2) XOR push_bit 24 (ucast b3)"
  by (rule bit_word_eqI) (auto simp: DecodeFixed32_def byte_at_def bit_simps dest: bit_imp_le_length)

lemma foldl_word:
  assumes "4 \<le> length p"
  shows "foldl STEP1 l (take 4 p) = Z 4 (l XOR ReadUint32LE p 0)"
proof -
  from assms obtain b0 b1 b2 b3 q where p: "p = b0 # b1 # b2 # b3 # q"
    by (auto simp: numeral_eq_Suc Suc_le_length_iff)
  have sh: "Z 4 (push_bit 8 (ucast b1)) = Z 3 (ucast b1)" "Z 4 (push_bit 16 (ucast b2)) = Z 2 (ucast b2)"
      "Z 4 (push_bit 24 (ucast b3)) = zstep (ucast b3)"
    using Z_shift [of 1 b1] Z_shift [of 2 b2] Z_shift [of 3 b3]
      Z_Z [of 3 1 "push_bit 8 (ucast b1)"] Z_Z [of 2 2 "push_bit 16 (ucast b2)"] Z_Z [of 1 3 "push_bit 24 (ucast b3)"]
    by simp_all
  have "foldl STEP1 l (take 4 p) = Z 4 l XOR Z 4 (ucast b0) XOR Z 3 (ucast b1) XOR Z 2 (ucast b2) XOR zstep (ucast b3)"
    by (simp add: p STEP1_eq linearD [OF zstep_linear] numeral_eq_Suc ac_simps)
  then show ?thesis by (simp only: p ReadUint32LE_def drop0 DecodeFixed32_xor Z_xor sh ac_simps)
qed

lemma combine_eq: "combine (c0, c1, c2, c3) = Z 16 c0 XOR Z 12 c1 XOR Z 8 c2 XOR Z 4 c3"
  by (simp add: combine_def STEP4W_eq Z_xor Z_Z ac_simps)

lemma take_word: "take (4 + n) p = take 4 p @ take n (drop 4 p)"
  by (rule take_add)

lemma foldl_swath:
  assumes "16 \<le> length p"
  shows "foldl STEP1 l (take 16 p) =
    Z 16 l XOR combine (ReadUint32LE p 0, ReadUint32LE p 4, ReadUint32LE p 8, ReadUint32LE p 12)"
proof -
  have "take 16 p = take 4 p @ take 4 (drop 4 p) @ take 4 (drop 8 p) @ take 4 (drop 12 p)"
    using take_add [of 4 12 p] take_add [of 4 8 "drop 4 p"] take_add [of 4 4 "drop 8 p"] by simp
  moreover have "foldl STEP1 l (take 4 (drop n p)) = Z 4 (l XOR ReadUint32LE p n)" if "n \<le> 12" for n l
    using foldl_word [of "drop n p" l] that assms by (simp add: ReadUint32LE_def)
  ultimately show ?thesis using foldl_word [of p l] assms
    by (simp add: combine_eq Z_xor Z_Z ac_simps)
qed

lemma STEP16_combine:
  assumes "16 \<le> length p"
  shows "foldl STEP1 (combine s) (take 16 p) = combine (STEP16 p s)"
  by (cases s) (simp add: foldl_swath [OF assms] STEP16_def STEP4_eq combine_eq Z_xor Z_Z ac_simps)

lemma swath_loop_combine:
  "swath_loop p s = (p', s') \<Longrightarrow> foldl STEP1 (combine s') p' = foldl STEP1 (combine s) p"
proof (induction p s rule: swath_loop.induct)
  case (1 p s)
  show ?case
  proof (cases "16 \<le> length p")
    case True
    with 1 have "foldl STEP1 (combine s') p' = foldl STEP1 (combine (STEP16 p s)) (drop 16 p)"
      by (subst (asm) (2) swath_loop.simps) simp
    then show ?thesis using True by (simp flip: STEP16_combine foldl_append)
  next
    case False
    with 1(2) show ?thesis by (simp add: swath_loop.simps)
  qed
qed

lemma word_loop_combine:
  "word_loop p s = (p', s') \<Longrightarrow> foldl STEP1 (combine s') p' = foldl STEP1 (combine s) p"
proof (induction p s rule: word_loop.induct)
  case (1 p s)
  obtain c0 c1 c2 c3 where s: "s = (c0, c1, c2, c3)" by (cases s) auto
  show ?case
  proof (cases "4 \<le> length p")
    case True
    let ?s = "(c1, c2, c3, STEP4 (ReadUint32LE p 0) c0)"
    have "foldl STEP1 (combine s') p' = foldl STEP1 (combine ?s) (drop 4 p)"
      using 1(1) [OF True s [symmetric] refl refl] 1(2) True by (simp add: word_loop.simps [of p] s)
    moreover have "combine ?s = foldl STEP1 (combine s) (take 4 p)"
      by (simp add: s foldl_word [OF True] combine_eq STEP4_eq Z_xor Z_Z ac_simps)
    ultimately show ?thesis by (simp flip: foldl_append)
  next
    case False
    with 1(2) show ?thesis by (simp add: word_loop.simps [of p])
  qed
qed

lemma Extend_portable_ref: "Extend_portable addr crc data = crc_ref crc data"
proof -
  define l0 p0 where "l0 = (if RoundUp4 addr \<le> addr + length data
      then foldl STEP1 (crc XOR kCRC32Xor) (take (RoundUp4 addr - addr) data) else crc XOR kCRC32Xor)"
    and "p0 = (if RoundUp4 addr \<le> addr + length data then drop (RoundUp4 addr - addr) data else data)"
  have start: "foldl STEP1 l0 p0 = foldl STEP1 (crc XOR kCRC32Xor) data"
    by (simp add: l0_def p0_def flip: foldl_append)
  define lp where "lp = (if 16 \<le> length p0
      then let s = (ReadUint32LE p0 0 XOR l0, ReadUint32LE p0 4, ReadUint32LE p0 8, ReadUint32LE p0 12);
               (p, s) = swath_loop (drop 16 p0) s;
               (p, s) = word_loop p s
           in (combine s, p)
      else (l0, p0))"
  have "foldl STEP1 (fst lp) (snd lp) = foldl STEP1 l0 p0"
  proof (cases "16 \<le> length p0")
    case True
    let ?s = "(ReadUint32LE p0 0 XOR l0, ReadUint32LE p0 4, ReadUint32LE p0 8, ReadUint32LE p0 12)"
    obtain p1 s1 where sw: "swath_loop (drop 16 p0) ?s = (p1, s1)" by (rule prod.exhaust)
    obtain p2 s2 where wl: "word_loop p1 s1 = (p2, s2)" by (rule prod.exhaust)
    have "combine ?s = foldl STEP1 l0 (take 16 p0)"
      by (simp add: foldl_swath [OF True] combine_eq Z_xor ac_simps)
    then have "foldl STEP1 (combine s2) p2 = foldl STEP1 (foldl STEP1 l0 (take 16 p0)) (drop 16 p0)"
      using swath_loop_combine [OF sw] word_loop_combine [OF wl] by simp
    then show ?thesis using True sw wl by (simp add: lp_def flip: foldl_append)
  qed (simp add: lp_def)
  moreover have "Extend_portable addr crc data = foldl STEP1 (fst lp) (snd lp) XOR kCRC32Xor"
    unfolding Extend_portable_def lp_def
    by (simp add: l0_def p0_def combine_def Let_def case_prod_unfold)
  ultimately show ?thesis by (simp add: crc_ref_def start)
qed

lemma crc_Extend_ref: "crc_Extend crc data = crc_ref crc data"
  by (simp add: crc_Extend_def Extend_def CanAccelerateCRC32C_def Extend_portable_ref)

lemma crc_ref_append: "crc_ref (crc_ref crc a) b = crc_ref crc (a @ b)"
  by (simp add: crc_ref_def xor.assoc)

lemma Unmask_Mask: "Unmask (Mask crc) = crc"
proof -
  let ?r = "drop_bit 15 crc OR push_bit 17 crc"
  have "drop_bit 17 ?r OR push_bit 15 ?r = crc"
  proof (rule bit_word_eqI)
    fix n assume "n < LENGTH(32)"
    then show "bit (drop_bit 17 ?r OR push_bit 15 ?r) n = bit crc n"
      by (cases "n < 15") (auto simp: bit_simps)
  qed
  then show ?thesis by (simp add: Unmask_def Mask_def Let_def)
qed

section \<open>The interface\<close>

text \<open>What the log and the table formats rely on.\<close>

locale checksum =
  fixes extend :: "u32 \<Rightarrow> bytes \<Rightarrow> u32" and mask unmask :: "u32 \<Rightarrow> u32"
  assumes extend_append: "extend (extend c a) b = extend c (a @ b)"
    and unmask_mask: "unmask (mask c) = c"
begin

lemma stored_checksum: "unmask (mask (extend (extend c a) b)) = extend c (a @ b)"
  by (simp add: unmask_mask extend_append)

end

interpretation crc32c: checksum crc_Extend Mask Unmask
  by unfold_locales (simp_all add: crc_Extend_ref crc_ref_append Unmask_Mask)

section \<open>Properties\<close>

text \<open>
  C9. The strided checksum equals the byte-by-byte one, for data of every length at every address,
  whether or not the hardware routine is used, provided that a hardware routine which passes the
  start-up test computes the same function.
\<close>

theorem crc_equals_reference:
  assumes "CanAccelerateCRC32C accel \<Longrightarrow> accel crc data = crc_ref crc data"
  shows "Extend accel addr crc data = crc_ref crc data"
  using assms by (simp add: Extend_def Extend_portable_ref)

theorem crc_equals_reference_witness:
  "Extend (\<lambda>_ _. 0) 7 0 (replicate 40 1) = crc_ref 0 (replicate 40 1)"
  by (rule crc_equals_reference) (simp add: CanAccelerateCRC32C_def)

text \<open>
  C26. Checksums compose and survive storage: extending the checksum of a string by another gives
  the checksum of the concatenation, and unmasking a masked checksum gives it back.
\<close>

theorem crc_extend_and_mask:
  "crc_Extend (crc_Value a) b = crc_Value (a @ b) \<and> Unmask (Mask crc) = crc"
  by (simp add: crc_Value_def crc32c.extend_append Unmask_Mask)

end
