(* ===== verification/MemEnv.thy ===== *)
theory MemEnv
  imports Comparator
begin

text \<open>
  \<open>helpers/memenv/memenv.cc\<close>: the in-memory environment, and the file interfaces of
  \<open>include/leveldb/env.h\<close> that the log and the tables use. A \<open>FileState\<close> keeps its bytes in blocks of
  8 KiB; objects live in a heap, so that a name, a writer and readers share one file. A \<open>FileState*\<close>
  is an index into the heap or \<open>None\<close> for the null pointer; an operation on the null pointer or on a
  deleted object has no result. Mutexes are left out: every operation runs under its lock.

  The interfaces are locales: a writable file appends, a sequential file reads what comes next.
\<close>

section \<open>File contents\<close>

record FileState =
  fs_refs :: int
  fs_blocks :: "bytes list"
  fs_size :: nat

definition fs_kBlockSize :: nat where "fs_kBlockSize = 8 * 1024"

definition new_FileState :: FileState where
  "new_FileState = \<lparr>fs_refs = 0, fs_blocks = [], fs_size = 0\<rparr>"

definition fs_Truncate :: "FileState \<Rightarrow> FileState" where
  "fs_Truncate f = f\<lparr>fs_blocks := [], fs_size := 0\<rparr>"

text \<open>The offset in a block is below the block size at every iteration; the guard says so.\<close>

function fs_Read_loop :: "bytes list \<Rightarrow> nat \<Rightarrow> nat \<Rightarrow> nat \<Rightarrow> bytes" where
  "fs_Read_loop blocks block block_offset bytes_to_copy =
     (if 0 < bytes_to_copy \<and> block_offset < fs_kBlockSize
      then let avail = min (fs_kBlockSize - block_offset) bytes_to_copy
           in take avail (drop block_offset (blocks ! block))
              @ fs_Read_loop blocks (block + 1) 0 (bytes_to_copy - avail)
      else [])"
  by pat_completeness auto
termination
  by (relation "measure (\<lambda>(blocks, block, block_offset, n). n)") (auto simp: fs_kBlockSize_def)

declare fs_Read_loop.simps [simp del]

definition fs_Read :: "FileState \<Rightarrow> nat \<Rightarrow> nat \<Rightarrow> status \<times> bytes" where
  "fs_Read f offset n =
     (if fs_size f < offset then (IOError ''Offset greater than file size.'', [])
      else let available = fs_size f - offset;
               n = (if available < n then available else n)
           in if n = 0 then (OK, [])
              else (OK, fs_Read_loop (fs_blocks f) (offset div fs_kBlockSize) (offset mod fs_kBlockSize) n))"

text \<open>A fresh block is uninitialised memory; the model fills it with zero, and nothing reads it.\<close>

function fs_Append_loop :: "FileState \<Rightarrow> bytes \<Rightarrow> FileState" where
  "fs_Append_loop f src =
     (if src = [] then f
      else let offset = fs_size f mod fs_kBlockSize;
               blocks = (if offset \<noteq> 0 then fs_blocks f else fs_blocks f @ [replicate fs_kBlockSize 0]);
               avail = min (if offset \<noteq> 0 then fs_kBlockSize - offset else fs_kBlockSize) (length src);
               i = length blocks - 1
           in fs_Append_loop
                (f\<lparr>fs_blocks := blocks[i := poke (blocks ! i) offset (take avail src)],
                   fs_size := fs_size f + avail\<rparr>)
                (drop avail src))"
  by pat_completeness (simp only: prod.inject)
termination
proof (relation "measure (\<lambda>(f, src). length src)", goal_cases)
  case (2 f src offset blocks avail i)
  have "offset < fs_kBlockSize" unfolding 2(2) by (simp add: fs_kBlockSize_def)
  with 2 show ?case by (simp add: fs_kBlockSize_def)
qed simp

declare fs_Append_loop.simps [simp del]

definition fs_Append :: "FileState \<Rightarrow> bytes \<Rightarrow> status \<times> FileState" where
  "fs_Append f data = (OK, fs_Append_loop f data)"

text \<open>The sequential reader: a file and a position.\<close>

definition seq_Read :: "FileState \<times> nat \<Rightarrow> nat \<Rightarrow> status \<times> bytes \<times> (FileState \<times> nat)" where
  "seq_Read h n =
     (case h of (f, pos) \<Rightarrow>
        let (s, result) = fs_Read f pos n
        in (s, result, (f, if status_ok s then pos + length result else pos)))"

definition seq_Skip :: "FileState \<times> nat \<Rightarrow> nat \<Rightarrow> status \<times> (FileState \<times> nat)" where
  "seq_Skip h n =
     (case h of (f, pos) \<Rightarrow>
        if fs_size f < pos then (IOError ''pos_ > file_->Size()'', h)
        else let available = fs_size f - pos
             in (OK, (f, pos + (if available < n then available else n))))"

definition wf_Flush :: "FileState \<Rightarrow> status \<times> FileState" where
  "wf_Flush f = (OK, f)"

section \<open>The interfaces\<close>

locale writable_file =
  fixes app :: "'d \<Rightarrow> bytes \<Rightarrow> status \<times> 'd" and flush :: "'d \<Rightarrow> status \<times> 'd"
    and written :: "'d \<Rightarrow> bytes" and wf_ok :: "'d \<Rightarrow> bool"
  assumes app_law: "wf_ok d \<Longrightarrow> \<exists>d'. app d xs = (OK, d') \<and> written d' = written d @ xs \<and> wf_ok d'"
    and flush_law: "wf_ok d \<Longrightarrow> \<exists>d'. flush d = (OK, d') \<and> written d' = written d \<and> wf_ok d'"

locale sequential_file =
  fixes rd :: "'f \<Rightarrow> nat \<Rightarrow> status \<times> bytes \<times> 'f" and contents :: "'f \<Rightarrow> bytes" and sf_ok :: "'f \<Rightarrow> bool"
  assumes rd_law: "sf_ok f \<Longrightarrow> \<exists>f'. rd f n = (OK, take n (contents f), f') \<and> contents f' = drop n (contents f) \<and> sf_ok f'"

section \<open>The file system\<close>

text \<open>
  \<open>file_map_\<close> is a \<open>std::map\<close>: an association list sorted by name. \<open>file_map_[name]\<close> inserts a null
  pointer when the name is absent.
\<close>

record MemEnv =
  heap :: "FileState option list"
  file_map :: "(bytes \<times> nat option) list"

fun fmap_set :: "(bytes \<times> nat option) list \<Rightarrow> bytes \<Rightarrow> nat option \<Rightarrow> (bytes \<times> nat option) list" where
  "fmap_set [] k v = [(k, v)]"
| "fmap_set ((k', v') # m) k v =
     (if slice_compare k k' < 0 then (k, v) # (k', v') # m
      else if k = k' then (k, v) # m
      else (k', v') # fmap_set m k v)"

fun fmap_erase :: "(bytes \<times> nat option) list \<Rightarrow> bytes \<Rightarrow> (bytes \<times> nat option) list" where
  "fmap_erase [] k = []"
| "fmap_erase ((k', v') # m) k = (if k = k' then m else (k', v') # fmap_erase m k)"

definition deref :: "MemEnv \<Rightarrow> nat option \<Rightarrow> FileState option" where
  "deref env p =
     (case p of None \<Rightarrow> None | Some i \<Rightarrow> if i < length (heap env) then heap env ! i else None)"

definition store :: "MemEnv \<Rightarrow> nat \<Rightarrow> FileState option \<Rightarrow> MemEnv" where
  "store env i f = env\<lparr>heap := (heap env)[i := f]\<rparr>"

definition fs_Ref :: "MemEnv \<Rightarrow> nat option \<Rightarrow> MemEnv option" where
  "fs_Ref env p =
     (case (p, deref env p) of
        (Some i, Some f) \<Rightarrow> Some (store env i (Some (f\<lparr>fs_refs := fs_refs f + 1\<rparr>)))
      | _ \<Rightarrow> None)"

text \<open>What is left of an object when one reference goes: nothing, when it was the last.\<close>

definition unref_obj :: "FileState \<Rightarrow> FileState option" where
  "unref_obj f = (if fs_refs f - 1 \<le> 0 then None else Some (f\<lparr>fs_refs := fs_refs f - 1\<rparr>))"

definition fs_Unref :: "MemEnv \<Rightarrow> nat option \<Rightarrow> MemEnv option" where
  "fs_Unref env p =
     (case (p, deref env p) of
        (Some i, Some f) \<Rightarrow> Some (store env i (unref_obj f))
      | _ \<Rightarrow> None)"

text \<open>The calls of the handles, through the pointer they hold; destroying a handle is \<open>fs_Unref\<close>.\<close>

definition handle_Append :: "MemEnv \<Rightarrow> nat option \<Rightarrow> bytes \<Rightarrow> (status \<times> MemEnv) option" where
  "handle_Append env p data =
     (case (p, deref env p) of
        (Some i, Some f) \<Rightarrow> let (s, f1) = fs_Append f data in Some (s, store env i (Some f1))
      | _ \<Rightarrow> None)"

definition handle_Read :: "MemEnv \<Rightarrow> nat option \<Rightarrow> nat \<Rightarrow> nat \<Rightarrow> (status \<times> bytes) option" where
  "handle_Read env p offset n = map_option (\<lambda>f. fs_Read f offset n) (deref env p)"

definition new_file :: "MemEnv \<Rightarrow> nat \<times> MemEnv" where
  "new_file env = (length (heap env), env\<lparr>heap := heap env @ [Some new_FileState]\<rparr>)"

text \<open>
  The operations return no result on undefined behaviour, and otherwise a status, the pointer the
  new handle refers to, and the new state. Readers and writers take a reference of their own.
\<close>

definition env_NewSequentialFile :: "MemEnv \<Rightarrow> bytes \<Rightarrow> (status \<times> nat option \<times> MemEnv) option" where
  "env_NewSequentialFile env fname =
     (case map_of (file_map env) fname of
        None \<Rightarrow> Some (mk_status kIOError fname (lit ''File not found''), None, env)
      | Some p \<Rightarrow> map_option (\<lambda>env1. (OK, p, env1)) (fs_Ref env p))"

definition env_NewRandomAccessFile :: "MemEnv \<Rightarrow> bytes \<Rightarrow> (status \<times> nat option \<times> MemEnv) option" where
  "env_NewRandomAccessFile env fname =
     (case map_of (file_map env) fname of
        None \<Rightarrow> Some (mk_status kIOError fname (lit ''File not found''), None, env)
      | Some p \<Rightarrow> map_option (\<lambda>env1. (OK, p, env1)) (fs_Ref env p))"

definition env_NewWritableFile :: "MemEnv \<Rightarrow> bytes \<Rightarrow> (status \<times> nat option \<times> MemEnv) option" where
  "env_NewWritableFile env fname =
     (case map_of (file_map env) fname of
        None \<Rightarrow>
          let (i, env1) = new_file env
          in Option.bind (fs_Ref env1 (Some i)) (\<lambda>env2.
               let env3 = env2\<lparr>file_map := fmap_set (file_map env2) fname (Some i)\<rparr>
               in map_option (\<lambda>env4. (OK, Some i, env4)) (fs_Ref env3 (Some i)))
      | Some p \<Rightarrow>
          (case (p, deref env p) of
             (Some i, Some f) \<Rightarrow>
               let env1 = store env i (Some (fs_Truncate f))
               in map_option (\<lambda>env2. (OK, p, env2)) (fs_Ref env1 p)
           | _ \<Rightarrow> None))"

definition env_NewAppendableFile :: "MemEnv \<Rightarrow> bytes \<Rightarrow> (status \<times> nat option \<times> MemEnv) option" where
  "env_NewAppendableFile env fname =
     (let env0 = (if map_of (file_map env) fname = None
                  then env\<lparr>file_map := fmap_set (file_map env) fname None\<rparr> else env)
      in case map_of (file_map env0) fname of
           Some (Some i) \<Rightarrow> map_option (\<lambda>env1. (OK, Some i, env1)) (fs_Ref env0 (Some i))
         | _ \<Rightarrow>
             let (i, env1) = new_file env0
             in Option.bind (fs_Ref env1 (Some i)) (\<lambda>env2.
                  map_option (\<lambda>env3. (OK, Some i, env3)) (fs_Ref env2 (Some i))))"

definition env_FileExists :: "MemEnv \<Rightarrow> bytes \<Rightarrow> bool" where
  "env_FileExists env fname = (map_of (file_map env) fname \<noteq> None)"

definition env_GetChildren :: "MemEnv \<Rightarrow> bytes \<Rightarrow> bytes list" where
  "env_GetChildren env dir =
     [drop (length dir + 1) filename. (filename, p) \<leftarrow> file_map env,
        length dir + 1 \<le> length filename \<and> filename ! length dir = 47 \<and> starts_with filename dir]"

definition env_RemoveFileInternal :: "MemEnv \<Rightarrow> bytes \<Rightarrow> MemEnv option" where
  "env_RemoveFileInternal env fname =
     (case map_of (file_map env) fname of
        None \<Rightarrow> Some env
      | Some p \<Rightarrow>
          map_option (\<lambda>env1. env1\<lparr>file_map := fmap_erase (file_map env1) fname\<rparr>) (fs_Unref env p))"

definition env_RemoveFile :: "MemEnv \<Rightarrow> bytes \<Rightarrow> (status \<times> MemEnv) option" where
  "env_RemoveFile env fname =
     (if map_of (file_map env) fname = None
      then Some (mk_status kIOError fname (lit ''File not found''), env)
      else map_option (\<lambda>env1. (OK, env1)) (env_RemoveFileInternal env fname))"

definition env_GetFileSize :: "MemEnv \<Rightarrow> bytes \<Rightarrow> (status \<times> nat) option" where
  "env_GetFileSize env fname =
     (case map_of (file_map env) fname of
        None \<Rightarrow> Some (mk_status kIOError fname (lit ''File not found''), 0)
      | Some p \<Rightarrow> map_option (\<lambda>f. (OK, fs_size f)) (deref env p))"

definition env_RenameFile :: "MemEnv \<Rightarrow> bytes \<Rightarrow> bytes \<Rightarrow> (status \<times> MemEnv) option" where
  "env_RenameFile env src target =
     (if map_of (file_map env) src = None
      then Some (mk_status kIOError src (lit ''File not found''), env)
      else map_option (\<lambda>env1.
             let p = (case map_of (file_map env1) src of Some p \<Rightarrow> p | None \<Rightarrow> None);
                 m = (if map_of (file_map env1) src = None then fmap_set (file_map env1) src None
                      else file_map env1)
             in (OK, env1\<lparr>file_map := fmap_erase (fmap_set m target p) src\<rparr>))
           (env_RemoveFileInternal env target))"

text \<open>
  A session: the handles that are open and the environment. Writers and readers are opened and
  closed, files appended to, removed and renamed, in any order.
\<close>

definition empty_env :: MemEnv where "empty_env = \<lparr>heap = [], file_map = []\<rparr>"

inductive env_step :: "nat list \<times> MemEnv \<Rightarrow> nat list \<times> MemEnv \<Rightarrow> bool" where
  open_write: "env_NewWritableFile env fname = Some (OK, Some i, env') \<Longrightarrow> env_step (hs, env) (i # hs, env')"
| open_read: "env_NewSequentialFile env fname = Some (OK, Some i, env') \<Longrightarrow> env_step (hs, env) (i # hs, env')"
| open_random: "env_NewRandomAccessFile env fname = Some (OK, Some i, env') \<Longrightarrow> env_step (hs, env) (i # hs, env')"
| append: "i \<in> set hs \<Longrightarrow> handle_Append env (Some i) data = Some (s, env') \<Longrightarrow> env_step (hs, env) (hs, env')"
| close: "i \<in> set hs \<Longrightarrow> fs_Unref env (Some i) = Some env' \<Longrightarrow> env_step (hs, env) (remove1 i hs, env')"
| remove: "env_RemoveFile env fname = Some (s, env') \<Longrightarrow> env_step (hs, env) (hs, env')"
| rename: "src \<noteq> target \<Longrightarrow> env_RenameFile env src target = Some (s, env') \<Longrightarrow> env_step (hs, env) (hs, env')"

section \<open>The contract\<close>

definition fs_contents :: "FileState \<Rightarrow> bytes" where
  "fs_contents f = take (fs_size f) (concat (fs_blocks f))"

definition fs_inv :: "FileState \<Rightarrow> bool" where
  "fs_inv f \<longleftrightarrow> (\<forall>b \<in> set (fs_blocks f). length b = fs_kBlockSize)
     \<and> fs_size f \<le> length (fs_blocks f) * fs_kBlockSize
     \<and> length (fs_blocks f) * fs_kBlockSize < fs_size f + fs_kBlockSize"

text \<open>What the environment stores: a map from names to contents.\<close>

definition env_abs :: "MemEnv \<Rightarrow> bytes \<Rightarrow> bytes option" where
  "env_abs env fname =
     Option.bind (map_of (file_map env) fname) (\<lambda>p. map_option fs_contents (deref env p))"

definition seq_rest :: "FileState \<times> nat \<Rightarrow> bytes" where
  "seq_rest h = drop (snd h) (fs_contents (fst h))"

definition seq_ok :: "FileState \<times> nat \<Rightarrow> bool" where
  "seq_ok h \<longleftrightarrow> fs_inv (fst h) \<and> snd h \<le> fs_size (fst h)"

text \<open>
  With the handles \<open>hs\<close> open and the names referring to \<open>R\<close>: the count of every live object is the
  number of names and handles that refer to it, and a deleted one has none. In the environment the
  names are sorted and no two share a file.
\<close>

definition obj_ok :: "nat \<Rightarrow> FileState option \<Rightarrow> bool" where
  "obj_ok n x = (case x of None \<Rightarrow> n = 0 | Some f \<Rightarrow> fs_inv f \<and> 0 < n \<and> fs_refs f = int n)"

definition heap_ok :: "nat list \<Rightarrow> nat option set \<Rightarrow> FileState option list \<Rightarrow> bool" where
  "heap_ok hs R h \<longleftrightarrow>
     set hs \<subseteq> {..<length h} \<and> R \<subseteq> Some ` {..<length h}
     \<and> (\<forall>i < length h. obj_ok (count_list hs i + of_bool (Some i \<in> R)) (h ! i))"

abbreviation names_sorted :: "(bytes \<times> nat option) list \<Rightarrow> bool" where
  "names_sorted \<equiv> sorted_wrt (\<lambda>a b. slice_compare (fst a) (fst b) < 0)"

definition env_inv :: "nat list \<Rightarrow> MemEnv \<Rightarrow> bool" where
  "env_inv hs env \<longleftrightarrow>
     names_sorted (file_map env)
     \<and> (\<forall>k k' p. map_of (file_map env) k = Some p \<longrightarrow> map_of (file_map env) k' = Some p \<longrightarrow> k = k')
     \<and> heap_ok hs (ran (map_of (file_map env))) (heap env)"

section \<open>Files\<close>

lemma kBlockSize_pos [simp]: "0 < fs_kBlockSize"
  by (simp add: fs_kBlockSize_def)

lemma length_concat_blocks:
  "\<forall>b \<in> set bs. length b = k \<Longrightarrow> length (concat bs) = length bs * k"
  by (induction bs) auto

lemma drop_concat_blocks:
  "\<forall>b \<in> set bs. length b = k \<Longrightarrow> drop (n * k) (concat bs) = concat (drop n bs)"
proof (induction bs arbitrary: n)
  case (Cons b bs)
  then show ?case by (cases n) simp_all
qed simp

lemma fs_Read_loop_eq:
  assumes "\<forall>b \<in> set blocks. length b = fs_kBlockSize" and "off < fs_kBlockSize"
    and "blk * fs_kBlockSize + off + n \<le> length blocks * fs_kBlockSize"
  shows "fs_Read_loop blocks blk off n = take n (drop (blk * fs_kBlockSize + off) (concat blocks))"
  using assms
proof (induction blocks blk off n rule: fs_Read_loop.induct)
  case (1 blocks blk off n)
  let ?k = fs_kBlockSize
  show ?case
  proof (cases "n = 0")
    case False
    define a where "a = min (?k - off) n"
    have blk: "blk < length blocks"
    proof (rule ccontr)
      assume "\<not> blk < length blocks"
      then have "length blocks * ?k \<le> blk * ?k" by simp
      with "1.prems"(3) False show False by linarith
    qed
    have len: "length (blocks ! blk) = ?k" using "1.prems"(1) blk by simp
    have tail: "drop (blk * ?k + off) (concat blocks) = drop off (blocks ! blk) @ concat (drop (blk + 1) blocks)"
    proof -
      have "drop (blk * ?k) (concat blocks) = blocks ! blk @ concat (drop (blk + 1) blocks)"
        using drop_concat_blocks [OF "1.prems"(1), of blk] blk by (simp add: Cons_nth_drop_Suc [symmetric])
      then have "drop off (drop (blk * ?k) (concat blocks)) = drop off (blocks ! blk) @ concat (drop (blk + 1) blocks)"
        using "1.prems"(2) len by simp
      then show ?thesis by (simp add: add.commute)
    qed
    have step: "fs_Read_loop blocks blk off n
        = take a (drop off (blocks ! blk)) @ fs_Read_loop blocks (blk + 1) 0 (n - a)"
      using False "1.prems"(2) by (subst fs_Read_loop.simps) (simp add: a_def Let_def)
    show ?thesis
    proof (cases "n \<le> ?k - off")
      case True
      then have "a = n" by (simp add: a_def)
      then show ?thesis unfolding step tail using True len by (simp add: fs_Read_loop.simps)
    next
      case more: False
      then have a: "a = ?k - off" by (simp add: a_def)
      have le: "(blk + 1) * ?k + 0 + (n - a) \<le> length blocks * ?k"
        using "1.prems"(2,3) more a by (simp add: algebra_simps)
      have "fs_Read_loop blocks (blk + 1) 0 (n - a) = take (n - a) (concat (drop (blk + 1) blocks))"
        using "1.IH" [of a] False "1.prems"(1,2) le drop_concat_blocks [OF "1.prems"(1), of "blk + 1"]
        by (simp add: a_def)
      then show ?thesis unfolding step tail using a len more by simp
    qed
  qed (simp add: fs_Read_loop.simps)
qed

lemma fs_contents_length: "fs_inv f \<Longrightarrow> length (fs_contents f) = fs_size f"
  using length_concat_blocks [of "fs_blocks f" fs_kBlockSize] by (simp add: fs_inv_def fs_contents_def)

lemma fs_Read_eq:
  assumes "fs_inv f" and "offset \<le> fs_size f"
  shows "fs_Read f offset n = (OK, take n (drop offset (fs_contents f)))"
proof -
  let ?n = "if fs_size f - offset < n then fs_size f - offset else n"
  have off: "offset div fs_kBlockSize * fs_kBlockSize + offset mod fs_kBlockSize = offset" by simp
  have "fs_Read_loop (fs_blocks f) (offset div fs_kBlockSize) (offset mod fs_kBlockSize) ?n
      = take ?n (drop offset (concat (fs_blocks f)))"
  proof (rule fs_Read_loop_eq [of "fs_blocks f" "offset mod fs_kBlockSize" "offset div fs_kBlockSize" ?n, unfolded off])
    show "offset + ?n \<le> length (fs_blocks f) * fs_kBlockSize" using assms by (auto simp: fs_inv_def)
  qed (use assms in \<open>simp_all add: fs_inv_def\<close>)
  also have "\<dots> = take n (drop offset (fs_contents f))"
    by (simp add: fs_contents_def drop_take min_def)
  finally show ?thesis using assms fs_contents_length [of f] by (auto simp: fs_Read_def Let_def)
qed

lemma fs_Append_chunk:
  assumes inv: "fs_inv f" and src: "src \<noteq> []"
  defines "offset \<equiv> fs_size f mod fs_kBlockSize"
  defines "blocks \<equiv> (if offset \<noteq> 0 then fs_blocks f else fs_blocks f @ [replicate fs_kBlockSize 0])"
  defines "avail \<equiv> min (if offset \<noteq> 0 then fs_kBlockSize - offset else fs_kBlockSize) (length src)"
  defines "i \<equiv> length blocks - 1"
  defines "g \<equiv> f\<lparr>fs_blocks := blocks[i := poke (blocks ! i) offset (take avail src)], fs_size := fs_size f + avail\<rparr>"
  shows "fs_inv g" and "fs_contents g = fs_contents f @ take avail src"
    and "fs_Append_loop f src = fs_Append_loop g (drop avail src)" and "0 < avail" and "avail \<le> length src"
proof -
  let ?k = fs_kBlockSize
  have off: "offset < ?k" by (simp add: offset_def)
  have all: "\<forall>b \<in> set blocks. length b = ?k" using inv by (auto simp: blocks_def fs_inv_def)
  define q where "q = fs_size f div ?k"
  have size: "fs_size f = q * ?k + offset" by (simp add: q_def offset_def)
  have bounds: "fs_size f \<le> length (fs_blocks f) * ?k" "length (fs_blocks f) * ?k < fs_size f + ?k"
    using inv by (simp_all add: fs_inv_def)
  have len: "length blocks = q + 1"
  proof (cases "offset = 0")
    case True
    have "q * ?k \<le> length (fs_blocks f) * ?k" "length (fs_blocks f) * ?k < (q + 1) * ?k"
      using bounds size True by simp_all
    then have "q \<le> length (fs_blocks f)" "length (fs_blocks f) < q + 1"
      using kBlockSize_pos by (simp, metis mult_less_cancel2)
    then show ?thesis using True by (simp add: blocks_def)
  next
    case False
    have "q * ?k < length (fs_blocks f) * ?k" "length (fs_blocks f) * ?k < (q + 2) * ?k"
      using bounds size False off by (linarith, simp)
    then have "q < length (fs_blocks f)" "length (fs_blocks f) < q + 2"
      by (metis mult_less_cancel2)+
    then show ?thesis using False by (simp add: blocks_def)
  qed
  then have i: "i = q" "i < length blocks" by (simp_all add: i_def)
  have avail: "offset + avail \<le> ?k" "avail \<le> length src" "0 < avail"
    using off src by (auto simp: avail_def)
  have last: "length (blocks ! i) = ?k" using all i by simp
  have split: "blocks = take q blocks @ [blocks ! i]"
    using i len by (metis Suc_eq_plus1 lessI take_Suc_conv_app_nth take_all order_refl)
  have upd: "blocks[i := x] = take q blocks @ [x]" for x
    using split i len by (metis length_take min.absorb2 le_add1 list_update_length)
  have pre: "concat (take q blocks) @ take offset (blocks ! i) = fs_contents f"
  proof (cases "offset = 0")
    case True
    then have "blocks = fs_blocks f @ [replicate ?k 0]" by (simp add: blocks_def)
    moreover from this have "length (fs_blocks f) = q" using len by simp
    ultimately show ?thesis
      using True size length_concat_blocks [of "fs_blocks f" ?k] inv
      by (simp add: fs_contents_def fs_inv_def)
  next
    case False
    then have b: "blocks = fs_blocks f" by (simp add: blocks_def)
    have "length (concat (take q blocks)) = q * ?k"
      using length_concat_blocks [of "take q blocks" ?k] all len by (auto dest: in_set_takeD)
    moreover have "concat blocks = concat (take q blocks) @ blocks ! i"
      using arg_cong [OF split, of concat] by simp
    ultimately show ?thesis using size b last off by (simp add: fs_contents_def)
  qed
  have conc: "concat (fs_blocks g) = concat (take q blocks) @ poke (blocks ! i) offset (take avail src)"
    by (simp add: g_def upd)
  have lq: "length (concat (take q blocks)) = q * ?k"
    using length_concat_blocks [of "take q blocks" ?k] all len by (auto dest: in_set_takeD)
  show "fs_contents g = fs_contents f @ take avail src"
    unfolding fs_contents_def [of g] conc
    using pre lq last avail off by (simp add: g_def size poke_def)
  show "fs_inv g"
    using all i len avail off last size
    by (auto simp: fs_inv_def g_def dest!: set_update_subset_insert [THEN subsetD])
  show "fs_Append_loop f src = fs_Append_loop g (drop avail src)"
    using src by (subst fs_Append_loop.simps) (simp add: Let_def g_def i_def avail_def blocks_def offset_def)
  show "0 < avail" "avail \<le> length src" by (rule avail)+
qed

lemma fs_refs_update: "fs_refs (f\<lparr>fs_blocks := b, fs_size := n\<rparr>) = fs_refs f"
  by simp

lemma fs_Append_loop_eq:
  "fs_inv f \<Longrightarrow> fs_inv (fs_Append_loop f src) \<and> fs_contents (fs_Append_loop f src) = fs_contents f @ src
     \<and> fs_refs (fs_Append_loop f src) = fs_refs f"
proof (induction "length src" arbitrary: f src rule: less_induct)
  case less
  show ?case
  proof (cases "src = []")
    case False
    obtain g n where c: "fs_inv g" "fs_contents g = fs_contents f @ take n src" "fs_refs g = fs_refs f"
      "fs_Append_loop f src = fs_Append_loop g (drop n src)" "0 < n" "n \<le> length src"
      using that [OF fs_Append_chunk(1,2) [OF less.prems False] fs_refs_update
          fs_Append_chunk(3-5) [OF less.prems False]] .
    show ?thesis
      unfolding c(4) using less.hyps [OF _ c(1), of "drop n src"] c False by simp
  qed (simp add: fs_Append_loop.simps less.prems)
qed

lemma fs_inv_new [simp]: "fs_inv new_FileState" "fs_contents new_FileState = []" "fs_refs new_FileState = 0"
  by (simp_all add: fs_inv_def new_FileState_def fs_contents_def)

lemma fs_Truncate_inv [simp]:
  "fs_inv (fs_Truncate f)" "fs_contents (fs_Truncate f) = []" "fs_refs (fs_Truncate f) = fs_refs f"
  by (simp_all add: fs_inv_def fs_Truncate_def fs_contents_def)

lemma fs_refs_irrelevant [simp]:
  "fs_inv (f\<lparr>fs_refs := n\<rparr>) = fs_inv f" "fs_contents (f\<lparr>fs_refs := n\<rparr>) = fs_contents f"
  by (simp_all add: fs_inv_def fs_contents_def)

interpretation mem_writer: writable_file fs_Append wf_Flush fs_contents fs_inv
  by unfold_locales (simp_all add: fs_Append_def wf_Flush_def fs_Append_loop_eq)

interpretation mem_reader: sequential_file seq_Read seq_rest seq_ok
proof
  fix h :: "FileState \<times> nat" and n
  assume ok: "seq_ok h"
  obtain f pos where h: "h = (f, pos)" by (cases h)
  let ?r = "take n (drop pos (fs_contents f))"
  have len: "pos + length ?r \<le> fs_size f"
    using ok fs_contents_length [of f] by (auto simp: h seq_ok_def)
  have "drop (pos + length ?r) (fs_contents f) = drop n (drop pos (fs_contents f))"
    by (cases "n \<le> length (fs_contents f) - pos") (auto simp: add.commute)
  then show "\<exists>h'. seq_Read h n = (OK, take n (seq_rest h), h') \<and> seq_rest h' = drop n (seq_rest h) \<and> seq_ok h'"
    using ok len by (simp add: h seq_Read_def seq_ok_def seq_rest_def fs_Read_eq)
qed

lemma seq_Skip_eq:
  assumes "seq_ok h"
  shows "fst (seq_Skip h n) = OK \<and> seq_rest (snd (seq_Skip h n)) = drop n (seq_rest h) \<and> seq_ok (snd (seq_Skip h n))"
  using assms fs_contents_length [of "fst h"]
  by (auto simp: seq_Skip_def seq_ok_def seq_rest_def Let_def add.commute split: prod.splits)

section \<open>The sorted map of names\<close>

lemma names_sorted_less: "names_sorted ((k, v) # m) \<Longrightarrow> slice_compare k' k < 0 \<Longrightarrow> map_of m k' = None"
  using bytewise.cmp_less_trans [of k' k] by (fastforce simp: map_of_eq_None_iff slice_compare_eq_iff)

lemma names_sorted_same: "names_sorted ((k, v) # m) \<Longrightarrow> map_of m k = None"
  by (fastforce simp: map_of_eq_None_iff)

lemma map_of_fmap_set: "names_sorted m \<Longrightarrow> map_of (fmap_set m k v) = (map_of m)(k \<mapsto> v)"
proof (induction m k v rule: fmap_set.induct)
  case (2 k' v' m k v)
  then show ?case by (auto simp: fun_eq_iff)
qed auto

lemma map_of_fmap_erase: "names_sorted m \<Longrightarrow> map_of (fmap_erase m k) = (map_of m)(k := None)"
proof (induction m k rule: fmap_erase.induct)
  case (2 k' v' m k)
  then show ?case using names_sorted_same [of k' v' m] by (auto simp: fun_eq_iff)
qed simp

lemma set_fmap_erase: "set (fmap_erase m k) \<subseteq> set m"
  by (induction m k rule: fmap_erase.induct) auto

lemma set_fmap_set: "set (fmap_set m k v) \<subseteq> insert (k, v) (set m)"
  by (induction m k v rule: fmap_set.induct) auto

lemma names_sorted_erase: "names_sorted m \<Longrightarrow> names_sorted (fmap_erase m k)"
  by (induction m k rule: fmap_erase.induct) (use set_fmap_erase in fastforce)+

lemma names_sorted_set: "names_sorted m \<Longrightarrow> names_sorted (fmap_set m k v)"
proof (induction m k v rule: fmap_set.induct)
  case (2 k' v' m k v)
  consider "slice_compare k k' < 0" | "k = k'" | "slice_compare k' k < 0"
    using slice_compare_flip [of k k'] slice_compare_eq_iff [of k k'] by fastforce
  then show ?case
  proof cases
    case 1
    then show ?thesis using 2 bytewise.cmp_less_trans [OF 1] by auto
  next
    case 3
    then have "\<not> slice_compare k k' < 0" "k \<noteq> k'"
      using slice_compare_flip [of k k'] slice_compare_eq_iff [of k k'] by auto
    then show ?thesis using 2 3 set_fmap_set [of m k v] by fastforce
  qed (use 2 in auto)
qed simp

section \<open>Reference counts\<close>

lemma heap_ok_live:
  assumes "heap_ok hs R h" and "i \<in> set hs \<or> Some i \<in> R"
  obtains f where "i < length h" and "h ! i = Some f" and "fs_inv f"
    and "fs_refs f = int (count_list hs i + of_bool (Some i \<in> R))"
proof -
  have i: "i < length h" using assms by (auto simp: heap_ok_def)
  have "count_list hs i + of_bool (Some i \<in> R) \<noteq> 0"
    using assms(2) by (auto simp: count_list_0_iff)
  then show ?thesis
    using that [OF i] assms(1) i by (auto simp: heap_ok_def obj_ok_def split: option.splits)
qed

lemma heap_ok_update:
  assumes "heap_ok hs R h" and "i < length h"
    and "set hs' \<subseteq> insert i (set hs)" and "R' \<subseteq> insert (Some i) R"
    and "\<And>j. j \<noteq> i \<Longrightarrow> count_list hs' j = count_list hs j \<and> (Some j \<in> R' \<longleftrightarrow> Some j \<in> R)"
    and "obj_ok (count_list hs' i + of_bool (Some i \<in> R')) x"
  shows "heap_ok hs' R' (h[i := x])"
  unfolding heap_ok_def
proof (intro conjI allI impI)
  show "set hs' \<subseteq> {..<length (h[i := x])}" using assms(1-3) by (auto simp: heap_ok_def)
  show "R' \<subseteq> Some ` {..<length (h[i := x])}" using assms(1,2,4) by (auto simp: heap_ok_def)
  fix j
  assume "j < length (h[i := x])"
  then show "obj_ok (count_list hs' j + of_bool (Some j \<in> R')) (h[i := x] ! j)"
    using assms(1,2,5,6) by (cases "j = i") (auto simp: heap_ok_def)
qed

lemma heap_ok_obj: "heap_ok hs R h \<Longrightarrow> i < length h \<Longrightarrow> obj_ok (count_list hs i + of_bool (Some i \<in> R)) (h ! i)"
  by (simp add: heap_ok_def)

lemma heap_ok_write:
  assumes "heap_ok hs R h" "i < length h" "h ! i = Some f" "fs_inv g" "fs_refs g = fs_refs f"
  shows "heap_ok hs R (h[i := Some g])"
  by (rule heap_ok_update [OF assms(1,2)]) (use heap_ok_obj [OF assms(1,2)] assms in \<open>auto simp: obj_ok_def\<close>)

lemma heap_ok_ref:
  assumes "heap_ok hs R h" "i < length h" "h ! i = Some f"
  shows "heap_ok (i # hs) R (h[i := Some (f\<lparr>fs_refs := fs_refs f + 1\<rparr>)])"
  by (rule heap_ok_update [OF assms(1,2)]) (use heap_ok_obj [OF assms(1,2)] assms in \<open>auto simp: obj_ok_def\<close>)

lemma count_list_remove1:
  "i \<in> set hs \<Longrightarrow> count_list (remove1 i hs) j = (if i = j then count_list hs j - 1 else count_list hs j)"
  by (induction hs) (auto simp: count_list_0_iff)

lemma obj_ok_unref: "obj_ok (Suc n) (Some f) \<Longrightarrow> obj_ok n (unref_obj f)"
  by (auto simp: obj_ok_def unref_obj_def)

lemma heap_ok_unref_handle:
  assumes ok: "heap_ok hs R h" and i: "i \<in> set hs" and f: "h ! i = Some f"
  shows "heap_ok (remove1 i hs) R (h[i := unref_obj f])"
proof -
  have len: "i < length h" using ok i by (auto simp: heap_ok_def)
  have "0 < count_list hs i" using i by (metis count_list_0_iff neq0_conv)
  then obtain n where n: "count_list hs i = Suc n" by (metis Suc_pred)
  have "obj_ok (Suc (n + of_bool (Some i \<in> R))) (Some f)" using heap_ok_obj [OF ok len] f n by simp
  then show ?thesis
    using obj_ok_unref n i set_remove1_subset [of i hs]
    by (intro heap_ok_update [OF ok len]) (auto simp: count_list_remove1)
qed

lemma heap_ok_unref_name:
  assumes ok: "heap_ok hs R h" and i: "Some i \<in> R" and f: "h ! i = Some f"
  shows "heap_ok hs (R - {Some i}) (h[i := unref_obj f])"
proof -
  have len: "i < length h" using ok i by (auto simp: heap_ok_def)
  have "obj_ok (Suc (count_list hs i)) (Some f)" using heap_ok_obj [OF ok len] f i by simp
  then show ?thesis using obj_ok_unref by (intro heap_ok_update [OF ok len]) auto
qed

lemma heap_ok_alloc:
  assumes "heap_ok hs R h"
  shows "heap_ok hs (insert (Some (length h)) R) (h @ [Some (new_FileState\<lparr>fs_refs := 1\<rparr>)])"
  unfolding heap_ok_def
proof (intro conjI allI impI)
  have fresh: "count_list hs (length h) = 0" "Some (length h) \<notin> R"
    using assms by (auto simp: heap_ok_def count_list_0_iff)
  show "set hs \<subseteq> {..<length (h @ [Some (new_FileState\<lparr>fs_refs := 1\<rparr>)])}"
    using assms by (auto simp: heap_ok_def)
  show "insert (Some (length h)) R \<subseteq> Some ` {..<length (h @ [Some (new_FileState\<lparr>fs_refs := 1\<rparr>)])}"
    using assms by (auto simp: heap_ok_def)
  fix j
  assume "j < length (h @ [Some (new_FileState\<lparr>fs_refs := 1\<rparr>)])"
  then consider "j < length h" | "j = length h" by fastforce
  then show "obj_ok (count_list hs j + of_bool (Some j \<in> insert (Some (length h)) R))
      ((h @ [Some (new_FileState\<lparr>fs_refs := 1\<rparr>)]) ! j)"
    by cases (use heap_ok_obj [OF assms] fresh in \<open>auto simp: nth_append obj_ok_def\<close>)
qed

section \<open>The operations refine a map from names to contents\<close>

lemma env_name:
  assumes "env_inv hs env" and "map_of (file_map env) fname = Some p"
  obtains i f where "p = Some i" and "Some i \<in> ran (map_of (file_map env))" and "i < length (heap env)"
    and "heap env ! i = Some f" and "fs_inv f" and "env_abs env fname = Some (fs_contents f)"
proof -
  have p: "p \<in> ran (map_of (file_map env))" using assms(2) by (rule ranI)
  moreover obtain i where i: "p = Some i" using p assms(1) by (auto simp: env_inv_def heap_ok_def)
  moreover have "heap_ok hs (ran (map_of (file_map env))) (heap env)" using assms(1) by (simp add: env_inv_def)
  ultimately obtain f where "i < length (heap env)" "heap env ! i = Some f" "fs_inv f"
    by (metis heap_ok_live)
  then show ?thesis using that i p assms(2) by (simp add: env_abs_def deref_def)
qed

lemma env_handle:
  assumes "env_inv hs env" and "i \<in> set hs"
  obtains f where "i < length (heap env)" and "heap env ! i = Some f" and "fs_inv f"
  using assms unfolding env_inv_def by (metis heap_ok_live)

lemma env_abs_none: "env_inv hs env \<Longrightarrow> env_abs env k = None \<longleftrightarrow> map_of (file_map env) k = None"
  by (cases "map_of (file_map env) k") (simp add: env_abs_def, metis env_name option.distinct(1))

lemma file_map_store [simp]: "file_map (store env i x) = file_map env"
  by (simp add: store_def)

lemma heap_store [simp]: "heap (store env i x) = (heap env)[i := x]"
  by (simp add: store_def)

lemma env_abs_cong:
  "heap e = heap e' \<Longrightarrow> map_of (file_map e) k = map_of (file_map e') k \<Longrightarrow> env_abs e k = env_abs e' k"
proof -
  assume "heap e = heap e'"
  then have "deref e = deref e'" by (simp add: fun_eq_iff deref_def split: option.split)
  then show "map_of (file_map e) k = map_of (file_map e') k \<Longrightarrow> env_abs e k = env_abs e' k"
    by (simp add: env_abs_def)
qed

text \<open>A change of the object a name refers to changes what is stored under that name, and no other.\<close>

lemma env_abs_store:
  assumes "i < length (heap env)"
  shows "env_abs (store env i x) k
    = (if map_of (file_map env) k = Some (Some i) then map_option fs_contents x else env_abs env k)"
  using assms by (cases "map_of (file_map env) k") (auto simp: env_abs_def deref_def split: option.splits)

lemma env_abs_store_same:
  "i < length (heap env) \<Longrightarrow> heap env ! i = Some f \<Longrightarrow> fs_contents g = fs_contents f \<Longrightarrow>
     env_abs (store env i (Some g)) = env_abs env"
  by (auto simp: fun_eq_iff env_abs_store) (simp add: env_abs_def deref_def)

lemma fs_Ref_refines:
  assumes "env_inv hs env" and "i < length (heap env)" and "heap env ! i = Some f"
  shows "\<exists>env'. fs_Ref env (Some i) = Some env' \<and> env_inv (i # hs) env' \<and> env_abs env' = env_abs env
    \<and> file_map env' = file_map env"
  using assms env_abs_store_same [of i env f "f\<lparr>fs_refs := fs_refs f + 1\<rparr>"]
    heap_ok_ref [of hs "ran (map_of (file_map env))" "heap env" i f]
  by (auto simp: fs_Ref_def deref_def env_inv_def)

lemma fs_Unref_refines:
  assumes inv: "env_inv hs env" and i: "i \<in> set hs"
  shows "\<exists>env'. fs_Unref env (Some i) = Some env' \<and> env_inv (remove1 i hs) env' \<and> env_abs env' = env_abs env"
proof -
  obtain f where f: "i < length (heap env)" "heap env ! i = Some f" "fs_inv f"
    using env_handle [OF inv i] .
  let ?R = "ran (map_of (file_map env))"
  have ok: "heap_ok hs ?R (heap env)" using inv by (simp add: env_inv_def)
  have keep: "env_abs (store env i (unref_obj f)) k = env_abs env k" for k
  proof (cases "map_of (file_map env) k = Some (Some i)")
    case True
    then have "Some i \<in> ?R" by (rule ranI)
    moreover have "0 < count_list hs i" using i by (metis count_list_0_iff neq0_conv)
    ultimately have "unref_obj f = Some (f\<lparr>fs_refs := fs_refs f - 1\<rparr>)"
      using heap_ok_obj [OF ok f(1)] f(2) by (simp add: obj_ok_def unref_obj_def)
    then show ?thesis using True f by (simp add: env_abs_store) (simp add: env_abs_def deref_def)
  qed (simp add: env_abs_store f)
  show ?thesis
    using heap_ok_unref_handle [OF ok i f(2)] keep inv f
    by (auto simp: fs_Unref_def deref_def env_inv_def fun_eq_iff)
qed

lemma NewSequentialFile_refines:
  assumes inv: "env_inv hs env" and "env_abs env fname = Some c"
  shows "\<exists>i env'. env_NewSequentialFile env fname = Some (OK, Some i, env') \<and> env_inv (i # hs) env'
    \<and> env_abs env' = env_abs env \<and> map_of (file_map env') fname = Some (Some i)"
proof -
  obtain p where p: "map_of (file_map env) fname = Some p" using env_abs_none [OF inv, of fname] assms(2) by auto
  obtain i f where i: "p = Some i" "i < length (heap env)" "heap env ! i = Some f"
    using env_name [OF inv p] by metis
  show ?thesis using fs_Ref_refines [OF inv i(2,3)] p i(1) by (auto simp: env_NewSequentialFile_def)
qed

lemma NewRandomAccessFile_same: "env_NewRandomAccessFile = env_NewSequentialFile"
  by (simp add: fun_eq_iff env_NewRandomAccessFile_def env_NewSequentialFile_def)

lemma handle_Read_refines:
  assumes inv: "env_inv hs env" and name: "map_of (file_map env) fname = Some (Some i)"
    and c: "env_abs env fname = Some c" and "offset \<le> length c"
  shows "handle_Read env (Some i) offset n = Some (OK, take n (drop offset c))"
proof -
  obtain f where f: "i < length (heap env)" "heap env ! i = Some f" "fs_inv f" "c = fs_contents f"
    using env_name [OF inv name] c by (metis option.inject)
  then show ?thesis using assms(4) by (simp add: handle_Read_def deref_def fs_Read_eq fs_contents_length)
qed

lemma handle_Append_refines:
  assumes inv: "env_inv hs env" and i: "i \<in> set hs"
  shows "\<exists>env'. handle_Append env (Some i) data = Some (OK, env') \<and> env_inv hs env'
    \<and> file_map env' = file_map env
    \<and> env_abs env' = (\<lambda>k. if map_of (file_map env) k = Some (Some i)
                             then map_option (\<lambda>c. c @ data) (env_abs env k) else env_abs env k)"
proof -
  obtain f where f: "i < length (heap env)" "heap env ! i = Some f" "fs_inv f"
    using env_handle [OF inv i] .
  let ?g = "fs_Append_loop f data"
  have "env_inv hs (store env i (Some ?g))"
    using inv heap_ok_write [of hs "ran (map_of (file_map env))" "heap env" i f ?g] f fs_Append_loop_eq [OF f(3), of data]
    by (simp add: env_inv_def)
  moreover have "env_abs (store env i (Some ?g)) k
      = (if map_of (file_map env) k = Some (Some i)
         then map_option (\<lambda>c. c @ data) (env_abs env k) else env_abs env k)" for k
    using f fs_Append_loop_eq [OF f(3), of data] by (simp add: env_abs_store) (simp add: env_abs_def deref_def)
  ultimately show ?thesis
    using f by (simp add: handle_Append_def deref_def fs_Append_def fun_eq_iff)
qed

lemma NewWritableFile_refines:
  assumes inv: "env_inv hs env"
  shows "\<exists>i env'. env_NewWritableFile env fname = Some (OK, Some i, env') \<and> env_inv (i # hs) env'
    \<and> env_abs env' = (env_abs env)(fname \<mapsto> []) \<and> map_of (file_map env') fname = Some (Some i)"
proof (cases "map_of (file_map env) fname")
  case None
  let ?i = "length (heap env)" and ?m = "map_of (file_map env)"
  let ?e = "\<lparr>heap = heap env @ [Some (new_FileState\<lparr>fs_refs := 1\<rparr>)],
              file_map = fmap_set (file_map env) fname (Some ?i)\<rparr>"
  have sorted: "names_sorted (file_map env)" using inv by (simp add: env_inv_def)
  have ok: "heap_ok hs (ran ?m) (heap env)" using inv by (simp add: env_inv_def)
  have fresh: "?m k \<noteq> Some (Some ?i)" for k
    using ok by (auto simp: heap_ok_def dest: ranI)
  have ran: "ran (map_of (file_map ?e)) = insert (Some ?i) (ran ?m)"
    using None by (simp add: map_of_fmap_set [OF sorted])
  have inv': "env_inv hs ?e"
    using inv heap_ok_alloc [OF ok] names_sorted_set [OF sorted] fresh
    unfolding env_inv_def ran by (auto simp: map_of_fmap_set [OF sorted] split: if_splits)
  have abs: "env_abs ?e = (env_abs env)(fname \<mapsto> [])"
  proof
    fix k
    show "env_abs ?e k = ((env_abs env)(fname \<mapsto> [])) k"
    proof (cases "k = fname")
      case False
      then show ?thesis
        using ok by (cases "?m k")
          (auto simp: env_abs_def map_of_fmap_set [OF sorted] deref_def nth_append heap_ok_def dest: ranI split: option.splits)
    qed (simp add: env_abs_def map_of_fmap_set [OF sorted] deref_def nth_append)
  qed
  have "env_NewWritableFile env fname = map_option (\<lambda>e. (OK, Some ?i, e)) (fs_Ref ?e (Some ?i))"
    using None by (simp add: env_NewWritableFile_def new_file_def fs_Ref_def deref_def store_def nth_append
        list_update_append)
  then show ?thesis
    using fs_Ref_refines [OF inv', of ?i] abs by (auto simp: map_of_fmap_set [OF sorted] nth_append)
next
  case (Some p)
  obtain i f where i: "p = Some i" "i < length (heap env)" "heap env ! i = Some f"
    using env_name [OF inv Some] by metis
  let ?e = "store env i (Some (fs_Truncate f))"
  have inv': "env_inv hs ?e"
    using inv heap_ok_write [of hs "ran (map_of (file_map env))" "heap env" i f "fs_Truncate f"] i
    by (simp add: env_inv_def)
  have "env_abs ?e k = ((env_abs env)(fname \<mapsto> [])) k" for k
    using i Some inv by (auto simp: env_abs_store env_inv_def)
  then have abs: "env_abs ?e = (env_abs env)(fname \<mapsto> [])" by (simp add: fun_eq_iff)
  have "env_NewWritableFile env fname = map_option (\<lambda>e. (OK, Some i, e)) (fs_Ref ?e (Some i))"
    using Some i by (simp add: env_NewWritableFile_def deref_def)
  then show ?thesis
    using fs_Ref_refines [OF inv', of i] abs i Some by auto
qed

lemma RemoveFileInternal_refines:
  assumes inv: "env_inv hs env"
  shows "\<exists>env'. env_RemoveFileInternal env fname = Some env' \<and> env_inv hs env'
    \<and> env_abs env' = (env_abs env)(fname := None)
    \<and> map_of (file_map env') = (map_of (file_map env))(fname := None)"
proof (cases "map_of (file_map env) fname")
  case None
  then have "env_abs env fname = None" by (simp add: env_abs_def)
  then show ?thesis using inv None by (auto simp: env_RemoveFileInternal_def fun_eq_iff)
next
  case (Some p)
  let ?m = "map_of (file_map env)"
  obtain i f where i: "p = Some i" "Some i \<in> ran ?m" "i < length (heap env)" "heap env ! i = Some f"
    using env_name [OF inv Some] by metis
  have sorted: "names_sorted (file_map env)" and inj: "?m k = Some q \<Longrightarrow> ?m k' = Some q \<Longrightarrow> k = k'" for k k' q
    using inv by (auto simp: env_inv_def)
  let ?e = "store env i (unref_obj f)\<lparr>file_map := fmap_erase (file_map env) fname\<rparr>"
  have ran: "ran (?m(fname := None)) = ran ?m - {Some i}"
  proof (intro equalityI subsetI)
    fix x assume "x \<in> ran (?m(fname := None))"
    then obtain k where "k \<noteq> fname" "?m k = Some x" by (auto simp: ran_def split: if_splits)
    then show "x \<in> ran ?m - {Some i}" using inj [of k x fname] Some i(1) by (auto intro: ranI)
  next
    fix x assume "x \<in> ran ?m - {Some i}"
    then obtain k where "?m k = Some x" "x \<noteq> Some i" by (auto simp: ran_def)
    then have "(?m(fname := None)) k = Some x" using Some i(1) by auto
    then show "x \<in> ran (?m(fname := None))" by (rule ranI)
  qed
  have "env_inv hs ?e"
    unfolding env_inv_def
  proof (intro conjI)
    show "heap_ok hs (ran (map_of (file_map ?e))) (heap ?e)"
      using inv heap_ok_unref_name [of hs "ran ?m" "heap env" i f] i
      by (simp add: env_inv_def map_of_fmap_erase [OF sorted] ran del: fun_upd_apply)
    show "\<forall>k k' q. map_of (file_map ?e) k = Some q \<longrightarrow> map_of (file_map ?e) k' = Some q \<longrightarrow> k = k'"
      using inj by (auto simp: map_of_fmap_erase [OF sorted])
  qed (simp add: names_sorted_erase [OF sorted])
  moreover have "env_abs ?e k = ((env_abs env)(fname := None)) k" for k
  proof (cases "k = fname")
    case False
    then have "?m k \<noteq> Some (Some i)" using inj [of k p fname] Some i(1) by auto
    then show ?thesis
      using False env_abs_store [OF i(3), of "unref_obj f" k]
        env_abs_cong [of ?e "store env i (unref_obj f)" k] by (simp add: map_of_fmap_erase [OF sorted])
  qed (simp add: env_abs_def map_of_fmap_erase [OF sorted])
  moreover have "env_RemoveFileInternal env fname = Some ?e"
    using Some i by (simp add: env_RemoveFileInternal_def fs_Unref_def deref_def)
  ultimately show ?thesis by (simp add: fun_eq_iff map_of_fmap_erase [OF sorted])
qed

lemma RemoveFile_refines:
  assumes "env_inv hs env"
  shows "\<exists>env'. env_RemoveFile env fname
           = Some (if env_abs env fname = None then mk_status kIOError fname (lit ''File not found'') else OK, env')
    \<and> env_inv hs env' \<and> env_abs env' = (env_abs env)(fname := None)"
proof (cases "map_of (file_map env) fname = None")
  case True
  then have "env_abs env fname = None" using env_abs_none [OF assms] by simp
  then show ?thesis using True assms by (auto simp: env_RemoveFile_def fun_eq_iff)
next
  case False
  then have "env_abs env fname \<noteq> None" using env_abs_none [OF assms] by simp
  then show ?thesis
    using False RemoveFileInternal_refines [OF assms, of fname] by (auto simp: env_RemoveFile_def)
qed

text \<open>The second half of \<open>RenameFile\<close>: the target is free, and the name of the object changes.\<close>

lemma rename_entry:
  assumes inv: "env_inv hs env" and src: "map_of (file_map env) src = Some p"
    and "map_of (file_map env) target = None"
  defines "e \<equiv> env\<lparr>file_map := fmap_erase (fmap_set (file_map env) target p) src\<rparr>"
  shows "env_inv hs e" and "env_abs e = (env_abs env)(target := env_abs env src, src := None)"
proof -
  let ?m = "map_of (file_map env)"
  have sorted: "names_sorted (file_map env)" and inj: "?m k = Some q \<Longrightarrow> ?m k' = Some q \<Longrightarrow> k = k'" for k k' q
    using inv by (auto simp: env_inv_def)
  have ne: "src \<noteq> target" using assms by auto
  have m: "map_of (file_map e) = ?m(target \<mapsto> p, src := None)"
    by (simp add: e_def map_of_fmap_erase map_of_fmap_set sorted names_sorted_set)
  have ran: "ran (?m(target \<mapsto> p, src := None)) = ran ?m"
  proof (intro equalityI subsetI)
    fix x assume "x \<in> ran (?m(target \<mapsto> p, src := None))"
    then obtain k where "(?m(target \<mapsto> p, src := None)) k = Some x" by (auto simp: ran_def)
    then show "x \<in> ran ?m" using src by (auto split: if_splits intro: ranI)
  next
    fix x assume "x \<in> ran ?m"
    then obtain k where k: "?m k = Some x" by (auto simp: ran_def)
    have "(?m(target \<mapsto> p, src := None)) (if k = src then target else k) = Some x"
      using k src ne assms(3) by auto
    then show "x \<in> ran (?m(target \<mapsto> p, src := None))" by (rule ranI)
  qed
  show "env_inv hs e"
    unfolding env_inv_def m ran
  proof (intro conjI)
    show "heap_ok hs (ran ?m) (heap e)" using inv by (simp add: env_inv_def e_def)
    show "names_sorted (file_map e)" by (simp add: e_def names_sorted_erase names_sorted_set sorted)
    show "\<forall>k k' q. (?m(target \<mapsto> p, src := None)) k = Some q \<longrightarrow> (?m(target \<mapsto> p, src := None)) k' = Some q \<longrightarrow> k = k'"
      using inj [OF _ src] inj [OF src] inj by auto
  qed
  have "deref e = deref env" by (simp add: e_def fun_eq_iff deref_def split: option.split)
  then have "env_abs e k = Option.bind ((?m(target \<mapsto> p, src := None)) k) (\<lambda>p. map_option fs_contents (deref env p))" for k
    unfolding env_abs_def m by simp
  then show "env_abs e = (env_abs env)(target := env_abs env src, src := None)"
    using src by (auto simp: fun_eq_iff env_abs_def)
qed

lemma RenameFile_refines:
  assumes inv: "env_inv hs env" and ne: "src \<noteq> target"
  shows "\<exists>env'. env_RenameFile env src target
           = Some (if env_abs env src = None then mk_status kIOError src (lit ''File not found'') else OK, env')
    \<and> env_inv hs env'
    \<and> env_abs env' = (if env_abs env src = None then env_abs env
                       else (env_abs env)(target := env_abs env src, src := None))"
proof (cases "map_of (file_map env) src")
  case None
  then show ?thesis using inv env_abs_none [OF inv] by (simp add: env_RenameFile_def)
next
  case (Some p)
  obtain e where e: "env_RemoveFileInternal env target = Some e" "env_inv hs e"
    "env_abs e = (env_abs env)(target := None)"
    "map_of (file_map e) = (map_of (file_map env))(target := None)"
    using RemoveFileInternal_refines [OF inv] by blast
  have m: "map_of (file_map e) src = Some p" "map_of (file_map e) target = None"
    using e(4) Some ne by simp_all
  have "env_abs env src \<noteq> None" using env_abs_none [OF inv] Some by simp
  then show ?thesis
    using rename_entry [OF e(2) m] e(1,3) m Some ne by (auto simp: env_RenameFile_def fun_eq_iff)
qed

section \<open>Sessions\<close>

lemma env_inv_empty: "env_inv [] empty_env"
  by (simp add: env_inv_def empty_env_def heap_ok_def)

lemma NewSequentialFile_ok:
  "env_inv hs env \<Longrightarrow> env_NewSequentialFile env fname = Some (OK, p, env') \<Longrightarrow> env_abs env fname \<noteq> None"
  using env_abs_none [of hs env fname]
  by (auto simp: env_NewSequentialFile_def mk_status_def split: option.splits)

lemma env_step_inv:
  "env_step x y \<Longrightarrow> env_inv (fst x) (snd x) \<Longrightarrow> env_inv (fst y) (snd y)"
proof (induction rule: env_step.induct)
  case (open_write env fname i env' hs)
  then show ?case using NewWritableFile_refines [of hs env fname] by auto
next
  case (open_read env fname i env' hs)
  then show ?case using NewSequentialFile_ok NewSequentialFile_refines [of hs env fname] by fastforce
next
  case (open_random env fname i env' hs)
  then show ?case
    using NewSequentialFile_ok NewSequentialFile_refines [of hs env fname]
    unfolding NewRandomAccessFile_same by fastforce
next
  case (append i hs env data s env')
  then show ?case using handle_Append_refines [of hs env i data] by auto
next
  case (close i hs env env')
  then show ?case using fs_Unref_refines [of hs env i] by auto
next
  case (remove env fname s env' hs)
  then show ?case using RemoveFile_refines [of hs env fname] by auto
next
  case (rename src target env s env' hs)
  then show ?case using RenameFile_refines [of hs env src target] by auto
qed

lemma env_reachable_inv:
  assumes "env_step\<^sup>*\<^sup>* ([], empty_env) y"
  shows "env_inv (fst y) (snd y)"
  using assms by (induction rule: rtranclp_induct) (auto simp: env_inv_empty intro: env_step_inv)

lemma env_reachable: "env_step\<^sup>*\<^sup>* ([], empty_env) (hs, env) \<Longrightarrow> env_inv hs env"
  using env_reachable_inv by fastforce

lemma lost_append:
  assumes inv: "env_inv hs env" and "env_abs env fname = None"
    and "env_NewAppendableFile env fname = Some (s, p, env1)" and "handle_Append env1 p data = Some (s', env2)"
  shows "env_FileExists env2 fname" and "env_NewSequentialFile env2 fname = None"
proof -
  have none: "map_of (file_map env) fname = None" using env_abs_none [OF inv] assms(2) by simp
  have sorted: "names_sorted (file_map env)" using inv by (simp add: env_inv_def)
  have "map_of (file_map env1) fname = Some None"
    using assms(3) none
    by (auto simp: env_NewAppendableFile_def map_of_fmap_set [OF sorted] new_file_def fs_Ref_def
        deref_def Let_def split: option.splits)
  moreover have "file_map env2 = file_map env1"
    using assms(4) by (auto simp: handle_Append_def split: option.splits prod.splits)
  ultimately show "env_FileExists env2 fname" "env_NewSequentialFile env2 fname = None"
    by (simp_all add: env_FileExists_def env_NewSequentialFile_def fs_Ref_def deref_def)
qed

section \<open>Properties\<close>




lemma session_witness:
  "env_step\<^sup>*\<^sup>* ([], empty_env) ([0], \<lparr>heap = [Some (new_FileState\<lparr>fs_refs := 2\<rparr>)], file_map = [([7], Some 0)]\<rparr>)"
  by (rule r_into_rtranclp, rule env_step.open_write [where fname = "[7]"])
    (simp add: env_NewWritableFile_def empty_env_def new_file_def fs_Ref_def deref_def store_def new_FileState_def)


text \<open>
  C34. A file that \<open>NewAppendableFile\<close> creates is lost: its name is entered in the map with a null
  pointer, so that the file exists, and opening it for reading dereferences that pointer.
\<close>

theorem memenv_appendable_lost:
  assumes "env_step\<^sup>*\<^sup>* ([], empty_env) (hs, env)" and "env_abs env fname = None"
    and "env_NewAppendableFile env fname = Some (s, p, env1)" and "handle_Append env1 p data = Some (s', env2)"
  shows "env_FileExists env2 fname \<and> env_NewSequentialFile env2 fname = None"
  using lost_append [OF env_reachable [OF assms(1)] assms(2-4)] by simp

theorem memenv_appendable_lost_witness:
  "\<exists>s p env1 s' env2. env_NewAppendableFile empty_env [7] = Some (s, p, env1)
     \<and> handle_Append env1 p [1] = Some (s', env2) \<and> env_NewSequentialFile env2 [7] = None"
proof -
  obtain s p env1 where a: "env_NewAppendableFile empty_env [7] = Some (s, p, env1)"
    and p: "p = Some 0" "heap env1 \<noteq> []" "heap env1 ! 0 \<noteq> None"
    by (auto simp: env_NewAppendableFile_def empty_env_def new_file_def fs_Ref_def deref_def store_def)
  then obtain s' env2 where b: "handle_Append env1 p [1] = Some (s', env2)"
    by (auto simp: handle_Append_def deref_def fs_Append_def)
  have "env_abs empty_env [7] = None" by (simp add: env_abs_def empty_env_def)
  then show ?thesis using memenv_appendable_lost [OF rtranclp.rtrancl_refl _ a b] a b by blast
qed

end
