(* ===== verification/Filename.thy ===== *)
theory Filename
  imports MemEnv
begin

text \<open>
  \<open>util/logging.cc\<close> (numbers and escaped strings as text) and \<open>db/filename.cc\<close> (the names of the
  files of a database, and the switch of the \<open>CURRENT\<close> file). The environment is an argument of
  \<open>SetCurrentFile\<close>: the locale \<open>file_system\<close> states what it relies on, failures included, and the
  in-memory environment interprets it.
\<close>

section \<open>Text\<close>

text \<open>The digits of \<open>printf\<close>: \<open>%llu\<close>, \<open>%06llu\<close> and \<open>%02x\<close>.\<close>

fun decimal :: "nat \<Rightarrow> bytes" where
  "decimal n = (if n < 10 then [48 + of_nat n] else decimal (n div 10) @ [48 + of_nat (n mod 10)])"

declare decimal.simps [simp del]

definition decimal06 :: "nat \<Rightarrow> bytes" where
  "decimal06 n = replicate (6 - length (decimal n)) 48 @ decimal n"

definition hex_digit :: "nat \<Rightarrow> byte" where
  "hex_digit d = (if d < 10 then 48 + of_nat d else 87 + of_nat d)"

definition hex2 :: "byte \<Rightarrow> bytes" where
  "hex2 c = [hex_digit (unat c div 16), hex_digit (unat c mod 16)]"

definition AppendNumberTo :: "bytes \<Rightarrow> u64 \<Rightarrow> bytes" where
  "AppendNumberTo str num = str @ decimal (unat num)"

definition NumberToString :: "u64 \<Rightarrow> bytes" where
  "NumberToString num = AppendNumberTo [] num"

text \<open>\<open>char\<close> is signed: bytes from 128 on are below the blank.\<close>

fun AppendEscapedStringTo :: "bytes \<Rightarrow> bytes \<Rightarrow> bytes" where
  "AppendEscapedStringTo str [] = str"
| "AppendEscapedStringTo str (c # value) =
     AppendEscapedStringTo
       (if sint c \<ge> 32 \<and> sint c \<le> 126 \<and> c \<noteq> 92 \<and> c \<noteq> 39 \<and> c \<noteq> 34 then str @ [c]
        else str @ [92] @ lit ''x'' @ hex2 c) value"

definition EscapeString :: "bytes \<Rightarrow> bytes" where
  "EscapeString value = AppendEscapedStringTo [] value"

definition kMaxUint64 :: u64 where "kMaxUint64 = - 1"

fun ConsumeDecimalNumber_loop :: "bytes \<Rightarrow> u64 \<Rightarrow> (u64 \<times> bytes) option" where
  "ConsumeDecimalNumber_loop [] value = Some (value, [])"
| "ConsumeDecimalNumber_loop (ch # rest) value =
     (if ch < 48 \<or> ch > 57 then Some (value, ch # rest)
      else if value > kMaxUint64 div 10 \<or>
              (value = kMaxUint64 div 10 \<and> ch > 48 + ucast (kMaxUint64 mod 10)) then None
      else ConsumeDecimalNumber_loop rest (value * 10 + ucast (ch - 48)))"

text \<open>A failed parse leaves the input as it is and callers do not look at the value.\<close>

definition ConsumeDecimalNumber :: "bytes \<Rightarrow> (u64 \<times> bytes) option" where
  "ConsumeDecimalNumber inp =
     (case ConsumeDecimalNumber_loop inp 0 of
        None \<Rightarrow> None
      | Some (value, rest) \<Rightarrow> if length inp - length rest \<noteq> 0 then Some (value, rest) else None)"

section \<open>File names\<close>

datatype FileType = kLogFile | kDBLockFile | kTableFile | kDescriptorFile | kCurrentFile | kTempFile | kInfoLogFile

definition MakeFileName :: "bytes \<Rightarrow> u64 \<Rightarrow> string \<Rightarrow> bytes" where
  "MakeFileName dbname number suf = dbname @ (lit ''/'' @ decimal06 (unat number) @ lit ''.'' @ lit suf)"

definition LogFileName :: "bytes \<Rightarrow> u64 \<Rightarrow> bytes" where
  "LogFileName dbname number = MakeFileName dbname number ''log''"

definition TableFileName :: "bytes \<Rightarrow> u64 \<Rightarrow> bytes" where
  "TableFileName dbname number = MakeFileName dbname number ''ldb''"

definition SSTTableFileName :: "bytes \<Rightarrow> u64 \<Rightarrow> bytes" where
  "SSTTableFileName dbname number = MakeFileName dbname number ''sst''"

definition DescriptorFileName :: "bytes \<Rightarrow> u64 \<Rightarrow> bytes" where
  "DescriptorFileName dbname number = dbname @ (lit ''/MANIFEST-'' @ decimal06 (unat number))"

definition CurrentFileName :: "bytes \<Rightarrow> bytes" where
  "CurrentFileName dbname = dbname @ lit ''/CURRENT''"

definition LockFileName :: "bytes \<Rightarrow> bytes" where
  "LockFileName dbname = dbname @ lit ''/LOCK''"

definition TempFileName :: "bytes \<Rightarrow> u64 \<Rightarrow> bytes" where
  "TempFileName dbname number = MakeFileName dbname number ''dbtmp''"

definition InfoLogFileName :: "bytes \<Rightarrow> bytes" where
  "InfoLogFileName dbname = dbname @ lit ''/LOG''"

definition OldInfoLogFileName :: "bytes \<Rightarrow> bytes" where
  "OldInfoLogFileName dbname = dbname @ lit ''/LOG.old''"

definition ParseFileName :: "bytes \<Rightarrow> (u64 \<times> FileType) option" where
  "ParseFileName filename =
     (if slice_eq filename (lit ''CURRENT'') then Some (0, kCurrentFile)
      else if slice_eq filename (lit ''LOCK'') then Some (0, kDBLockFile)
      else if slice_eq filename (lit ''LOG'') \<or> slice_eq filename (lit ''LOG.old'') then Some (0, kInfoLogFile)
      else if starts_with filename (lit ''MANIFEST-'') then
        (case ConsumeDecimalNumber (drop (length (lit ''MANIFEST-'')) filename) of
           None \<Rightarrow> None
         | Some (num, rest) \<Rightarrow> if rest \<noteq> [] then None else Some (num, kDescriptorFile))
      else
        (case ConsumeDecimalNumber filename of
           None \<Rightarrow> None
         | Some (num, suf) \<Rightarrow>
             if slice_eq suf (lit ''.log'') then Some (num, kLogFile)
             else if slice_eq suf (lit ''.sst'') \<or> slice_eq suf (lit ''.ldb'') then Some (num, kTableFile)
             else if slice_eq suf (lit ''.dbtmp'') then Some (num, kTempFile)
             else None))"

section \<open>CURRENT\<close>

record 'e env_ops =
  WriteStringToFileSync :: "'e \<Rightarrow> bytes \<Rightarrow> bytes \<Rightarrow> status \<times> 'e"
  RenameFile :: "'e \<Rightarrow> bytes \<Rightarrow> bytes \<Rightarrow> status \<times> 'e"
  RemoveFile :: "'e \<Rightarrow> bytes \<Rightarrow> status \<times> 'e"

definition SetCurrentFile :: "'e env_ops \<Rightarrow> 'e \<Rightarrow> bytes \<Rightarrow> u64 \<Rightarrow> status \<times> 'e" where
  "SetCurrentFile ops env dbname descriptor_number =
     (let manifest = DescriptorFileName dbname descriptor_number;
          contents = drop (length dbname + 1) manifest;
          tmp = TempFileName dbname descriptor_number;
          (s, env1) = WriteStringToFileSync ops env (contents @ [10]) tmp;
          (s, env2) = (if status_ok s then RenameFile ops env1 tmp (CurrentFileName dbname) else (s, env1));
          env3 = (if \<not> status_ok s then snd (RemoveFile ops env2 tmp) else env2)
      in (s, env3))"

text \<open>
  \<open>util/env.cc\<close> over the in-memory environment. Its handles never fail, and closing and syncing a
  file do nothing.
\<close>

definition DoWriteStringToFile :: "MemEnv \<Rightarrow> bytes \<Rightarrow> bytes \<Rightarrow> (status \<times> MemEnv) option" where
  "DoWriteStringToFile env data fname =
     Option.bind (env_NewWritableFile env fname) (\<lambda>(s, file, env1).
       if \<not> status_ok s then Some (s, env1)
       else Option.bind (handle_Append env1 file data) (\<lambda>(s, env2).
         Option.bind (fs_Unref env2 file) (\<lambda>env3.
           if \<not> status_ok s
           then map_option (\<lambda>(_, env4). (s, env4)) (env_RemoveFile env3 fname)
           else Some (s, env3))))"

text \<open>\<open>ReadFileToString\<close>; the file cannot change while it is read.\<close>

function ReadFileToString_loop :: "FileState \<times> nat \<Rightarrow> bytes \<Rightarrow> status \<times> bytes" where
  "ReadFileToString_loop h data =
     (let (s, fragment, h1) = seq_Read h 8192
      in if \<not> status_ok s then (s, data)
         else if fragment = [] then (s, data @ fragment)
         else ReadFileToString_loop h1 (data @ fragment))"
  by pat_completeness auto
termination
proof (relation "measure (\<lambda>(h, _). fs_size (fst h) - snd h)", goal_cases)
  case (2 h data x s y fragment h1)
  obtain f pos where h: "h = (f, pos)" by (cases h)
  have "pos < fs_size f" "h1 = (f, pos + length fragment)"
    using 2 by (auto simp: h seq_Read_def fs_Read_def Let_def split: prod.splits if_splits)
  then show ?case using 2 by (cases fragment) (simp_all add: h)
qed simp

declare ReadFileToString_loop.simps [simp del]

definition ReadFileToString :: "MemEnv \<Rightarrow> bytes \<Rightarrow> (status \<times> bytes \<times> MemEnv) option" where
  "ReadFileToString env fname =
     Option.bind (env_NewSequentialFile env fname) (\<lambda>(s, file, env1).
       if \<not> status_ok s then Some (s, [], env1)
       else Option.bind (deref env1 file) (\<lambda>f.
         let (s, data) = ReadFileToString_loop (f, 0) []
         in map_option (\<lambda>env2. (s, data, env2)) (fs_Unref env1 file)))"

definition mem_env_ops :: "MemEnv env_ops" where
  "mem_env_ops =
     \<lparr>WriteStringToFileSync = (\<lambda>env data fname. the (DoWriteStringToFile env data fname)),
      RenameFile = (\<lambda>env src target. the (env_RenameFile env src target)),
      RemoveFile = (\<lambda>env fname. the (env_RemoveFile env fname))\<rparr>"

section \<open>The contracts\<close>

definition is_digit :: "byte \<Rightarrow> bool" where
  "is_digit c \<longleftrightarrow> 48 \<le> c \<and> c \<le> 57"

text \<open>The number a string of digits denotes, after \<open>v\<close>.\<close>

definition digits_value :: "nat \<Rightarrow> bytes \<Rightarrow> nat" where
  "digits_value v ds = foldl (\<lambda>a c. a * 10 + (unat c - 48)) v ds"

locale file_system =
  fixes ops :: "'e env_ops" and files :: "'e \<Rightarrow> bytes \<Rightarrow> bytes option" and env_ok :: "'e \<Rightarrow> bool"
  assumes write_law: "env_ok e \<Longrightarrow> \<exists>s e'. WriteStringToFileSync ops e data f = (s, e') \<and> env_ok e'
      \<and> (\<forall>g. g \<noteq> f \<longrightarrow> files e' g = files e g) \<and> (s = OK \<longrightarrow> files e' f = Some data)"
    and rename_law: "env_ok e \<Longrightarrow> f \<noteq> g \<Longrightarrow> \<exists>s e'. RenameFile ops e f g = (s, e') \<and> env_ok e'
      \<and> (s = OK \<longrightarrow> files e' = (files e)(g := files e f, f := None)) \<and> (s \<noteq> OK \<longrightarrow> files e' = files e)"
    and remove_law: "env_ok e \<Longrightarrow> \<exists>s e'. RemoveFile ops e f = (s, e') \<and> env_ok e'
      \<and> (\<forall>g. g \<noteq> f \<longrightarrow> files e' g = files e g)"
begin

lemma SetCurrentFile_atomic:
  assumes "env_ok e" and "SetCurrentFile ops e dbname n = (s, e')"
  shows "env_ok e'"
    and "files e' (CurrentFileName dbname)
      = (if s = OK then Some (lit ''MANIFEST-'' @ decimal06 (unat n) @ [10]) else files e (CurrentFileName dbname))"
    and "f \<noteq> CurrentFileName dbname \<Longrightarrow> f \<noteq> TempFileName dbname n \<Longrightarrow> files e' f = files e f"
    and "s = OK \<Longrightarrow> files e' (TempFileName dbname n) = None"
proof -
  let ?tmp = "TempFileName dbname n" and ?cur = "CurrentFileName dbname"
  let ?data = "drop (length dbname + 1) (DescriptorFileName dbname n) @ [10]"
  have ne: "?tmp \<noteq> ?cur"
  proof
    assume "?tmp = ?cur"
    then have "last ?tmp = last ?cur" by simp
    then show False by (simp add: TempFileName_def CurrentFileName_def MakeFileName_def lit_def)
  qed
  have data: "?data = lit ''MANIFEST-'' @ decimal06 (unat n) @ [10]"
    by (simp add: DescriptorFileName_def lit_def)
  obtain s1 e1 where w: "WriteStringToFileSync ops e ?data ?tmp = (s1, e1)" "env_ok e1"
    "\<And>g. g \<noteq> ?tmp \<Longrightarrow> files e1 g = files e g" "s1 = OK \<Longrightarrow> files e1 ?tmp = Some ?data"
    using write_law [OF assms(1)] by blast
  obtain s2 e2 where r: "RenameFile ops e1 ?tmp ?cur = (s2, e2)" "env_ok e2"
    "s2 = OK \<Longrightarrow> files e2 = (files e1)(?cur := files e1 ?tmp, ?tmp := None)" "s2 \<noteq> OK \<Longrightarrow> files e2 = files e1"
    using rename_law [OF w(2) ne] by blast
  let ?e = "if s1 = OK then e2 else e1"
  have "env_ok ?e" using w r by simp
  then obtain s3 e3 where d: "RemoveFile ops ?e ?tmp = (s3, e3)" "env_ok e3"
    "\<And>g. g \<noteq> ?tmp \<Longrightarrow> files e3 g = files ?e g"
    using remove_law by blast
  have res: "s = (if s1 = OK then s2 else s1)" "e' = (if s = OK then e2 else e3)"
    using assms(2) w(1) r(1) d(1) by (auto simp: SetCurrentFile_def status_ok_def split: if_splits)
  show "env_ok e'" using res w r d by simp
  show "files e' ?cur = (if s = OK then Some (lit ''MANIFEST-'' @ decimal06 (unat n) @ [10]) else files e ?cur)"
    using res w(3,4) r(3,4) d(3) ne data by (auto split: if_splits)
  show "f \<noteq> ?cur \<Longrightarrow> f \<noteq> ?tmp \<Longrightarrow> files e' f = files e f"
    using res w(3) r(3,4) d(3) by (auto split: if_splits)
  show "s = OK \<Longrightarrow> files e' ?tmp = None" using res r(3) by (auto split: if_splits)
qed

end

section \<open>Numbers as text\<close>

lemma decimal_nonempty [simp]: "decimal n \<noteq> []"
  by (subst decimal.simps) simp

lemma digit_char: "d < 10 \<Longrightarrow> is_digit (48 + of_nat d) \<and> unat (48 + of_nat d :: byte) = 48 + d"
  by (simp add: is_digit_def word_le_nat_alt unat_word_ariths unat_of_nat)

lemma decimal_digits: "\<forall>c \<in> set (decimal n). is_digit c"
proof (induction n rule: decimal.induct)
  case (1 n)
  then show ?case using digit_char [of n] digit_char [of "n mod 10"] by (subst decimal.simps) auto
qed

lemma digits_value_decimal: "digits_value 0 (decimal n) = n"
proof (induction n rule: decimal.induct)
  case (1 n)
  then show ?case
    using digit_char [of n] digit_char [of "n mod 10"] by (subst decimal.simps) (auto simp: digits_value_def)
qed

lemma digits_value_zeros [simp]: "digits_value 0 (replicate k 48 @ ds) = digits_value 0 ds"
  by (induction k) (simp_all add: digits_value_def)

lemma decimal06_digits: "\<forall>c \<in> set (decimal06 n). is_digit c" "decimal06 n \<noteq> []" "digits_value 0 (decimal06 n) = n"
  using decimal_digits [of n] digits_value_decimal [of n]
  by (auto simp: decimal06_def is_digit_def)

lemma digits_value_ge: "v \<le> digits_value v ds"
proof (induction ds arbitrary: v)
  case (Cons c ds)
  have "v \<le> v * 10 + (unat c - 48)" by simp
  also have "\<dots> \<le> digits_value v (c # ds)" using Cons [of "v * 10 + (unat c - 48)"] by (simp add: digits_value_def)
  finally show ?case .
qed (simp add: digits_value_def)

lemma overflow_check:
  fixes v :: u64 and ch :: byte
  assumes "is_digit ch"
  shows "(v > kMaxUint64 div 10 \<or> (v = kMaxUint64 div 10 \<and> ch > 48 + ucast (kMaxUint64 mod 10)))
    \<longleftrightarrow> 2 ^ 64 \<le> unat v * 10 + (unat ch - 48)"
proof -
  have max: "unat (kMaxUint64 div 10) = 1844674407370955161" "48 + ucast (kMaxUint64 mod 10) = (53 :: byte)"
    by (simp_all add: kMaxUint64_def)
  have ch: "48 \<le> unat ch" "unat ch \<le> 57" using assms by (simp_all add: is_digit_def word_le_nat_alt)
  show ?thesis
    unfolding word_less_nat_alt [of _ v] max word_less_nat_alt [of _ ch] word_unat_eq_iff
    using ch by (simp add: max) linarith
qed

lemma Consume_loop_eq:
  "ConsumeDecimalNumber_loop xs v =
     (if digits_value (unat v) (takeWhile is_digit xs) < 2 ^ 64
      then Some (of_nat (digits_value (unat v) (takeWhile is_digit xs)), dropWhile is_digit xs) else None)"
proof (induction xs arbitrary: v)
  case (Cons ch xs)
  show ?case
  proof (cases "is_digit ch")
    case False
    then show ?thesis
      using unat_less [of v] by (auto simp: is_digit_def not_le digits_value_def)
  next
    case True
    let ?w = "unat v * 10 + (unat ch - 48)"
    have ch: "\<not> (ch < 48 \<or> ch > 57)" "48 \<le> ch" using True by (auto simp: is_digit_def)
    show ?thesis
    proof (cases "2 ^ 64 \<le> ?w")
      case big: True
      then have "\<not> digits_value (unat v) (takeWhile is_digit (ch # xs)) < 2 ^ 64"
        using digits_value_ge [of ?w "takeWhile is_digit xs"] True by (simp add: digits_value_def)
      then show ?thesis using big overflow_check [OF True] ch by simp
    next
      case False
      have "unat (ucast (ch - 48) :: u64) = unat ch - 48"
        using ch(2) by (simp add: unat_ucast unat_sub) (use unat_less [of ch] in simp)
      then have "unat (v * 10 + ucast (ch - 48)) = ?w"
        using False by (simp add: unat_word_ariths)
      then have "ConsumeDecimalNumber_loop xs (v * 10 + ucast (ch - 48)) =
          (if digits_value ?w (takeWhile is_digit xs) < 2 ^ 64
           then Some (of_nat (digits_value ?w (takeWhile is_digit xs)), dropWhile is_digit xs) else None)"
        using Cons [of "v * 10 + ucast (ch - 48)"] by simp
      moreover have "ConsumeDecimalNumber_loop (ch # xs) v = ConsumeDecimalNumber_loop xs (v * 10 + ucast (ch - 48))"
        using False overflow_check [OF True, of v] ch
        by (simp only: ConsumeDecimalNumber_loop.simps if_False simp_thms)
      ultimately show ?thesis using True by (simp add: digits_value_def)
    qed
  qed
next
  case Nil
  show ?case using unat_less [of v] by (simp add: digits_value_def)
qed

lemma Consume_eq:
  "ConsumeDecimalNumber xs =
     (let ds = takeWhile is_digit xs; n = digits_value 0 ds
      in if ds \<noteq> [] \<and> n < 2 ^ 64 then Some (of_nat n, dropWhile is_digit xs) else None)"
proof -
  have "length xs - length (dropWhile is_digit xs) = length (takeWhile is_digit xs)"
    by (metis add_diff_cancel_right' length_append takeWhile_dropWhile_id)
  then have "length xs - length (dropWhile is_digit xs) \<noteq> 0 \<longleftrightarrow> takeWhile is_digit xs \<noteq> []" by simp
  then show ?thesis
    unfolding ConsumeDecimalNumber_def Consume_loop_eq Let_def by (simp only: unat_0) (simp del: diff_is_0_eq)
qed

lemma Consume_digits:
  assumes "\<forall>c \<in> set ds. is_digit c" and "ds \<noteq> []" and "digits_value 0 ds < 2 ^ 64"
    and "rest \<noteq> [] \<longrightarrow> \<not> is_digit (hd rest)"
  shows "ConsumeDecimalNumber (ds @ rest) = Some (of_nat (digits_value 0 ds), rest)"
proof -
  have "takeWhile is_digit (ds @ rest) = ds" "dropWhile is_digit (ds @ rest) = rest"
    using assms(1,4) by (induction ds) (cases rest; simp)+
  then show ?thesis using assms(2,3) by (simp add: Consume_eq)
qed

lemma Consume_decimal06:
  "rest \<noteq> [] \<longrightarrow> \<not> is_digit (hd rest) \<Longrightarrow> ConsumeDecimalNumber (decimal06 (unat n) @ rest) = Some (n, rest)"
  for n :: u64
  using Consume_digits [of "decimal06 (unat n)" rest] decimal06_digits [of "unat n"] unat_less [of n] by simp

lemma digits_not_name:
  assumes "\<forall>c \<in> set ds. is_digit c" and "ds \<noteq> []" and "name \<noteq> []" and "\<not> is_digit (hd name)"
  shows "ds @ rest \<noteq> name" and "take (length name) (ds @ rest) \<noteq> name"
  using assms by (cases ds; cases name; auto)+

lemma lit_names [simp]:
  "lit ''CURRENT'' = [67, 85, 82, 82, 69, 78, 84]" "lit ''LOCK'' = [76, 79, 67, 75]" "lit ''LOG'' = [76, 79, 71]"
  "lit ''LOG.old'' = [76, 79, 71, 46, 111, 108, 100]"
  "lit ''MANIFEST-'' = [77, 65, 78, 73, 70, 69, 83, 84, 45]"
  "lit ''.log'' = [46, 108, 111, 103]" "lit ''.sst'' = [46, 115, 115, 116]" "lit ''.ldb'' = [46, 108, 100, 98]"
  "lit ''.dbtmp'' = [46, 100, 98, 116, 109, 112]"
  by (simp_all add: lit_def)

lemma ParseFileName_number:
  fixes n :: u64
  assumes "rest \<noteq> [] \<longrightarrow> \<not> is_digit (hd rest)"
  shows "ParseFileName (decimal06 (unat n) @ rest) =
    (if rest = lit ''.log'' then Some (n, kLogFile)
     else if rest = lit ''.sst'' \<or> rest = lit ''.ldb'' then Some (n, kTableFile)
     else if rest = lit ''.dbtmp'' then Some (n, kTempFile) else None)"
proof -
  have other: "decimal06 (unat n) @ rest \<noteq> name \<and> take (length name) (decimal06 (unat n) @ rest) \<noteq> name"
    if "name \<noteq> []" "\<not> is_digit (hd name)" for name
    using digits_not_name [OF decimal06_digits(1,2) that] by blast
  have names: "decimal06 (unat n) @ rest \<noteq> lit ''CURRENT''" "decimal06 (unat n) @ rest \<noteq> lit ''LOCK''"
    "decimal06 (unat n) @ rest \<noteq> lit ''LOG''" "decimal06 (unat n) @ rest \<noteq> lit ''LOG.old''"
    "take (length (lit ''MANIFEST-'')) (decimal06 (unat n) @ rest) \<noteq> lit ''MANIFEST-''"
    using other [of "lit ''CURRENT''"] other [of "lit ''LOCK''"] other [of "lit ''LOG''"]
      other [of "lit ''LOG.old''"] other [of "lit ''MANIFEST-''"] by (simp_all add: is_digit_def)
  show ?thesis
    unfolding ParseFileName_def slice_eq_iff starts_with_iff Consume_decimal06 [OF assms] option.case prod.case
    by (simp only: names if_False simp_thms)
qed

section \<open>The environment\<close>

lemma DoWriteStringToFile_refines:
  assumes "env_inv hs env"
  shows "\<exists>env'. DoWriteStringToFile env data fname = Some (OK, env') \<and> env_inv hs env'
    \<and> env_abs env' = (env_abs env)(fname \<mapsto> data)"
proof -
  obtain i e1 where w: "env_NewWritableFile env fname = Some (OK, Some i, e1)" "env_inv (i # hs) e1"
    "env_abs e1 = (env_abs env)(fname \<mapsto> [])" "map_of (file_map e1) fname = Some (Some i)"
    using NewWritableFile_refines [OF assms] by blast
  obtain e2 where a: "handle_Append e1 (Some i) data = Some (OK, e2)" "env_inv (i # hs) e2"
    "env_abs e2 = (\<lambda>k. if map_of (file_map e1) k = Some (Some i)
                       then map_option (\<lambda>c. c @ data) (env_abs e1 k) else env_abs e1 k)"
    using handle_Append_refines [OF w(2), of i data] by auto
  obtain e3 where u: "fs_Unref e2 (Some i) = Some e3" "env_inv hs e3" "env_abs e3 = env_abs e2"
    using fs_Unref_refines [OF a(2), of i] by auto
  have only: "map_of (file_map e1) k = Some (Some i) \<longleftrightarrow> k = fname" for k
    using w(2,4) by (auto simp: env_inv_def)
  have "env_abs e3 = (env_abs env)(fname \<mapsto> data)"
    unfolding u(3) a(3) only w(3) by (auto simp: fun_eq_iff)
  then show ?thesis using w(1) a(1) u(1,2) by (simp add: DoWriteStringToFile_def)
qed

lemma ReadFileToString_loop_eq:
  "seq_ok h \<Longrightarrow> ReadFileToString_loop h data = (OK, data @ seq_rest h)"
proof (induction h data rule: ReadFileToString_loop.induct)
  case (1 h data)
  obtain h' where h': "seq_Read h 8192 = (OK, take 8192 (seq_rest h), h')"
    "seq_rest h' = drop 8192 (seq_rest h)" "seq_ok h'"
    using mem_reader.rd_law [OF "1.prems", of 8192] by blast
  show ?case
  proof (cases "seq_rest h = []")
    case True
    then show ?thesis using h' by (subst ReadFileToString_loop.simps) simp
  next
    case False
    then have "ReadFileToString_loop h' (data @ take 8192 (seq_rest h)) = (OK, data @ seq_rest h)"
      using "1.IH" [OF h'(1) [symmetric] refl refl] h' by simp
    then show ?thesis using h' False by (subst ReadFileToString_loop.simps) simp
  qed
qed

lemma ReadFileToString_refines:
  assumes inv: "env_inv hs env" and c: "env_abs env fname = Some c"
  shows "\<exists>env'. ReadFileToString env fname = Some (OK, c, env') \<and> env_inv hs env' \<and> env_abs env' = env_abs env"
proof -
  obtain i e1 where r: "env_NewSequentialFile env fname = Some (OK, Some i, e1)" "env_inv (i # hs) e1"
    "env_abs e1 = env_abs env" "map_of (file_map e1) fname = Some (Some i)"
    using NewSequentialFile_refines [OF assms] by blast
  obtain f where f: "i < length (heap e1)" "heap e1 ! i = Some f" "fs_inv f" "c = fs_contents f"
    using env_name [OF r(2,4)] r(3) c by (metis option.inject)
  obtain e2 where u: "fs_Unref e1 (Some i) = Some e2" "env_inv hs e2" "env_abs e2 = env_abs e1"
    using fs_Unref_refines [OF r(2), of i] by auto
  have "ReadFileToString_loop (f, 0) [] = (OK, c)"
    using ReadFileToString_loop_eq [of "(f, 0)" "[]"] f by (simp add: seq_ok_def seq_rest_def)
  then show ?thesis using r(1,3) f u by (simp add: ReadFileToString_def deref_def)
qed

interpretation mem_fs: file_system mem_env_ops env_abs "env_inv []"
proof
  fix e :: MemEnv and f g data :: bytes
  assume e: "env_inv [] e"
  show "\<exists>s e'. WriteStringToFileSync mem_env_ops e data f = (s, e') \<and> env_inv [] e'
      \<and> (\<forall>g. g \<noteq> f \<longrightarrow> env_abs e' g = env_abs e g) \<and> (s = OK \<longrightarrow> env_abs e' f = Some data)"
    using DoWriteStringToFile_refines [OF e, of data f] by (auto simp: mem_env_ops_def)
  show "\<exists>s e'. RemoveFile mem_env_ops e f = (s, e') \<and> env_inv [] e' \<and> (\<forall>g. g \<noteq> f \<longrightarrow> env_abs e' g = env_abs e g)"
    using RemoveFile_refines [OF e, of f] by (auto simp: mem_env_ops_def)
  show "f \<noteq> g \<Longrightarrow> \<exists>s e'. RenameFile mem_env_ops e f g = (s, e') \<and> env_inv [] e'
      \<and> (s = OK \<longrightarrow> env_abs e' = (env_abs e)(g := env_abs e f, f := None)) \<and> (s \<noteq> OK \<longrightarrow> env_abs e' = env_abs e)"
    using RenameFile_refines [OF e, of f g] by (auto simp: mem_env_ops_def mk_status_def)
qed

section \<open>Properties\<close>

text \<open>
  C32. Parsing gives back the number and the type a file name was made from, for every 64-bit number
  and every kind of file the database creates.
\<close>

theorem file_name_round_trip:
  "ParseFileName (drop (length dbname + 1) (LogFileName dbname n)) = Some (n, kLogFile)
   \<and> ParseFileName (drop (length dbname + 1) (TableFileName dbname n)) = Some (n, kTableFile)
   \<and> ParseFileName (drop (length dbname + 1) (SSTTableFileName dbname n)) = Some (n, kTableFile)
   \<and> ParseFileName (drop (length dbname + 1) (TempFileName dbname n)) = Some (n, kTempFile)
   \<and> ParseFileName (drop (length dbname + 1) (DescriptorFileName dbname n)) = Some (n, kDescriptorFile)
   \<and> ParseFileName (drop (length dbname + 1) (CurrentFileName dbname)) = Some (0, kCurrentFile)
   \<and> ParseFileName (drop (length dbname + 1) (LockFileName dbname)) = Some (0, kDBLockFile)
   \<and> ParseFileName (drop (length dbname + 1) (InfoLogFileName dbname)) = Some (0, kInfoLogFile)
   \<and> ParseFileName (drop (length dbname + 1) (OldInfoLogFileName dbname)) = Some (0, kInfoLogFile)"
proof -
  have num: "drop (length dbname + 1) (MakeFileName dbname n suf) = decimal06 (unat n) @ lit (''.'' @ suf)" for suf
    by (simp add: MakeFileName_def lit_def)
  have dot: "lit (''.'' @ suf) \<noteq> [] \<longrightarrow> \<not> is_digit (hd (lit (''.'' @ suf)))" for suf
    by (simp add: lit_def is_digit_def)
  have desc: "ParseFileName (drop (length dbname + 1) (DescriptorFileName dbname n)) = Some (n, kDescriptorFile)"
    using Consume_decimal06 [of "[]" n]
    by (simp add: DescriptorFileName_def ParseFileName_def slice_eq_iff starts_with_iff lit_def)
  show ?thesis
    unfolding LogFileName_def TableFileName_def SSTTableFileName_def TempFileName_def num ParseFileName_number [OF dot]
    using desc by (simp add: CurrentFileName_def LockFileName_def InfoLogFileName_def OldInfoLogFileName_def
        ParseFileName_def slice_eq_iff lit_def)
qed

text \<open>
  C33. \<open>ConsumeDecimalNumber\<close> accepts exactly the inputs that start with a digit and whose leading
  digits denote a number below 2^64, and then returns that number and what follows the digits.
\<close>

theorem consume_decimal_exact:
  "ConsumeDecimalNumber xs =
     (let ds = takeWhile is_digit xs; n = digits_value 0 ds
      in if ds \<noteq> [] \<and> n < 2 ^ 64 then Some (of_nat n, dropWhile is_digit xs) else None)"
  by (rule Consume_eq)

text \<open>
  C31. The switch of \<open>CURRENT\<close> is all or nothing: over every environment whose operations may fail but
  keep their contract, \<open>CURRENT\<close> names the new descriptor if the switch succeeds and is unchanged
  otherwise, no other file changes, and no temporary file is left after success.
\<close>

theorem set_current_file_atomic:
  assumes "file_system ops files env_ok" and "env_ok e" and "SetCurrentFile ops e dbname n = (s, e')"
    and "f \<noteq> CurrentFileName dbname" and "f \<noteq> TempFileName dbname n"
  shows "files e' (CurrentFileName dbname)
      = (if s = OK then Some (lit ''MANIFEST-'' @ decimal06 (unat n) @ [10]) else files e (CurrentFileName dbname))
    \<and> files e' f = files e f \<and> (s = OK \<longrightarrow> files e' (TempFileName dbname n) = None)"
  using file_system.SetCurrentFile_atomic [OF assms(1-3)] assms(4,5) by blast

theorem set_current_file_atomic_witness:
  "let (s, e') = SetCurrentFile mem_env_ops empty_env [100] 5
   in env_abs e' (CurrentFileName [100]) = (if s = OK then Some (lit ''MANIFEST-000005'' @ [10]) else None)"
proof -
  obtain s e' where e: "SetCurrentFile mem_env_ops empty_env [100] 5 = (s, e')" by fastforce
  have "env_abs empty_env (CurrentFileName [100]) = None" by (simp add: env_abs_def empty_env_def)
  moreover have "[] \<noteq> CurrentFileName [100]" "[] \<noteq> TempFileName [100] 5"
    by (simp_all add: CurrentFileName_def TempFileName_def MakeFileName_def)
  moreover have "decimal06 5 = lit ''000005''" by (simp add: decimal06_def decimal.simps lit_def numeral_eq_Suc)
  ultimately show ?thesis
    using set_current_file_atomic [OF mem_fs.file_system_axioms env_inv_empty e] e by (simp add: lit_def)
qed

end
