(* ===== verification/LogWriter.thy ===== *)
theory LogWriter
  imports Coding Crc32c MemEnv
begin

text \<open>
  The write-ahead log: \<open>db/log_format.h\<close> and \<open>db/log_writer.cc\<close>. A log is a sequence of 32 KiB blocks;
  a record is cut into fragments that never cross a block, each behind a header of a masked checksum,
  a length and a type. The file is an argument of the definitions: its append and its flush. What the
  writer leaves in a file is the layout of the fragments of its records.
\<close>

section \<open>Format\<close>

datatype RecordType = kZeroType | kFullType | kFirstType | kMiddleType | kLastType

fun record_type_code :: "RecordType \<Rightarrow> u32" where
  "record_type_code kZeroType = 0"
| "record_type_code kFullType = 1"
| "record_type_code kFirstType = 2"
| "record_type_code kMiddleType = 3"
| "record_type_code kLastType = 4"

definition kMaxRecordType :: u32 where "kMaxRecordType = record_type_code kLastType"

definition kBlockSize :: nat where "kBlockSize = 32768"

definition kHeaderSize :: nat where "kHeaderSize = 4 + 2 + 1"

section \<open>Writer\<close>

record 'd Writer =
  dest :: 'd
  block_offset :: nat
  type_crc :: "u32 list"

definition InitTypeCrc :: "u32 list" where
  "InitTypeCrc = map (\<lambda>i. crc_Value [of_nat i]) [0..<unat kMaxRecordType + 1]"

definition new_Writer :: "'d \<Rightarrow> 'd Writer" where
  "new_Writer d = \<lparr>dest = d, block_offset = 0, type_crc = InitTypeCrc\<rparr>"

definition reopen_Writer :: "'d \<Rightarrow> nat \<Rightarrow> 'd Writer" where
  "reopen_Writer d dest_length = \<lparr>dest = d, block_offset = dest_length mod kBlockSize, type_crc = InitTypeCrc\<rparr>"

definition EmitPhysicalRecord ::
  "('d \<Rightarrow> bytes \<Rightarrow> status \<times> 'd) \<Rightarrow> ('d \<Rightarrow> status \<times> 'd) \<Rightarrow> 'd Writer \<Rightarrow> RecordType \<Rightarrow> bytes \<Rightarrow> status \<times> 'd Writer" where
  "EmitPhysicalRecord app flush w t ptr =
     (let buf456 = [of_nat (length ptr) AND 255, of_nat (length ptr div 256), ucast (record_type_code t)];
          crc = Mask (crc_Extend (type_crc w ! unat (record_type_code t)) ptr);
          (s, d1) = app (dest w) (EncodeFixed32 crc @ buf456);
          (s, d2) = (if status_ok s then app d1 ptr else (s, d1));
          (s, d3) = (if status_ok s then flush d2 else (s, d2))
      in (s, w\<lparr>dest := d3, block_offset := block_offset w + kHeaderSize + length ptr\<rparr>))"

definition fill_trailer :: "('d \<Rightarrow> bytes \<Rightarrow> status \<times> 'd) \<Rightarrow> 'd Writer \<Rightarrow> 'd Writer" where
  "fill_trailer app w =
     (let leftover = kBlockSize - block_offset w
      in if leftover < kHeaderSize
         then w\<lparr>dest := (if leftover > 0 then snd (app (dest w) (replicate leftover 0)) else dest w),
                block_offset := 0\<rparr>
         else w)"

function AddRecord_loop ::
  "('d \<Rightarrow> bytes \<Rightarrow> status \<times> 'd) \<Rightarrow> ('d \<Rightarrow> status \<times> 'd) \<Rightarrow> 'd Writer \<Rightarrow> bytes \<Rightarrow> bool \<Rightarrow> status \<times> 'd Writer" where
  "AddRecord_loop app flush w ptr begin_record =
     (let w1 = fill_trailer app w;
          avail = kBlockSize - block_offset w1 - kHeaderSize;
          fragment_length = (if length ptr < avail then length ptr else avail);
          end_record = (length ptr = fragment_length);
          t = (if begin_record \<and> end_record then kFullType
               else if begin_record then kFirstType
               else if end_record then kLastType else kMiddleType);
          (s, w2) = EmitPhysicalRecord app flush w1 t (take fragment_length ptr)
      in if status_ok s \<and> length ptr - fragment_length > 0
         then AddRecord_loop app flush w2 (drop fragment_length ptr) False
         else (s, w2))"
  by pat_completeness auto

termination
proof (relation "measure (\<lambda>(app, flush, w, ptr, b). 2 * length ptr + (if kBlockSize - block_offset w = kHeaderSize then 1 else 0))",
    goal_cases)
  case (2 app flush w ptr b w1 avail n e t x s w2)
  have off: "block_offset w2 = block_offset w1 + kHeaderSize + n"
    using 2 by (auto simp: EmitPhysicalRecord_def Let_def split: prod.splits)
  show ?case
  proof (cases "n = 0")
    case True
    then have "avail = 0" using 2 by (auto split: if_splits)
    then have "kBlockSize - block_offset w = kHeaderSize" "block_offset w1 = block_offset w"
      using 2(1,2) by (auto simp: fill_trailer_def Let_def kBlockSize_def kHeaderSize_def split: if_splits)
    then show ?thesis using True 2 off by (simp add: kHeaderSize_def)
  next
    case False
    then show ?thesis using 2 by (auto split: if_splits)
  qed
qed simp

declare AddRecord_loop.simps [simp del]

definition AddRecord ::
  "('d \<Rightarrow> bytes \<Rightarrow> status \<times> 'd) \<Rightarrow> ('d \<Rightarrow> status \<times> 'd) \<Rightarrow> 'd Writer \<Rightarrow> bytes \<Rightarrow> status \<times> 'd Writer" where
  "AddRecord app flush w rec = AddRecord_loop app flush w rec True"

section \<open>The contract\<close>

text \<open>A client that adds records in turn and stops at the first failure.\<close>

fun AddRecords ::
  "('d \<Rightarrow> bytes \<Rightarrow> status \<times> 'd) \<Rightarrow> ('d \<Rightarrow> status \<times> 'd) \<Rightarrow> 'd Writer \<Rightarrow> bytes list \<Rightarrow> status \<times> 'd Writer" where
  "AddRecords app flush w [] = (OK, w)"
| "AddRecords app flush w (x # xs) =
     (let (s, w1) = AddRecord app flush w x in if status_ok s then AddRecords app flush w1 xs else (s, w1))"

text \<open>
  The layout of fragments in a file, from an offset in a block: a trailer too short for a header is
  filled with zeros, and the fragment follows at the start of the next block.
\<close>

type_synonym item = "RecordType \<times> bytes"

definition pad :: "nat \<Rightarrow> nat" where
  "pad off = (if kBlockSize - off < kHeaderSize then kBlockSize - off else 0)"

definition start_of :: "nat \<Rightarrow> nat" where
  "start_of off = (if kBlockSize - off < kHeaderSize then 0 else off)"

definition after :: "nat \<Rightarrow> item \<Rightarrow> nat" where
  "after off p = start_of off + kHeaderSize + length (snd p)"

definition phys :: "item \<Rightarrow> bytes" where
  "phys p =
     EncodeFixed32 (Mask (crc_Value (ucast (record_type_code (fst p)) # snd p)))
     @ [of_nat (length (snd p)) AND 255, of_nat (length (snd p) div 256), ucast (record_type_code (fst p))]
     @ snd p"

fun layout :: "nat \<Rightarrow> item list \<Rightarrow> bytes" where
  "layout off [] = []"
| "layout off (p # ps) = replicate (pad off) 0 @ phys p @ layout (after off p) ps"

fun end_off :: "nat \<Rightarrow> item list \<Rightarrow> nat" where
  "end_off off [] = off"
| "end_off off (p # ps) = end_off (after off p) ps"

fun fits :: "nat \<Rightarrow> item list \<Rightarrow> bool" where
  "fits off [] = (off \<le> kBlockSize)"
| "fits off (p # ps) = (off \<le> kBlockSize \<and> after off p \<le> kBlockSize \<and> fst p \<noteq> kZeroType \<and> fits (after off p) ps)"

text \<open>The fragments of a record: the first, the middle and the last, or a full one.\<close>

definition frag_type :: "bool \<Rightarrow> bool \<Rightarrow> RecordType" where
  "frag_type b e = (if b \<and> e then kFullType else if b then kFirstType else if e then kLastType else kMiddleType)"

definition room :: "nat \<Rightarrow> nat" where
  "room off = kBlockSize - start_of off - kHeaderSize"

function fragments :: "nat \<Rightarrow> bytes \<Rightarrow> bool \<Rightarrow> item list" where
  "fragments off x b =
     (let p = (frag_type b (length x \<le> room off), take (room off) x)
      in p # (if room off < length x then fragments (after off p) (drop (room off) x) False else []))"
  by pat_completeness auto
termination
proof (relation "measure (\<lambda>(off, x, b). 2 * length x + (if kBlockSize - off = kHeaderSize then 1 else 0))", goal_cases)
  case (2 off x b p)
  show ?case
  proof (cases "room off = 0")
    case True
    then show ?thesis
      using 2 by (auto simp: room_def start_of_def after_def kBlockSize_def kHeaderSize_def split: if_splits)
  qed (use 2 in auto)
qed simp

declare fragments.simps [simp del]

fun log_items :: "nat \<Rightarrow> bytes list \<Rightarrow> item list" where
  "log_items off [] = []"
| "log_items off (x # xs) = fragments off x True @ log_items (end_off off (fragments off x True)) xs"

section \<open>Layout\<close>

lemma phys_length [simp]: "length (phys p) = kHeaderSize + length (snd p)"
  by (simp add: phys_def kHeaderSize_def)

lemma layout_append: "layout off (ps @ qs) = layout off ps @ layout (end_off off ps) qs"
  by (induction ps arbitrary: off) simp_all

lemma fits_append: "fits off (ps @ qs) \<longleftrightarrow> fits off ps \<and> fits (end_off off ps) qs"
proof (induction ps arbitrary: off)
  case Nil
  then show ?case by (cases qs) auto
qed auto

lemma end_off_le: "fits off ps \<Longrightarrow> end_off off ps \<le> kBlockSize"
  by (induction ps arbitrary: off) auto

lemma fits_fragments: "off \<le> kBlockSize \<Longrightarrow> fits off (fragments off x b)"
proof (induction off x b rule: fragments.induct)
  case (1 off x b)
  let ?p = "(frag_type b (length x \<le> room off), take (room off) x)"
  have a: "after off ?p \<le> kBlockSize" using "1.prems"
    by (auto simp: after_def room_def start_of_def kBlockSize_def kHeaderSize_def)
  show ?case
    using "1.IH" [OF refl] a "1.prems" by (subst fragments.simps) (auto simp: frag_type_def Let_def)
qed

lemma fits_log_items: "off \<le> kBlockSize \<Longrightarrow> fits off (log_items off xs)"
  by (induction xs arbitrary: off) (auto simp: fits_append fits_fragments end_off_le)

section \<open>Writing\<close>

lemma record_type_code_nat: "InitTypeCrc ! unat (record_type_code t) = crc_Value [ucast (record_type_code t)]"
proof -
  have "unat (record_type_code t) < unat kMaxRecordType + 1" by (cases t) (simp_all add: kMaxRecordType_def)
  then have "InitTypeCrc ! unat (record_type_code t) = crc_Value [of_nat (unat (record_type_code t))]"
    unfolding InitTypeCrc_def by (simp only: nth_map length_upt minus_nat.diff_0 nth_upt add_0)
  moreover have "(of_nat (unat (record_type_code t)) :: byte) = ucast (record_type_code t)" by (cases t) simp_all
  ultimately show ?thesis by (simp only:)
qed

context writable_file
begin

lemma Emit_written:
  assumes "wf_ok (dest w)" and "type_crc w = InitTypeCrc"
  shows "\<exists>w'. EmitPhysicalRecord app flush w t x = (OK, w') \<and> wf_ok (dest w') \<and> type_crc w' = InitTypeCrc
    \<and> written (dest w') = written (dest w) @ phys (t, x) \<and> block_offset w' = block_offset w + kHeaderSize + length x"
proof -
  let ?h = "EncodeFixed32 (Mask (crc_Extend (type_crc w ! unat (record_type_code t)) x))
    @ [of_nat (length x) AND 255, of_nat (length x div 256), ucast (record_type_code t)]"
  obtain d1 where d1: "app (dest w) ?h = (OK, d1)" "written d1 = written (dest w) @ ?h" "wf_ok d1"
    using app_law [OF assms(1)] by blast
  obtain d2 where d2: "app d1 x = (OK, d2)" "written d2 = written d1 @ x" "wf_ok d2"
    using app_law [OF d1(3)] by blast
  obtain d3 where d3: "flush d2 = (OK, d3)" "written d3 = written d2" "wf_ok d3"
    using flush_law [OF d2(3)] by blast
  have "crc_Extend (crc_Value [c]) x = crc_Value (c # x)" for c
    using crc32c.extend_append [of 0 "[c]" x] by (simp add: crc_Value_def)
  then show ?thesis
    using d1 d2 d3 assms(2) by (simp add: EmitPhysicalRecord_def Let_def phys_def record_type_code_nat)
qed

lemma fill_trailer_written:
  assumes "wf_ok (dest w)"
  shows "wf_ok (dest (fill_trailer app w))" "type_crc (fill_trailer app w) = type_crc w"
    "written (dest (fill_trailer app w)) = written (dest w) @ replicate (pad (block_offset w)) 0"
    "block_offset (fill_trailer app w) = start_of (block_offset w)"
  using app_law [OF assms, of "replicate (kBlockSize - block_offset w) 0"] assms
  by (auto simp: fill_trailer_def Let_def pad_def start_of_def)

lemma AddRecord_loop_written:
  assumes "wf_ok (dest w)" and "type_crc w = InitTypeCrc"
  shows "\<exists>w'. AddRecord_loop app flush w x b = (OK, w') \<and> wf_ok (dest w') \<and> type_crc w' = InitTypeCrc
    \<and> written (dest w') = written (dest w) @ layout (block_offset w) (fragments (block_offset w) x b)
    \<and> block_offset w' = end_off (block_offset w) (fragments (block_offset w) x b)"
  using assms
proof (induction "block_offset w" x b arbitrary: w rule: fragments.induct)
  case (1 x b w)
  let ?off = "block_offset w" and ?w1 = "fill_trailer app w"
  let ?n = "if length x < room ?off then length x else room ?off"
  let ?t = "frag_type b (length x \<le> room ?off)"
  have take: "take ?n x = take (room ?off) x" by auto
  note f = fill_trailer_written [OF "1.prems"(1)]
  obtain w2 where w2: "EmitPhysicalRecord app flush ?w1 ?t (take (room ?off) x) = (OK, w2)" "wf_ok (dest w2)"
    "type_crc w2 = InitTypeCrc" "written (dest w2) = written (dest ?w1) @ phys (?t, take (room ?off) x)"
    "block_offset w2 = after ?off (?t, take (room ?off) x)"
    using Emit_written [of ?w1 ?t "take (room ?off) x"] f "1.prems" by (auto simp: after_def)
  have step: "AddRecord_loop app flush w x b =
      (if room ?off < length x then AddRecord_loop app flush w2 (drop (room ?off) x) False else (OK, w2))"
    using w2(1) f(4) unfolding take [symmetric]
    by (subst AddRecord_loop.simps) (auto simp: Let_def room_def frag_type_def split: if_splits)
  show ?case
  proof (cases "room ?off < length x")
    case True
    obtain w' where "AddRecord_loop app flush w2 (drop (room ?off) x) False = (OK, w')" "wf_ok (dest w')"
      "type_crc w' = InitTypeCrc"
      "written (dest w') = written (dest w2) @ layout (block_offset w2) (fragments (block_offset w2) (drop (room ?off) x) False)"
      "block_offset w' = end_off (block_offset w2) (fragments (block_offset w2) (drop (room ?off) x) False)"
      using "1.hyps" [OF refl True, of w2] w2 by auto
    then show ?thesis using True step w2 f by (subst (1 2) fragments.simps) (simp add: Let_def)
  next
    case False
    then show ?thesis using step w2 f by (subst (1 2) fragments.simps) (simp add: Let_def)
  qed
qed

lemma AddRecords_written:
  assumes "wf_ok (dest w)" and "type_crc w = InitTypeCrc"
  shows "\<exists>w'. AddRecords app flush w xs = (OK, w') \<and> wf_ok (dest w') \<and> type_crc w' = InitTypeCrc
    \<and> written (dest w') = written (dest w) @ layout (block_offset w) (log_items (block_offset w) xs)
    \<and> block_offset w' = end_off (block_offset w) (log_items (block_offset w) xs)"
  using assms
proof (induction xs arbitrary: w)
  case (Cons x xs)
  obtain w1 where w1: "AddRecord app flush w x = (OK, w1)" "wf_ok (dest w1)" "type_crc w1 = InitTypeCrc"
    "written (dest w1) = written (dest w) @ layout (block_offset w) (fragments (block_offset w) x True)"
    "block_offset w1 = end_off (block_offset w) (fragments (block_offset w) x True)"
    using AddRecord_loop_written [OF Cons.prems, of x True] by (auto simp: AddRecord_def)
  have "end_off off (ps @ qs) = end_off (end_off off ps) qs" for off ps qs
    by (induction ps arbitrary: off) simp_all
  then show ?case using Cons.IH [OF w1(2,3)] w1 by (auto simp: layout_append)
qed simp

end

section \<open>The start of a log, and reopening\<close>

lemma at_block_end: "start_of kBlockSize = 0" "pad kBlockSize = 0" "start_of 0 = 0" "pad 0 = 0"
  by (simp_all add: start_of_def pad_def kBlockSize_def kHeaderSize_def)

lemma layout_block_end: "layout kBlockSize ps = layout 0 ps"
  by (cases ps) (simp_all add: at_block_end after_def)

lemma end_off_block_end: "ps \<noteq> [] \<Longrightarrow> end_off kBlockSize ps = end_off 0 ps"
  by (cases ps) (simp_all add: at_block_end after_def)

lemma fragments_block_end: "fragments kBlockSize x b = fragments 0 x b"
  by (subst (1 2) fragments.simps) (simp add: room_def after_def at_block_end Let_def)

lemma fragments_nonempty [simp]: "fragments off x b \<noteq> []"
  by (subst fragments.simps) (simp add: Let_def)

lemma log_items_block_end: "log_items kBlockSize xs = log_items 0 xs"
  by (cases xs) (simp_all add: fragments_block_end end_off_block_end)

lemma end_off_append: "end_off off (ps @ qs) = end_off (end_off off ps) qs"
  by (induction ps arbitrary: off) simp_all

lemma log_items_append: "log_items off (xs @ ys) = log_items off xs @ log_items (end_off off (log_items off xs)) ys"
  by (induction xs arbitrary: off) (simp_all add: end_off_append)

lemma end_off_mod:
  "fits off ps \<Longrightarrow> (off + length (layout off ps)) mod kBlockSize = end_off off ps mod kBlockSize"
proof (induction ps arbitrary: off)
  case (Cons p ps)
  have "(off + pad off) mod kBlockSize = start_of off mod kBlockSize"
    using Cons.prems by (auto simp: pad_def start_of_def)
  then have "(off + pad off + (kHeaderSize + length (snd p) + length (layout (after off p) ps))) mod kBlockSize
      = (start_of off + (kHeaderSize + length (snd p) + length (layout (after off p) ps))) mod kBlockSize"
    by (rule mod_add_cong) simp
  then show ?case using Cons.IH [of "after off p"] Cons.prems by (simp add: after_def add.assoc)
qed simp

lemma reopened_offset:
  assumes "fits 0 ps" and "off = length (layout 0 ps) mod kBlockSize"
  shows "layout off (log_items off ys) = layout (end_off 0 ps) (log_items (end_off 0 ps) ys)"
proof (cases "end_off 0 ps = kBlockSize")
  case True
  then show ?thesis using end_off_mod [OF assms(1)] assms(2) by (simp add: log_items_block_end layout_block_end)
next
  case False
  then have "end_off 0 ps < kBlockSize" using end_off_le [OF assms(1)] by simp
  then show ?thesis using end_off_mod [OF assms(1)] assms(2) by simp
qed

context writable_file
begin

lemma new_log_written:
  assumes "wf_ok d" and "written d = []"
  shows "\<exists>w. AddRecords app flush (new_Writer d) xs = (OK, w) \<and> wf_ok (dest w)
    \<and> written (dest w) = layout 0 (log_items 0 xs)"
  using AddRecords_written [of "new_Writer d" xs] assms by (auto simp: new_Writer_def)

lemma reopened_log_written:
  assumes "wf_ok d" and "written d = layout 0 (log_items 0 xs)"
  shows "\<exists>w. AddRecords app flush (reopen_Writer d (length (written d))) ys = (OK, w) \<and> wf_ok (dest w)
    \<and> written (dest w) = layout 0 (log_items 0 (xs @ ys))"
proof -
  let ?off = "length (written d) mod kBlockSize"
  have "layout ?off (log_items ?off ys)
      = layout (end_off 0 (log_items 0 xs)) (log_items (end_off 0 (log_items 0 xs)) ys)"
    by (rule reopened_offset) (simp_all add: fits_log_items assms(2))
  then show ?thesis
    using AddRecords_written [of "reopen_Writer d (length (written d))" ys] assms
    by (auto simp: reopen_Writer_def log_items_append layout_append)
qed

end

end
