(* ===== verification/LogReader.thy ===== *)
theory LogReader
  imports LogWriter Filename
begin

text \<open>
  \<open>db/log_reader.cc\<close>. The file is an argument of the definitions: reading and skipping. \<open>ReadRecord\<close>
  loops until it has a record or the end, over a file that may hold anything, so its loop is a partial
  function; that it returns is a theorem. The reader of a log that was cut off anywhere returns the
  records written completely, in order, and reports no corruption.
\<close>

section \<open>Reader\<close>

text \<open>The reporter is the list of drops it was told of; \<open>has_reporter\<close> is false for a null reporter.\<close>

record 'f Reader =
  rd_file :: 'f
  has_reporter :: bool
  checksum_on :: bool
  rd_buffer :: bytes
  rd_eof :: bool
  last_record_offset :: u64
  end_of_buffer_offset :: u64
  initial_offset :: u64
  resyncing :: bool
  drops :: "(u64 \<times> status) list"

definition new_Reader :: "'f \<Rightarrow> bool \<Rightarrow> bool \<Rightarrow> u64 \<Rightarrow> 'f Reader" where
  "new_Reader file reporter verify initial =
     \<lparr>rd_file = file, has_reporter = reporter, checksum_on = verify, rd_buffer = [], rd_eof = False,
      last_record_offset = 0, end_of_buffer_offset = 0, initial_offset = initial,
      resyncing = (initial > 0), drops = []\<rparr>"

definition kEof :: u32 where "kEof = kMaxRecordType + 1"

definition kBadRecord :: u32 where "kBadRecord = kMaxRecordType + 2"

definition ReportDrop :: "'f Reader \<Rightarrow> u64 \<Rightarrow> status \<Rightarrow> 'f Reader" where
  "ReportDrop r n reason =
     (if has_reporter r \<and> initial_offset r \<le> end_of_buffer_offset r - of_nat (length (rd_buffer r)) - n
      then r\<lparr>drops := drops r @ [(n, reason)]\<rparr> else r)"

definition ReportCorruption :: "'f Reader \<Rightarrow> nat \<Rightarrow> bytes \<Rightarrow> 'f Reader" where
  "ReportCorruption r n reason = ReportDrop r (of_nat n) (mk_status kCorruption reason [])"

definition SkipToInitialBlock ::
  "('f \<Rightarrow> u64 \<Rightarrow> status \<times> 'f) \<Rightarrow> 'f Reader \<Rightarrow> bool \<times> 'f Reader" where
  "SkipToInitialBlock skip r =
     (let offset_in_block = initial_offset r mod of_nat kBlockSize;
          start = initial_offset r - offset_in_block;
          start = (if offset_in_block > of_nat (kBlockSize - 6) then start + of_nat kBlockSize else start);
          r1 = r\<lparr>end_of_buffer_offset := start\<rparr>
      in if start > 0
         then let (s, f) = skip (rd_file r1) start; r2 = r1\<lparr>rd_file := f\<rparr>
              in if \<not> status_ok s then (False, ReportDrop r2 start s) else (True, r2)
         else (True, r1))"

definition header_length :: "bytes \<Rightarrow> nat" where
  "header_length header =
     (let a = ucast (byte_at header 4) AND 255 :: u32; b = ucast (byte_at header 5) AND 255 :: u32
      in unat (a OR push_bit 8 b))"

text \<open>
  The part of \<open>ReadPhysicalRecord\<close> behind the header check: the type returned, the fragment (which
  keeps its old value on some errors) and the new state. The type is a signed \<open>char\<close>.
\<close>

definition parse_physical :: "'f Reader \<Rightarrow> bytes \<Rightarrow> u32 \<times> bytes \<times> 'f Reader" where
  "parse_physical r result =
     (let header = rd_buffer r;
          type = scast (byte_at header 6) :: u32;
          len = header_length header
      in if length (rd_buffer r) < kHeaderSize + len then
           (let drop_size = length (rd_buffer r); r1 = r\<lparr>rd_buffer := []\<rparr>
            in if \<not> rd_eof r then (kBadRecord, result, ReportCorruption r1 drop_size (lit ''bad record length''))
               else (kEof, result, r1))
         else if type = record_type_code kZeroType \<and> len = 0 then (kBadRecord, result, r\<lparr>rd_buffer := []\<rparr>)
         else if checksum_on r \<and> crc_Value (take (1 + len) (drop 6 header)) \<noteq> Unmask (DecodeFixed32 header) then
           (let drop_size = length (rd_buffer r); r1 = r\<lparr>rd_buffer := []\<rparr>
            in (kBadRecord, result, ReportCorruption r1 drop_size (lit ''checksum mismatch'')))
         else
           let r1 = r\<lparr>rd_buffer := drop (kHeaderSize + len) (rd_buffer r)\<rparr>
           in if end_of_buffer_offset r1 - of_nat (length (rd_buffer r1)) - of_nat kHeaderSize - of_nat len
                   < initial_offset r1
              then (kBadRecord, [], r1)
              else (type, take len (drop kHeaderSize header), r1))"

function ReadPhysicalRecord ::
  "('f \<Rightarrow> nat \<Rightarrow> status \<times> bytes \<times> 'f) \<Rightarrow> 'f Reader \<Rightarrow> bytes \<Rightarrow> u32 \<times> bytes \<times> 'f Reader" where
  "ReadPhysicalRecord rd r result =
     (if length (rd_buffer r) < kHeaderSize then
        if \<not> rd_eof r then
          (let (s, buf, f) = rd (rd_file r) kBlockSize;
               r1 = r\<lparr>rd_file := f, rd_buffer := buf,
                      end_of_buffer_offset := end_of_buffer_offset r + of_nat (length buf)\<rparr>
           in if \<not> status_ok s then
                (kEof, result,
                 (ReportDrop (r1\<lparr>rd_buffer := []\<rparr>) (of_nat kBlockSize) s)\<lparr>rd_eof := True\<rparr>)
              else if length buf < kBlockSize then ReadPhysicalRecord rd (r1\<lparr>rd_eof := True\<rparr>) result
              else ReadPhysicalRecord rd r1 result)
        else (kEof, result, r\<lparr>rd_buffer := []\<rparr>)
      else parse_physical r result)"
  by pat_completeness auto
termination
  by (relation "measure (\<lambda>(rd, r, res). if length (rd_buffer r) < kHeaderSize \<and> \<not> rd_eof r then 1 else 0)")
    (auto simp: kHeaderSize_def kBlockSize_def)

declare ReadPhysicalRecord.simps [simp del]

text \<open>
  One iteration of \<open>ReadRecord\<close>: it leaves the loop (\<open>Inl\<close>: the record, or \<open>None\<close> at the end) or
  goes on (\<open>Inr\<close>) with the reader, the fragment, the scratch string, \<open>in_fragmented_record\<close> and
  \<open>prospective_record_offset\<close>.
\<close>

type_synonym 'f read_vars = "'f Reader \<times> bytes \<times> bytes \<times> bool \<times> u64"

definition switch_record_type ::
  "u32 \<Rightarrow> u64 \<Rightarrow> 'f read_vars \<Rightarrow> (bytes option \<times> 'f Reader) + 'f read_vars" where
  "switch_record_type record_type physical v =
     (case v of (r, fragment, scratch, in_fragmented_record, prospective) \<Rightarrow>
        if record_type = record_type_code kFullType then
          let r1 = (if in_fragmented_record \<and> scratch \<noteq> []
                    then ReportCorruption r (length scratch) (lit ''partial record without end(1)'') else r)
          in Inl (Some fragment, r1\<lparr>last_record_offset := physical\<rparr>)
        else if record_type = record_type_code kFirstType then
          let r1 = (if in_fragmented_record \<and> scratch \<noteq> []
                    then ReportCorruption r (length scratch) (lit ''partial record without end(2)'') else r)
          in Inr (r1, fragment, fragment, True, physical)
        else if record_type = record_type_code kMiddleType then
          if \<not> in_fragmented_record
          then Inr (ReportCorruption r (length fragment) (lit ''missing start of fragmented record(1)''),
                    fragment, scratch, in_fragmented_record, prospective)
          else Inr (r, fragment, scratch @ fragment, in_fragmented_record, prospective)
        else if record_type = record_type_code kLastType then
          if \<not> in_fragmented_record
          then Inr (ReportCorruption r (length fragment) (lit ''missing start of fragmented record(2)''),
                    fragment, scratch, in_fragmented_record, prospective)
          else Inl (Some (scratch @ fragment), r\<lparr>last_record_offset := prospective\<rparr>)
        else if record_type = kEof then Inl (None, r)
        else if record_type = kBadRecord then
          if in_fragmented_record
          then Inr (ReportCorruption r (length scratch) (lit ''error in middle of record''),
                    fragment, [], False, prospective)
          else Inr (r, fragment, scratch, in_fragmented_record, prospective)
        else
          Inr (ReportCorruption r (length fragment + (if in_fragmented_record then length scratch else 0))
                 (lit ''unknown record type '' @ decimal (unat record_type)),
               fragment, [], False, prospective))"

definition read_iteration ::
  "('f \<Rightarrow> nat \<Rightarrow> status \<times> bytes \<times> 'f) \<Rightarrow> 'f read_vars \<Rightarrow> (bytes option \<times> 'f Reader) + 'f read_vars" where
  "read_iteration rd v =
     (case v of (r, fragment, scratch, in_fragmented_record, prospective) \<Rightarrow>
        let (record_type, fragment, r) = ReadPhysicalRecord rd r fragment;
            physical = end_of_buffer_offset r - of_nat (length (rd_buffer r)) - of_nat kHeaderSize
                         - of_nat (length fragment)
        in if resyncing r \<and> record_type = record_type_code kMiddleType
           then Inr (r, fragment, scratch, in_fragmented_record, prospective)
           else if resyncing r \<and> record_type = record_type_code kLastType
           then Inr (r\<lparr>resyncing := False\<rparr>, fragment, scratch, in_fragmented_record, prospective)
           else switch_record_type record_type physical
                  (if resyncing r then r\<lparr>resyncing := False\<rparr> else r, fragment, scratch,
                   in_fragmented_record, prospective))"

partial_function (option) ReadRecord_loop ::
  "('f \<Rightarrow> nat \<Rightarrow> status \<times> bytes \<times> 'f) \<Rightarrow> 'f read_vars \<Rightarrow> (bytes option \<times> 'f Reader) option" where
  "ReadRecord_loop rd v =
     (case read_iteration rd v of Inl result \<Rightarrow> Some result | Inr v1 \<Rightarrow> ReadRecord_loop rd v1)"

text \<open>\<open>ReadRecord\<close> returns the record, or \<open>None\<close> at the end.\<close>

definition ReadRecord ::
  "('f \<Rightarrow> nat \<Rightarrow> status \<times> bytes \<times> 'f) \<Rightarrow> ('f \<Rightarrow> u64 \<Rightarrow> status \<times> 'f) \<Rightarrow> 'f Reader
     \<Rightarrow> (bytes option \<times> 'f Reader) option" where
  "ReadRecord rd skip r =
     (let (go, r1) = (if last_record_offset r < initial_offset r then SkipToInitialBlock skip r else (True, r))
      in if go then ReadRecord_loop rd (r1, [], [], False, 0) else Some (None, r1))"

text \<open>The loop of the readers of a log: every record up to the end.\<close>

partial_function (option) ReadAll ::
  "('f \<Rightarrow> nat \<Rightarrow> status \<times> bytes \<times> 'f) \<Rightarrow> ('f \<Rightarrow> u64 \<Rightarrow> status \<times> 'f) \<Rightarrow> 'f Reader \<Rightarrow> bytes list
     \<Rightarrow> (bytes list \<times> 'f Reader) option" where
  "ReadAll rd skip r acc =
     Option.bind (ReadRecord rd skip r) (\<lambda>(rec, r1).
       case rec of None \<Rightarrow> Some (acc, r1) | Some x \<Rightarrow> ReadAll rd skip r1 (acc @ [x]))"

section \<open>The contract\<close>

text \<open>
  The reader stands at offset \<open>off\<close> of a block and the rest of the file, from there on, is \<open>R\<close>: the
  buffer is what is left of the block, the file what follows, and the end is known iff the block is short.
\<close>

definition reader_at :: "('f \<Rightarrow> bytes) \<Rightarrow> ('f \<Rightarrow> bool) \<Rightarrow> nat \<Rightarrow> bytes \<Rightarrow> 'f Reader \<Rightarrow> bool" where
  "reader_at contents sf_ok off R r \<longleftrightarrow>
     off \<le> kBlockSize \<and> sf_ok (rd_file r) \<and> rd_buffer r = take (kBlockSize - off) R
     \<and> contents (rd_file r) = drop (kBlockSize - off) R \<and> (rd_eof r \<longleftrightarrow> length R < kBlockSize - off)
     \<and> initial_offset r = 0 \<and> \<not> resyncing r \<and> drops r = []"

text \<open>A file of the in-memory environment with given contents, opened for reading.\<close>

definition log_file :: "bytes \<Rightarrow> FileState \<times> nat" where
  "log_file xs = (snd (fs_Append new_FileState xs), 0)"

section \<open>Reading\<close>

text \<open>The header of a fragment that fits in a block.\<close>

lemma length_bytes:
  assumes "n < 2 ^ 16"
  shows "unat ((ucast ((of_nat n :: byte) AND 255) AND 255 :: u32) OR push_bit 8 (ucast (of_nat (n div 256) :: byte) AND 255)) = n"
proof -
  have small: "n div 256 < 256" using assms by (simp add: less_mult_imp_div_less)
  have mask: "x AND 255 = take_bit 8 x" for x :: "'a::len word"
    by (simp add: take_bit_eq_mask mask_eq_exp_minus_1)
  let ?a = "ucast (of_nat n :: byte) :: u32" and ?b = "ucast (of_nat (n div 256) :: byte) :: u32"
  have ab: "unat ?a = n mod 256" "unat ?b = n div 256"
    using small by (simp_all add: unat_ucast unat_of_nat)
  have "?a AND push_bit 8 ?b = 0"
    by (rule bit_word_eqI) (auto simp: bit_simps)
  then have "?a OR push_bit 8 ?b = ?a + push_bit 8 ?b" by (rule disjunctive_add_eq_or [symmetric])
  moreover have "unat (?a + push_bit 8 ?b) = n"
    using assms small by (simp add: unat_word_ariths push_bit_eq_mult ab)
  moreover have "(ucast ((of_nat n :: byte) AND 255) AND 255 :: u32) = ?a" "(?b AND 255) = ?b"
    by (auto simp: mask intro!: bit_word_eqI simp: bit_simps)
  ultimately show ?thesis by simp
qed

lemma phys_header:
  assumes "length (snd p) < 2 ^ 16"
  shows "take (1 + length (snd p)) (drop 6 (phys p @ S)) = ucast (record_type_code (fst p)) # snd p"
    and "DecodeFixed32 (phys p @ S) = Mask (crc_Value (ucast (record_type_code (fst p)) # snd p))"
    and "byte_at (phys p @ S) 6 = ucast (record_type_code (fst p))"
    and "take (length (snd p)) (drop kHeaderSize (phys p @ S)) = snd p"
    and "header_length (phys p @ S) = length (snd p)"
proof -
  have "byte_at (phys p @ S) 4 = of_nat (length (snd p)) AND 255"
    "byte_at (phys p @ S) 5 = of_nat (length (snd p) div 256)"
    by (simp_all add: phys_def byte_at_def nth_append)
  then show "header_length (phys p @ S) = length (snd p)"
    unfolding header_length_def Let_def by (simp only: length_bytes [OF assms])
qed (simp_all add: phys_def byte_at_def nth_append kHeaderSize_def)

lemma scast_record_type: "scast (ucast (record_type_code t) :: byte) = record_type_code t"
  by (cases t) simp_all

lemma record_type_codes [simp]:
  "record_type_code t = record_type_code t' \<longleftrightarrow> t = t'" "record_type_code t \<noteq> kEof" "record_type_code t \<noteq> kBadRecord"
  "kEof \<noteq> record_type_code t" "kBadRecord \<noteq> record_type_code t"
  by (cases t; cases t'; simp add: kEof_def kBadRecord_def kMaxRecordType_def)+

lemma parse_physical_whole:
  assumes "rd_buffer r = phys p @ S" and "length (snd p) < 2 ^ 16" and "fst p \<noteq> kZeroType" and "initial_offset r = 0"
  shows "parse_physical r result = (record_type_code (fst p), snd p, r\<lparr>rd_buffer := S\<rparr>)"
proof -
  note h = phys_header [OF assms(2), of S]
  have crc: "Unmask (Mask c) = c" for c by (rule crc32c.unmask_mask)
  have "record_type_code (fst p) \<noteq> record_type_code kZeroType" using assms(3) record_type_codes(1) by blast
  then show ?thesis
    using assms(4) unfolding parse_physical_def Let_def assms(1) h crc scast_record_type
    by (simp del: record_type_codes record_type_code.simps)
qed

text \<open>A fragment cut off behind its header, at the end of the file.\<close>

lemma parse_physical_cut:
  assumes "rd_buffer r = take n (phys p)" and "kHeaderSize \<le> n" and "n < kHeaderSize + length (snd p)"
    and "length (snd p) < 2 ^ 16" and "rd_eof r"
  shows "parse_physical r result = (kEof, result, r\<lparr>rd_buffer := []\<rparr>)"
proof -
  have "byte_at (take n (phys p)) 4 = byte_at (phys p @ []) 4" "byte_at (take n (phys p)) 5 = byte_at (phys p @ []) 5"
    using assms(2,3) by (simp_all add: byte_at_def kHeaderSize_def)
  then have "header_length (rd_buffer r) = header_length (phys p @ [])"
    unfolding assms(1) header_length_def by (simp only:)
  then have "header_length (rd_buffer r) = length (snd p)" using phys_header(5) [OF assms(4), of "[]"] by simp
  moreover have "length (rd_buffer r) = n" using assms(1,3) by simp
  ultimately show ?thesis
    using assms(3,5) unfolding parse_physical_def Let_def by simp
qed

context sequential_file
begin

abbreviation rd_at :: "nat \<Rightarrow> bytes \<Rightarrow> 'f Reader \<Rightarrow> bool" where
  "rd_at \<equiv> reader_at contents sf_ok"

text \<open>A trailer is skipped and the next block read.\<close>

lemma read_next_block:
  assumes "rd_at off R r" and "kBlockSize - off < kHeaderSize" and "kBlockSize - off \<le> length R"
  shows "\<exists>r1. ReadPhysicalRecord rd r result = ReadPhysicalRecord rd r1 result \<and> rd_at 0 (drop (kBlockSize - off) R) r1"
proof -
  obtain f where f: "rd (rd_file r) kBlockSize = (OK, take kBlockSize (contents (rd_file r)), f)"
    "contents f = drop kBlockSize (contents (rd_file r))" "sf_ok f"
    using rd_law [of "rd_file r" kBlockSize] assms(1) by (auto simp: reader_at_def)
  let ?R = "drop (kBlockSize - off) R"
  let ?r = "r\<lparr>rd_file := f, rd_buffer := take kBlockSize ?R,
      end_of_buffer_offset := end_of_buffer_offset r + of_nat (length (take kBlockSize ?R))\<rparr>"
  let ?r1 = "if length ?R < kBlockSize then ?r\<lparr>rd_eof := True\<rparr> else ?r"
  have "ReadPhysicalRecord rd r result = ReadPhysicalRecord rd ?r1 result"
    using assms f by (subst ReadPhysicalRecord.simps) (auto simp: reader_at_def)
  moreover have "rd_at 0 ?R ?r1"
    using assms f by (auto simp: reader_at_def)
  ultimately show ?thesis by blast
qed

text \<open>Nothing but part of a header is left.\<close>

lemma read_short:
  assumes "rd_at off R r" and "length R < kHeaderSize" and "length R < kBlockSize - off"
  shows "ReadPhysicalRecord rd r result = (kEof, result, r\<lparr>rd_buffer := []\<rparr>)"
  using assms by (subst ReadPhysicalRecord.simps) (auto simp: reader_at_def)

lemma read_whole:
  assumes at: "rd_at off (phys p @ S) r" and "off + kHeaderSize + length (snd p) \<le> kBlockSize" and "fst p \<noteq> kZeroType"
  shows "\<exists>r'. ReadPhysicalRecord rd r result = (record_type_code (fst p), snd p, r')
    \<and> rd_at (off + kHeaderSize + length (snd p)) S r'"
proof -
  have len: "length (snd p) < 2 ^ 16" using assms(2) by (simp add: kBlockSize_def)
  have buf: "rd_buffer r = phys p @ take (kBlockSize - off - length (phys p)) S"
    using at assms(2) by (simp add: reader_at_def)
  have "ReadPhysicalRecord rd r result = parse_physical r result"
    using buf by (subst ReadPhysicalRecord.simps) simp
  moreover have "rd_at (off + kHeaderSize + length (snd p)) S
      (r\<lparr>rd_buffer := take (kBlockSize - off - length (phys p)) S\<rparr>)"
    using at assms(2) by (auto simp: reader_at_def less_diff_conv add.assoc)
  ultimately show ?thesis
    using parse_physical_whole [OF buf len assms(3)] at by (auto simp: reader_at_def)
qed

lemma read_cut:
  assumes at: "rd_at off (take n (phys p)) r" and "off + kHeaderSize + length (snd p) \<le> kBlockSize"
    and n: "n < kHeaderSize + length (snd p)"
  shows "\<exists>r'. ReadPhysicalRecord rd r result = (kEof, result, r') \<and> drops r' = [] \<and> \<not> resyncing r'"
proof (cases "n < kHeaderSize")
  case True
  then show ?thesis using read_short [OF at, of result] assms(2) at by (auto simp: reader_at_def)
next
  case False
  have len: "length (snd p) < 2 ^ 16" using assms(2) by (simp add: kBlockSize_def)
  have buf: "rd_buffer r = take n (phys p)" "rd_eof r" using at assms(2,3) by (auto simp: reader_at_def)
  have "ReadPhysicalRecord rd r result = parse_physical r result"
    using buf False n by (subst ReadPhysicalRecord.simps) simp
  then show ?thesis
    using parse_physical_cut [OF buf(1) _ n len buf(2)] False at by (auto simp: reader_at_def)
qed

text \<open>One physical record of a log cut off after \<open>n\<close> bytes.\<close>

lemma read_item:
  assumes at: "rd_at off (take n (layout off (p # ps))) r" and "fits off (p # ps)"
    and n: "pad off + kHeaderSize + length (snd p) \<le> n"
  shows "\<exists>r'. ReadPhysicalRecord rd r result = (record_type_code (fst p), snd p, r')
    \<and> rd_at (after off p) (take (n - (pad off + kHeaderSize + length (snd p))) (layout (after off p) ps)) r'"
proof -
  let ?R = "take n (layout off (p # ps))"
  let ?S = "take (n - (pad off + kHeaderSize + length (snd p))) (layout (after off p) ps)"
  have R: "?R = replicate (pad off) 0 @ phys p @ ?S" using n by (simp add: take_replicate add.assoc)
  obtain r1 where r1: "ReadPhysicalRecord rd r result = ReadPhysicalRecord rd r1 result" "rd_at (start_of off) (phys p @ ?S) r1"
  proof (cases "kBlockSize - off < kHeaderSize")
    case True
    have d: "kBlockSize - off \<le> length ?R" "drop (kBlockSize - off) ?R = phys p @ ?S"
      unfolding R using True by (simp_all add: pad_def)
    have "start_of off = 0" using True by (simp add: start_of_def)
    then show ?thesis using read_next_block [OF at True d(1), of result] that unfolding d(2) by metis
  next
    case False
    then show ?thesis using that [of r] at unfolding R by (simp add: start_of_def pad_def)
  qed
  then show ?thesis using read_whole [OF r1(2), of result] assms(2) by (simp add: after_def)
qed

lemma read_item_cut:
  assumes at: "rd_at off (take n (layout off (p # ps))) r" and "fits off (p # ps)"
    and n: "n < pad off + kHeaderSize + length (snd p)"
  shows "\<exists>r'. ReadPhysicalRecord rd r result = (kEof, result, r') \<and> drops r' = [] \<and> \<not> resyncing r'"
proof -
  let ?R = "take n (layout off (p # ps))"
  have R: "?R = take n (replicate (pad off) 0) @ take (n - pad off) (phys p)" using n by simp
  have fit: "start_of off + kHeaderSize + length (snd p) \<le> kBlockSize" using assms(2) by (simp add: after_def)
  show ?thesis
  proof (cases "kBlockSize - off < kHeaderSize")
    case True
    show ?thesis
    proof (cases "n < pad off")
      case short: True
      then have "length ?R < kHeaderSize" "length ?R < kBlockSize - off" unfolding R using True by (simp_all add: pad_def)
      then show ?thesis using read_short [OF at] at by (auto simp: reader_at_def)
    next
      case False
      then have "kBlockSize - off \<le> length ?R" "drop (kBlockSize - off) ?R = take (n - pad off) (phys p)"
        unfolding R using True by (simp_all add: pad_def)
      then obtain r1 where "ReadPhysicalRecord rd r result = ReadPhysicalRecord rd r1 result" "rd_at 0 (take (n - pad off) (phys p)) r1"
        using read_next_block [OF at True, of result] by auto
      then show ?thesis using read_cut [of 0 "n - pad off" p r1 result] fit n True by (simp add: start_of_def)
    qed
  next
    case False
    then have "start_of off = off" "pad off = 0" by (simp_all add: start_of_def pad_def)
    then show ?thesis using read_cut [of off n p r result] at fit n unfolding R by simp
  qed
qed

lemma read_end:
  assumes at: "rd_at off [] r"
  shows "\<exists>r'. ReadPhysicalRecord rd r result = (kEof, result, r') \<and> drops r' = [] \<and> \<not> resyncing r'"
proof (cases "kBlockSize - off = 0")
  case True
  then obtain r1 where "ReadPhysicalRecord rd r result = ReadPhysicalRecord rd r1 result" "rd_at 0 [] r1"
    using read_next_block [OF at, of result] by (auto simp: kHeaderSize_def)
  then show ?thesis using read_short [of 0 "[]" r1 result] by (auto simp: reader_at_def kHeaderSize_def kBlockSize_def)
next
  case False
  then show ?thesis using read_short [OF at, of result] at by (auto simp: reader_at_def kHeaderSize_def)
qed

lemma iteration_switch:
  assumes "ReadPhysicalRecord rd r fragment = (t, x, r')" and "\<not> resyncing r'"
  obtains physical where "\<And>scratch b pr. read_iteration rd (r, fragment, scratch, b, pr)
      = switch_record_type t physical (r', x, scratch, b, pr)"
  using assms by (simp add: read_iteration_def Let_def)

lemma iteration_eof:
  assumes "ReadPhysicalRecord rd r fragment = (kEof, fragment, r')" and "\<not> resyncing r'"
  shows "ReadRecord_loop rd (r, fragment, scratch, b, pr) = Some (None, r')"
proof -
  obtain q where "read_iteration rd (r, fragment, scratch, b, pr) = switch_record_type kEof q (r', fragment, scratch, b, pr)"
    using iteration_switch [OF assms] by metis
  then show ?thesis
    by (subst ReadRecord_loop.simps) (simp add: switch_record_type_def del: record_type_code.simps)
qed

lemma rd_at_last_offset [simp]: "rd_at off R (r\<lparr>last_record_offset := v\<rparr>) = rd_at off R r"
  by (simp add: reader_at_def)

lemma rd_at_resync: "rd_at off R r \<Longrightarrow> \<not> resyncing r"
  by (simp add: reader_at_def)

lemma switch_fragment:
  assumes "b \<longrightarrow> acc = []"
  shows "\<exists>v. switch_record_type (record_type_code (frag_type b e)) q (r, x, acc, \<not> b, pr)
    = (if e then Inl (Some (acc @ x), r\<lparr>last_record_offset := v\<rparr>) else Inr (r, x, acc @ x, True, v))"
  using assms by (cases b; cases e) (auto simp: switch_record_type_def frag_type_def Let_def simp del: record_type_code.simps)

lemma read_record_complete:
  assumes "rd_at off (take n (layout off (fragments off x b @ ps))) r" and "fits off (fragments off x b @ ps)"
    and "b \<longrightarrow> acc = []" and "length (layout off (fragments off x b)) \<le> n"
  shows "\<exists>r'. ReadRecord_loop rd (r, fragment, acc, \<not> b, pr) = Some (Some (acc @ x), r')
    \<and> rd_at (end_off off (fragments off x b))
         (take (n - length (layout off (fragments off x b))) (layout (end_off off (fragments off x b)) ps)) r'"
  using assms
proof (induction off x b arbitrary: n r acc fragment pr rule: fragments.induct)
  case (1 off x b)
  let ?k = "room off" and ?p = "(frag_type b (length x \<le> room off), take (room off) x)"
  let ?rest = "if ?k < length x then fragments (after off ?p) (drop ?k x) False else []"
  let ?m = "pad off + kHeaderSize + length (snd ?p)"
  have fr: "fragments off x b = ?p # ?rest" by (subst fragments.simps) (simp add: Let_def)
  have n: "?m \<le> n" using "1.prems"(4) unfolding fr by simp
  obtain r1 where r1: "ReadPhysicalRecord rd r fragment = (record_type_code (fst ?p), snd ?p, r1)"
    "rd_at (after off ?p) (take (n - ?m) (layout (after off ?p) (?rest @ ps))) r1"
    using read_item [of off n ?p "?rest @ ps" r fragment] "1.prems"(1,2) n unfolding fr append_Cons by blast
  obtain q where q: "read_iteration rd (r, fragment, acc, \<not> b, pr)
      = switch_record_type (record_type_code (fst ?p)) q (r1, snd ?p, acc, \<not> b, pr)"
    using iteration_switch [OF r1(1) rd_at_resync [OF r1(2)]] by metis
  obtain v where v: "read_iteration rd (r, fragment, acc, \<not> b, pr)
      = (if length x \<le> ?k then Inl (Some (acc @ snd ?p), r1\<lparr>last_record_offset := v\<rparr>)
         else Inr (r1, snd ?p, acc @ snd ?p, True, v))"
    using switch_fragment [OF "1.prems"(3), of "length x \<le> room off" q r1 "snd ?p" pr] q by auto
  show ?case
  proof (cases "?k < length x")
    case False
    then show ?thesis
      using v r1(2) "1.prems"(4) unfolding fr by (subst ReadRecord_loop.simps) (simp add: add.assoc)
  next
    case True
    have len: "length (layout (after off ?p) (fragments (after off ?p) (drop ?k x) False)) \<le> n - ?m"
      using "1.prems"(4) True unfolding fr by simp
    obtain r' where r': "ReadRecord_loop rd (r1, snd ?p, acc @ snd ?p, True, v) = Some (Some (acc @ x), r')"
      "rd_at (end_off (after off ?p) ?rest)
         (take (n - ?m - length (layout (after off ?p) ?rest)) (layout (end_off (after off ?p) ?rest) ps)) r'"
      using "1.IH" [OF refl True, of "n - ?m" r1 "acc @ snd ?p" "snd ?p" v] r1(2) "1.prems"(2) True len unfolding fr by auto
    then show ?thesis
      using v True unfolding fr by (subst ReadRecord_loop.simps) (simp add: add.assoc)
  qed
qed

lemma read_record_cut:
  assumes "rd_at off (take n (layout off (fragments off x b @ ps))) r" and "fits off (fragments off x b @ ps)"
    and "b \<longrightarrow> acc = []" and "n < length (layout off (fragments off x b))"
  shows "\<exists>r'. ReadRecord_loop rd (r, fragment, acc, \<not> b, pr) = Some (None, r') \<and> drops r' = []"
  using assms
proof (induction off x b arbitrary: n r acc fragment pr rule: fragments.induct)
  case (1 off x b)
  let ?k = "room off" and ?p = "(frag_type b (length x \<le> room off), take (room off) x)"
  let ?rest = "if ?k < length x then fragments (after off ?p) (drop ?k x) False else []"
  let ?m = "pad off + kHeaderSize + length (snd ?p)"
  have fr: "fragments off x b = ?p # ?rest" by (subst fragments.simps) (simp add: Let_def)
  show ?case
  proof (cases "n < ?m")
    case True
    obtain r' where "ReadPhysicalRecord rd r fragment = (kEof, fragment, r')" "drops r' = []" "\<not> resyncing r'"
      using read_item_cut [of off n ?p "?rest @ ps" r fragment] "1.prems"(1,2) True unfolding fr append_Cons by blast
    then show ?thesis using iteration_eof by blast
  next
    case False
    then have n: "?m \<le> n" by simp
    obtain r1 where r1: "ReadPhysicalRecord rd r fragment = (record_type_code (fst ?p), snd ?p, r1)"
      "rd_at (after off ?p) (take (n - ?m) (layout (after off ?p) (?rest @ ps))) r1"
      using read_item [of off n ?p "?rest @ ps" r fragment] "1.prems"(1,2) n unfolding fr append_Cons by blast
    have more: "?k < length x"
    proof (rule ccontr)
      assume "\<not> ?k < length x"
      then show False using "1.prems"(4) False unfolding fr by simp
    qed
    obtain q where q: "read_iteration rd (r, fragment, acc, \<not> b, pr)
        = switch_record_type (record_type_code (fst ?p)) q (r1, snd ?p, acc, \<not> b, pr)"
      using iteration_switch [OF r1(1) rd_at_resync [OF r1(2)]] by metis
    obtain v where v: "read_iteration rd (r, fragment, acc, \<not> b, pr) = Inr (r1, snd ?p, acc @ snd ?p, True, v)"
      using switch_fragment [OF "1.prems"(3), of "length x \<le> room off" q r1 "snd ?p" pr] q more by auto
    have "n - ?m < length (layout (after off ?p) (fragments (after off ?p) (drop ?k x) False))"
      using "1.prems"(4) more n unfolding fr by auto
    then obtain r' where "ReadRecord_loop rd (r1, snd ?p, acc @ snd ?p, True, v) = Some (None, r')" "drops r' = []"
      using "1.IH" [OF refl more, of "n - ?m" r1 "acc @ snd ?p" "snd ?p" v] r1(2) "1.prems"(2) more unfolding fr by auto
    then show ?thesis using v by (subst ReadRecord_loop.simps) simp
  qed
qed

lemma ReadRecord_loop_start: "rd_at off R r \<Longrightarrow> ReadRecord rd skip r = ReadRecord_loop rd (r, [], [], False, 0)"
  by (simp add: ReadRecord_def reader_at_def)

text \<open>
  Reading all of a log that was cut off: the records that are complete, and no report. \<open>m\<close> is the
  number of records whose fragments all fit in the first \<open>n\<close> bytes.
\<close>

lemma ReadAll_prefix:
  assumes "rd_at off (take n (layout off (log_items off xs))) r" and "fits off (log_items off xs)"
  shows "\<exists>m \<le> length xs. (\<exists>r'. ReadAll rd skip r acc = Some (acc @ take m xs, r') \<and> drops r' = [])
    \<and> (\<forall>k \<le> length xs. length (layout off (log_items off (take k xs))) \<le> n \<longleftrightarrow> k \<le> m)"
  using assms
proof (induction xs arbitrary: off n r acc)
  case Nil
  obtain r' where r': "ReadPhysicalRecord rd r [] = (kEof, [], r')" "drops r' = []" "\<not> resyncing r'"
    using read_end [of off r "[]"] Nil.prems(1) by auto
  have "ReadRecord rd skip r = Some (None, r')"
    using iteration_eof [OF r'(1,3)] ReadRecord_loop_start [OF Nil.prems(1)] by simp
  then show ?case using r' by (subst ReadAll.simps) simp
next
  case (Cons x xs)
  let ?f = "fragments off x True" and ?off = "end_off off (fragments off x True)"
  show ?case
  proof (cases "length (layout off ?f) \<le> n")
    case True
    let ?n = "n - length (layout off ?f)"
    obtain r1 where r1: "ReadRecord_loop rd (r, [], [], False, 0) = Some (Some x, r1)"
      "rd_at ?off (take ?n (layout ?off (log_items ?off xs))) r1"
      using read_record_complete [of off n x True "log_items ?off xs" r "[]" "[]" 0] Cons.prems True by auto
    obtain m r' where m: "m \<le> length xs" "ReadAll rd skip r1 (acc @ [x]) = Some (acc @ [x] @ take m xs, r')" "drops r' = []"
      "\<And>k. k \<le> length xs \<Longrightarrow> length (layout ?off (log_items ?off (take k xs))) \<le> ?n \<longleftrightarrow> k \<le> m"
      using Cons.IH [OF r1(2), of "acc @ [x]"] Cons.prems(2) by (auto simp: fits_append)
    have "ReadAll rd skip r acc = Some (acc @ take (Suc m) (x # xs), r')"
      using r1(1) m(2) ReadRecord_loop_start [OF Cons.prems(1)] by (subst ReadAll.simps) simp
    moreover have "length (layout off (log_items off (take k (x # xs)))) \<le> n \<longleftrightarrow> k \<le> Suc m"
      if "k \<le> length (x # xs)" for k
      using that True m(4) [of "k - 1"] by (cases k) (auto simp: layout_append)
    ultimately show ?thesis using m(1,3) by (intro exI [of _ "Suc m"]) auto
  next
    case False
    obtain r' where r': "ReadRecord_loop rd (r, [], [], False, 0) = Some (None, r')" "drops r' = []"
      using read_record_cut [of off n x True "log_items ?off xs" r "[]" "[]" 0] Cons.prems False by auto
    have "ReadAll rd skip r acc = Some (acc, r')"
      using r'(1) ReadRecord_loop_start [OF Cons.prems(1)] by (subst ReadAll.simps) simp
    moreover have "length (layout off (log_items off (take k (x # xs)))) \<le> n \<longleftrightarrow> k \<le> 0" for k
      using False by (cases k) (auto simp: layout_append)
    ultimately show ?thesis using r'(2) by (intro exI [of _ 0]) auto
  qed
qed

end

context sequential_file
begin

lemma new_reader_at:
  "sf_ok f \<Longrightarrow> reader_at contents sf_ok kBlockSize (contents f) (new_Reader f reporter verify 0)"
  by (simp add: reader_at_def new_Reader_def)

lemma ReadAll_log:
  assumes "sf_ok f" and "contents f = take n (layout 0 (log_items 0 xs))"
  shows "\<exists>m \<le> length xs. (\<exists>r'. ReadAll rd skip (new_Reader f reporter verify 0) [] = Some (take m xs, r') \<and> drops r' = [])
    \<and> (\<forall>k \<le> length xs. length (layout 0 (log_items 0 (take k xs))) \<le> n \<longleftrightarrow> k \<le> m)"
  using ReadAll_prefix [of kBlockSize n xs "new_Reader f reporter verify 0" skip "[]"] new_reader_at [OF assms(1), of reporter verify]
    fits_log_items [of kBlockSize xs]
  unfolding assms(2) log_items_block_end layout_block_end by simp

end

section \<open>Termination\<close>

text \<open>A file that holds finitely many bytes; reads may fail, and return what they like.\<close>

locale finite_file =
  fixes rd :: "'f \<Rightarrow> nat \<Rightarrow> status \<times> bytes \<times> 'f" and skip :: "'f \<Rightarrow> u64 \<Rightarrow> status \<times> 'f"
    and remaining :: "'f \<Rightarrow> nat" and ff_ok :: "'f \<Rightarrow> bool"
  assumes rd_bound: "ff_ok f \<Longrightarrow> rd f n = (s, xs, f') \<Longrightarrow> ff_ok f' \<and> length xs + remaining f' \<le> remaining f"
    and skip_bound: "ff_ok f \<Longrightarrow> skip f k = (s, f') \<Longrightarrow> ff_ok f' \<and> remaining f' \<le> remaining f"
begin

abbreviation unread :: "'f Reader \<Rightarrow> nat" where
  "unread r \<equiv> length (rd_buffer r) + remaining (rd_file r)"

lemma ReportDrop_unread [simp]:
  "rd_file (ReportDrop r n reason) = rd_file r" "rd_buffer (ReportDrop r n reason) = rd_buffer r"
  by (simp_all add: ReportDrop_def)

lemma ReportCorruption_unread [simp]:
  "rd_file (ReportCorruption r n reason) = rd_file r" "rd_buffer (ReportCorruption r n reason) = rd_buffer r"
  by (simp_all add: ReportCorruption_def)

lemma parse_physical_progress:
  assumes "kHeaderSize \<le> length (rd_buffer r)" and "parse_physical r result = (t, x, r')"
  shows "rd_file r' = rd_file r" and "length (rd_buffer r') < length (rd_buffer r)"
  using assms by (auto simp: parse_physical_def Let_def kHeaderSize_def split: if_splits)

lemma ReadPhysicalRecord_ready:
  assumes "\<not> (length (rd_buffer r) < kHeaderSize \<and> \<not> rd_eof r)" and "ReadPhysicalRecord rd r result = (t, x, r')"
  shows "rd_file r' = rd_file r \<and> length (rd_buffer r') \<le> length (rd_buffer r)
    \<and> (t \<noteq> kEof \<longrightarrow> length (rd_buffer r') < length (rd_buffer r))"
proof (cases "length (rd_buffer r) < kHeaderSize")
  case True
  then show ?thesis using assms by (auto simp: ReadPhysicalRecord.simps)
next
  case False
  then show ?thesis
    using parse_physical_progress [of r result t x r'] assms(2) by (simp add: ReadPhysicalRecord.simps)
qed

lemma ReadPhysicalRecord_progress:
  assumes ok: "ff_ok (rd_file r)" and res: "ReadPhysicalRecord rd r result = (t, x, r')"
  shows "ff_ok (rd_file r') \<and> unread r' \<le> unread r \<and> (t \<noteq> kEof \<longrightarrow> unread r' < unread r)"
proof (cases "length (rd_buffer r) < kHeaderSize \<and> \<not> rd_eof r")
  case False
  then show ?thesis using ReadPhysicalRecord_ready [OF False res] ok by auto
next
  case True
  obtain s buf f where f: "rd (rd_file r) kBlockSize = (s, buf, f)" by (metis prod_cases3)
  note ff = rd_bound [OF ok f]
  let ?r = "r\<lparr>rd_file := f, rd_buffer := buf, end_of_buffer_offset := end_of_buffer_offset r + of_nat (length buf)\<rparr>"
  let ?r1 = "if length buf < kBlockSize then ?r\<lparr>rd_eof := True\<rparr> else ?r"
  show ?thesis
  proof (cases "status_ok s")
    case False
    then show ?thesis using True res f ff by (auto simp: ReadPhysicalRecord.simps)
  next
    case ok: True
    have "ReadPhysicalRecord rd ?r1 result = (t, x, r')"
      using res True f ok by (subst (asm) ReadPhysicalRecord.simps) (auto split: if_splits)
    moreover have "\<not> (length (rd_buffer ?r1) < kHeaderSize \<and> \<not> rd_eof ?r1)"
      by (auto simp: kBlockSize_def kHeaderSize_def)
    ultimately show ?thesis using ReadPhysicalRecord_ready [of ?r1 result t x r'] ff by (auto split: if_splits)
  qed
qed

lemma switch_progress:
  "switch_record_type t q (r, x, scratch, b, pr) = Inr v \<Longrightarrow>
     t \<noteq> kEof \<and> rd_file (fst v) = rd_file r \<and> rd_buffer (fst v) = rd_buffer r"
  "switch_record_type t q (r, x, scratch, b, pr) = Inl (res, r') \<Longrightarrow>
     (res \<noteq> None \<longrightarrow> t \<noteq> kEof) \<and> rd_file r' = rd_file r \<and> rd_buffer r' = rd_buffer r"
  by (auto simp: switch_record_type_def Let_def simp del: record_type_code.simps split: if_splits)

lemma iteration_progress:
  assumes ok: "ff_ok (rd_file (fst v))"
  shows "read_iteration rd v = Inr v' \<Longrightarrow> ff_ok (rd_file (fst v')) \<and> unread (fst v') < unread (fst v)"
    and "read_iteration rd v = Inl (res, r') \<Longrightarrow>
      ff_ok (rd_file r') \<and> unread r' \<le> unread (fst v) \<and> (res \<noteq> None \<longrightarrow> unread r' < unread (fst v))"
proof -
  obtain r fr scratch b pr where v: "v = (r, fr, scratch, b, pr)" by (metis prod_cases5)
  obtain t x r1 where x: "ReadPhysicalRecord rd r fr = (t, x, r1)" by (metis prod_cases3)
  note p = ReadPhysicalRecord_progress [OF _ x]
  have keep: "rd_file (if resyncing r1 then r1\<lparr>resyncing := False\<rparr> else r1) = rd_file r1"
    "rd_buffer (if resyncing r1 then r1\<lparr>resyncing := False\<rparr> else r1) = rd_buffer r1" by simp_all
  show "read_iteration rd v = Inr v' \<Longrightarrow> ff_ok (rd_file (fst v')) \<and> unread (fst v') < unread (fst v)"
    using p ok v x keep
    by (auto simp: read_iteration_def Let_def simp del: record_type_code.simps split: if_splits
        dest!: switch_progress(1))
  show "read_iteration rd v = Inl (res, r') \<Longrightarrow>
      ff_ok (rd_file r') \<and> unread r' \<le> unread (fst v) \<and> (res \<noteq> None \<longrightarrow> unread r' < unread (fst v))"
    using p ok v x keep
    by (auto simp: read_iteration_def Let_def simp del: record_type_code.simps split: if_splits
        dest!: switch_progress(2))
qed

lemma ReadRecord_loop_returns:
  assumes "ff_ok (rd_file (fst v))"
  shows "\<exists>res r'. ReadRecord_loop rd v = Some (res, r') \<and> ff_ok (rd_file r') \<and> unread r' \<le> unread (fst v)
    \<and> (res \<noteq> None \<longrightarrow> unread r' < unread (fst v))"
  using assms
proof (induction "unread (fst v)" arbitrary: v rule: less_induct)
  case less
  show ?case
  proof (cases "read_iteration rd v")
    case (Inl y)
    obtain res r' where y: "y = (res, r')" by (cases y)
    show ?thesis
      using iteration_progress(2) [OF less.prems Inl [unfolded y]] Inl y by (subst ReadRecord_loop.simps) simp
  next
    case (Inr v')
    note p = iteration_progress(1) [OF less.prems Inr]
    obtain res r' where "ReadRecord_loop rd v' = Some (res, r')" "ff_ok (rd_file r')" "unread r' \<le> unread (fst v')"
      using less.hyps [of v'] p by auto
    then show ?thesis using Inr p by (subst ReadRecord_loop.simps) auto
  qed
qed

lemma ReadRecord_returns:
  assumes ok: "ff_ok (rd_file r)"
  shows "\<exists>res r'. ReadRecord rd skip r = Some (res, r') \<and> ff_ok (rd_file r') \<and> unread r' \<le> unread r
    \<and> (res \<noteq> None \<longrightarrow> unread r' < unread r)"
proof -
  obtain go r1 where r1: "(if last_record_offset r < initial_offset r then SkipToInitialBlock skip r else (True, r)) = (go, r1)"
    by fastforce
  have "ff_ok (rd_file r1) \<and> unread r1 \<le> unread r"
    using r1 ok skip_bound [OF ok]
    by (auto simp: SkipToInitialBlock_def Let_def split: if_splits prod.splits)
  then show ?thesis
    using r1 ReadRecord_loop_returns [of "(r1, [], [], False, 0)"] unfolding ReadRecord_def by fastforce
qed

lemma ReadAll_returns:
  "ff_ok (rd_file r) \<Longrightarrow> \<exists>xs r'. ReadAll rd skip r acc = Some (xs, r')"
proof (induction "unread r" arbitrary: r acc rule: less_induct)
  case less
  obtain res r' where r': "ReadRecord rd skip r = Some (res, r')" "ff_ok (rd_file r')" "res \<noteq> None \<longrightarrow> unread r' < unread r"
    using ReadRecord_returns [OF less.prems] by blast
  show ?case
  proof (cases res)
    case None
    then show ?thesis using r' by (subst ReadAll.simps) simp
  next
    case (Some x)
    then show ?thesis using r' less.hyps [of r' "acc @ [x]"] by (subst ReadAll.simps) simp
  qed
qed

end

interpretation mem_finite: finite_file seq_Read "\<lambda>h n. seq_Skip h (unat n)" "\<lambda>h. length (seq_rest h)" seq_ok
proof
  fix h h' :: "FileState \<times> nat" and n s xs k
  assume ok: "seq_ok h"
  show "seq_Read h n = (s, xs, h') \<Longrightarrow> seq_ok h' \<and> length xs + length (seq_rest h') \<le> length (seq_rest h)"
    using mem_reader.rd_law [OF ok, of n] by auto
  show "seq_Skip h (unat k) = (s, h') \<Longrightarrow> seq_ok h' \<and> length (seq_rest h') \<le> length (seq_rest h)"
    using seq_Skip_eq [OF ok, of "unat k"] by simp
qed

section \<open>Properties\<close>

text \<open>
  C2. A log that is cut off anywhere, as by a crash, loses only its last records: reading the first
  \<open>n\<close> bytes of a log returns, in order and without a report of corruption, exactly the records whose
  writing was complete within these bytes, whether or not checksums are verified.
\<close>

theorem log_crash_prefix:
  assumes "writable_file app flush written wok" and "sequential_file rd contents sok"
    and "wok d" and "written d = []" and "AddRecords app flush (new_Writer d) recs = (s, w)"
    and "sok f" and "contents f = take n (written (dest w))"
  shows "s = OK \<and> (\<exists>m \<le> length recs.
    (\<exists>r'. ReadAll rd skip (new_Reader f reporter verify 0) [] = Some (take m recs, r') \<and> drops r' = [])
    \<and> (\<forall>k \<le> length recs. length (written (dest (snd (AddRecords app flush (new_Writer d) (take k recs))))) \<le> n
          \<longleftrightarrow> k \<le> m))"
proof -
  note new = writable_file.new_log_written [OF assms(1,3,4)]
  have w: "s = OK" "written (dest w) = layout 0 (log_items 0 recs)" using new [of recs] assms(5) by auto
  have "written (dest (snd (AddRecords app flush (new_Writer d) (take k recs)))) = layout 0 (log_items 0 (take k recs))" for k
    using new [of "take k recs"] by auto
  then show ?thesis
    using sequential_file.ReadAll_log [OF assms(2,6) assms(7) [unfolded w(2)], of skip reporter verify] w(1) by simp
qed

lemma log_file_ok: "seq_ok (log_file xs)" "seq_rest (log_file xs) = xs"
  using fs_Append_loop_eq [of new_FileState xs]
  by (simp_all add: log_file_def seq_ok_def seq_rest_def fs_Append_def)

theorem log_crash_prefix_witness:
  "\<exists>m r'. ReadAll seq_Read (\<lambda>h n. seq_Skip h (unat n))
     (new_Reader (log_file (take 12 (fs_contents (dest (snd (AddRecords fs_Append wf_Flush (new_Writer new_FileState) [[7, 8], [9]])))))) True True 0) []
     = Some (take m [[7, 8], [9]], r') \<and> drops r' = []"
proof -
  obtain s w where w: "AddRecords fs_Append wf_Flush (new_Writer new_FileState) [[7, 8], [9]] = (s, w)" by fastforce
  show ?thesis
    using log_crash_prefix [where n = 12 and skip = "\<lambda>h n. seq_Skip h (unat n)" and reporter = True and verify = True,
        OF mem_writer.writable_file_axioms mem_reader.sequential_file_axioms fs_inv_new(1,2) w log_file_ok]
    by (auto simp: w simp del: AddRecords.simps)
qed

text \<open>
  C17. Reopening a log and appending to it leaves the same bytes as writing all records in one go.
\<close>

theorem log_reopen_same:
  assumes "writable_file app flush written wok" and "wok d" and "written d = []"
    and "AddRecords app flush (new_Writer d) xs = (s, w)"
    and "AddRecords app flush (reopen_Writer (dest w) (length (written (dest w)))) ys = (s', w')"
  shows "s' = OK \<and> written (dest w') = written (dest (snd (AddRecords app flush (new_Writer d) (xs @ ys))))"
proof -
  have w: "wok (dest w)" "written (dest w) = layout 0 (log_items 0 xs)"
    using writable_file.new_log_written [OF assms(1-3), of xs] assms(4) by auto
  show ?thesis
    using writable_file.reopened_log_written [OF assms(1) w, of ys] assms(5)
      writable_file.new_log_written [OF assms(1-3), of "xs @ ys"] by auto
qed

theorem log_reopen_same_witness:
  "\<exists>w w'. AddRecords fs_Append wf_Flush (new_Writer new_FileState) [[7]] = (OK, w)
     \<and> AddRecords fs_Append wf_Flush (reopen_Writer (dest w) (length (fs_contents (dest w)))) [[8]] = (OK, w')
     \<and> fs_contents (dest w') = fs_contents (dest (snd (AddRecords fs_Append wf_Flush (new_Writer new_FileState) ([[7]] @ [[8]]))))"
proof -
  obtain w where w: "AddRecords fs_Append wf_Flush (new_Writer new_FileState) [[7]] = (OK, w)"
    using mem_writer.new_log_written [OF fs_inv_new(1,2)] by blast
  obtain s' w' where w': "AddRecords fs_Append wf_Flush (reopen_Writer (dest w) (length (fs_contents (dest w)))) [[8]] = (s', w')"
    by fastforce
  show ?thesis
    using log_reopen_same [OF mem_writer.writable_file_axioms fs_inv_new(1,2) w w'] w w' by blast
qed

text \<open>
  C15. Reading a log ends whatever the file holds and even when reads fail: over every file of
  finitely many bytes, at every initial offset, \<open>ReadRecord\<close> returns and so does the loop that reads
  all records.
\<close>

theorem log_read_terminates:
  assumes "finite_file rd skip remaining ok" and "ok f"
  shows "(\<exists>res r'. ReadRecord rd skip (new_Reader f reporter verify initial) = Some (res, r'))
    \<and> (\<exists>xs r'. ReadAll rd skip (new_Reader f reporter verify initial) [] = Some (xs, r'))"
proof -
  have f: "ok (rd_file (new_Reader f reporter verify initial))" using assms(2) by (simp add: new_Reader_def)
  show ?thesis
    using finite_file.ReadRecord_returns [OF assms(1) f] finite_file.ReadAll_returns [OF assms(1) f] by blast
qed

theorem log_read_terminates_witness:
  "\<exists>xs r'. ReadAll seq_Read (\<lambda>h n. seq_Skip h (unat n)) (new_Reader (log_file [1, 2, 3, 255, 255, 6, 7, 8, 9]) True True 3) [] = Some (xs, r')"
  using log_read_terminates [OF mem_finite.finite_file_axioms log_file_ok(1)] by blast

end
