(* ===== verification/Iterators.thy ===== *)
theory Iterators
  imports Comparator
begin

text \<open>
  The \<open>Iterator\<close> interface (\<open>include/leveldb/iterator.h\<close>) and the empty and error iterators of
  \<open>table/iterator.cc\<close>. An implementation is a table of operations on a state, as its virtual methods
  are. The contract of the interface: the iterator runs over a sorted sequence of entries and stands
  at one of them, or is invalid, which is the position behind the last.
\<close>

type_synonym entry = "bytes \<times> bytes"

record 'i iter_ops =
  op_Valid :: "'i \<Rightarrow> bool"
  op_SeekToFirst :: "'i \<Rightarrow> 'i"
  op_SeekToLast :: "'i \<Rightarrow> 'i"
  op_Seek :: "'i \<Rightarrow> bytes \<Rightarrow> 'i"
  op_Next :: "'i \<Rightarrow> 'i"
  op_Prev :: "'i \<Rightarrow> 'i"
  op_key :: "'i \<Rightarrow> bytes"
  op_value :: "'i \<Rightarrow> bytes"
  op_status :: "'i \<Rightarrow> status"

text \<open>
  \<open>EmptyIterator\<close>: its state is its status. \<open>Next\<close>, \<open>Prev\<close>, \<open>key\<close> and \<open>value\<close> assert false; here they
  leave the state and give the empty string.
\<close>

definition empty_iter_ops :: "status iter_ops" where
  "empty_iter_ops =
     \<lparr>op_Valid = (\<lambda>s. False), op_SeekToFirst = (\<lambda>s. s), op_SeekToLast = (\<lambda>s. s), op_Seek = (\<lambda>s t. s),
      op_Next = (\<lambda>s. s), op_Prev = (\<lambda>s. s), op_key = (\<lambda>s. []), op_value = (\<lambda>s. []), op_status = (\<lambda>s. s)\<rparr>"

definition NewEmptyIterator :: status where "NewEmptyIterator = OK"

definition NewErrorIterator :: "status \<Rightarrow> status" where "NewErrorIterator s = s"

text \<open>The position of the first entry at or past a key.\<close>

definition first_ge :: "(bytes \<Rightarrow> bytes \<Rightarrow> int) \<Rightarrow> bytes \<Rightarrow> entry list \<Rightarrow> nat" where
  "first_ge cmp t es = length (takeWhile (\<lambda>e. cmp (fst e) t < 0) es)"

definition entries_sorted :: "(bytes \<Rightarrow> bytes \<Rightarrow> int) \<Rightarrow> entry list \<Rightarrow> bool" where
  "entries_sorted cmp es \<longleftrightarrow> sorted_wrt (\<lambda>a b. cmp (fst a) (fst b) < 0) es"

text \<open>
  A client: a sequence of moves. \<open>Next\<close> and \<open>Prev\<close> are called on a valid iterator only. The same moves of
  a cursor over the entries are the specification.
\<close>

datatype cursor_op = ToFirst | ToLast | ToKey bytes | Forward | Back

fun exec :: "'i iter_ops \<Rightarrow> 'i \<Rightarrow> cursor_op \<Rightarrow> 'i" where
  "exec ops it ToFirst = op_SeekToFirst ops it"
| "exec ops it ToLast = op_SeekToLast ops it"
| "exec ops it (ToKey t) = op_Seek ops it t"
| "exec ops it Forward = (if op_Valid ops it then op_Next ops it else it)"
| "exec ops it Back = (if op_Valid ops it then op_Prev ops it else it)"

fun move :: "(bytes \<Rightarrow> bytes \<Rightarrow> int) \<Rightarrow> entry list \<Rightarrow> nat \<Rightarrow> cursor_op \<Rightarrow> nat" where
  "move cmp es p ToFirst = 0"
| "move cmp es p ToLast = length es - 1"
| "move cmp es p (ToKey t) = first_ge cmp t es"
| "move cmp es p Forward = (if p < length es then p + 1 else p)"
| "move cmp es p Back = (if p < length es then if p = 0 then length es else p - 1 else p)"

text \<open>What a client sees of an iterator, and of a cursor.\<close>

definition displays :: "'i iter_ops \<Rightarrow> 'i \<Rightarrow> entry list \<Rightarrow> nat \<Rightarrow> bool" where
  "displays ops it es p \<longleftrightarrow>
     op_status ops it = OK \<and> op_Valid ops it = (p < length es)
     \<and> (p < length es \<longrightarrow> (op_key ops it, op_value ops it) = es ! p)"

locale iterator_contract =
  fixes ops :: "'i iter_ops" and cmp :: "bytes \<Rightarrow> bytes \<Rightarrow> int" and at :: "'i \<Rightarrow> entry list \<Rightarrow> nat \<Rightarrow> bool"
  assumes at_sorted: "at it es p \<Longrightarrow> entries_sorted cmp es \<and> p \<le> length es"
    and at_Valid: "at it es p \<Longrightarrow> op_Valid ops it \<longleftrightarrow> p < length es"
    and at_key: "at it es p \<Longrightarrow> p < length es \<Longrightarrow> op_key ops it = fst (es ! p)"
    and at_value: "at it es p \<Longrightarrow> p < length es \<Longrightarrow> op_value ops it = snd (es ! p)"
    and at_status: "at it es p \<Longrightarrow> op_status ops it = OK"
    and at_First: "at it es p \<Longrightarrow> at (op_SeekToFirst ops it) es 0"
    and at_Last: "at it es p \<Longrightarrow> at (op_SeekToLast ops it) es (length es - 1)"
    and at_Seek: "at it es p \<Longrightarrow> at (op_Seek ops it t) es (first_ge cmp t es)"
    and at_Next: "at it es p \<Longrightarrow> p < length es \<Longrightarrow> at (op_Next ops it) es (p + 1)"
    and at_Prev: "at it es p \<Longrightarrow> p < length es \<Longrightarrow>
      at (op_Prev ops it) es (if p = 0 then length es else p - 1)"
begin

lemma at_exec: "at it es p \<Longrightarrow> at (exec ops it c) es (move cmp es p c)"
  using at_Valid [of it es p] at_First [of it es p] at_Last [of it es p] at_Seek [of it es p] at_Next [of it es p]
    at_Prev [of it es p] by (cases c) auto

lemma at_run: "at it es p \<Longrightarrow> at (foldl (exec ops) it cs) es (foldl (move cmp es) p cs)"
  by (induction cs arbitrary: it p) (simp_all add: at_exec)

lemma at_displays: "at it es p \<Longrightarrow> displays ops it es p"
  using at_Valid [of it es p] at_key [of it es p] at_value [of it es p] at_status [of it es p]
  by (simp add: displays_def)

lemma run_displays: "at it es p \<Longrightarrow> displays ops (foldl (exec ops) it cs) es (foldl (move cmp es) p cs)"
  using at_run at_displays by blast

end

section \<open>Positions in a sorted sequence\<close>

lemma first_ge_le [simp]: "first_ge cmp t es \<le> length es"
  by (simp add: first_ge_def length_takeWhile_le)

lemma first_ge_before: "i < first_ge cmp t es \<Longrightarrow> cmp (fst (es ! i)) t < 0"
  unfolding first_ge_def by (metis nth_mem set_takeWhileD takeWhile_nth)

lemma first_ge_at: "first_ge cmp t es < length es \<Longrightarrow> \<not> cmp (fst (es ! first_ge cmp t es)) t < 0"
  unfolding first_ge_def by (rule nth_length_takeWhile)

text \<open>The first position past a key is the one with everything before it below and itself not.\<close>

lemma first_ge_eqI:
  assumes "p \<le> length es" and "\<And>i. i < p \<Longrightarrow> cmp (fst (es ! i)) t < 0"
    and "p < length es \<Longrightarrow> \<not> cmp (fst (es ! p)) t < 0"
  shows "first_ge cmp t es = p"
proof (rule linorder_cases [of "first_ge cmp t es" p])
  assume "first_ge cmp t es < p"
  then show ?thesis using assms(1,2) first_ge_at [of cmp t es] by fastforce
next
  assume "p < first_ge cmp t es"
  then show ?thesis using assms(3) first_ge_before [of p cmp t es] first_ge_le [of cmp t es] by linarith
qed

lemma entries_sorted_nth:
  "entries_sorted cmp es \<Longrightarrow> i < j \<Longrightarrow> j < length es \<Longrightarrow> cmp (fst (es ! i)) (fst (es ! j)) < 0"
  by (simp add: entries_sorted_def sorted_wrt_iff_nth_less)

interpretation empty_iter: iterator_contract empty_iter_ops cmp "\<lambda>s es p. s = OK \<and> es = [] \<and> p = 0"
  by unfold_locales (auto simp: empty_iter_ops_def entries_sorted_def first_ge_def)

end
