(* ===== verification/Block.thy ===== *)
theory Block
  imports Coding Iterators
begin

text \<open>
  \<open>table/block_builder.cc\<close> and \<open>table/block.cc\<close>: blocks of prefix-compressed entries with restart points.
  The iterator refers to its key by value and to its value by an offset and a length in the block.
  Offsets are natural numbers; \<open>NextEntryOffset\<close> and the lengths of an entry keep their 32 bits, where a
  corrupt block can make them wrap. Blocks are below 4 GiB, as the source assumes.
\<close>

section \<open>Building\<close>

record BlockBuilder =
  bb_interval :: nat
  bb_buffer :: bytes
  bb_restarts :: "nat list"
  bb_counter :: nat
  bb_finished :: bool
  bb_last_key :: bytes

definition new_BlockBuilder :: "nat \<Rightarrow> BlockBuilder" where
  "new_BlockBuilder interval =
     \<lparr>bb_interval = interval, bb_buffer = [], bb_restarts = [0], bb_counter = 0, bb_finished = False, bb_last_key = []\<rparr>"

definition bb_Reset :: "BlockBuilder \<Rightarrow> BlockBuilder" where
  "bb_Reset b = b\<lparr>bb_buffer := [], bb_restarts := [0], bb_counter := 0, bb_finished := False, bb_last_key := []\<rparr>"

definition CurrentSizeEstimate :: "BlockBuilder \<Rightarrow> nat" where
  "CurrentSizeEstimate b = length (bb_buffer b) + length (bb_restarts b) * 4 + 4"

definition bb_Add :: "BlockBuilder \<Rightarrow> bytes \<Rightarrow> bytes \<Rightarrow> BlockBuilder" where
  "bb_Add b key value =
     (let (shared, b1) =
            (if bb_counter b < bb_interval b then (common_length (bb_last_key b) key, b)
             else (0, b\<lparr>bb_restarts := bb_restarts b @ [length (bb_buffer b)], bb_counter := 0\<rparr>));
          non_shared = length key - shared;
          buf = PutVarint32 (bb_buffer b1) (of_nat shared);
          buf = PutVarint32 buf (of_nat non_shared);
          buf = PutVarint32 buf (of_nat (length value));
          buf = buf @ drop shared key;
          buf = buf @ value
      in b1\<lparr>bb_buffer := buf, bb_last_key := take shared (bb_last_key b1) @ drop shared key,
            bb_counter := bb_counter b1 + 1\<rparr>)"

definition bb_Finish :: "BlockBuilder \<Rightarrow> bytes \<times> BlockBuilder" where
  "bb_Finish b =
     (let buf = foldl (\<lambda>buf r. PutFixed32 buf (of_nat r)) (bb_buffer b) (bb_restarts b);
          buf = PutFixed32 buf (of_nat (length (bb_restarts b)))
      in (buf, b\<lparr>bb_buffer := buf, bb_finished := True\<rparr>))"

section \<open>Reading\<close>

text \<open>A block: its bytes, its size (0 marks an error) and the offset of its restart array.\<close>

record Block =
  blk_data :: bytes
  blk_size :: nat
  restart_offset :: nat

definition NumRestarts :: "bytes \<Rightarrow> nat \<Rightarrow> nat" where
  "NumRestarts data sz = unat (DecodeFixed32 (drop (sz - 4) data))"

definition new_Block :: "bytes \<Rightarrow> Block" where
  "new_Block contents =
     (let sz = length contents
      in if sz < 4 then \<lparr>blk_data = contents, blk_size = 0, restart_offset = 0\<rparr>
         else let max_restarts_allowed = (sz - 4) div 4
              in if NumRestarts contents sz > max_restarts_allowed
                 then \<lparr>blk_data = contents, blk_size = 0, restart_offset = 0\<rparr>
                 else \<lparr>blk_data = contents, blk_size = sz,
                       restart_offset = sz - (1 + NumRestarts contents sz) * 4\<rparr>)"

text \<open>\<open>DecodeEntry\<close> on the bytes from \<open>p\<close> to \<open>limit\<close>: the three lengths and the rest.\<close>

definition DecodeEntry :: "bytes \<Rightarrow> (u32 \<times> u32 \<times> u32 \<times> bytes) option" where
  "DecodeEntry p =
     (if length p < 3 then None
      else
        let shared = ucast (p ! 0) :: u32; non_shared = ucast (p ! 1) :: u32; value_length = ucast (p ! 2) :: u32;
            decoded =
              (if (shared OR non_shared OR value_length) < 128 then Some (shared, non_shared, value_length, drop 3 p)
               else Option.bind (GetVarint32Ptr p) (\<lambda>(shared, p).
                    Option.bind (GetVarint32Ptr p) (\<lambda>(non_shared, p).
                    Option.bind (GetVarint32Ptr p) (\<lambda>(value_length, p).
                      Some (shared, non_shared, value_length, p)))))
        in case decoded of
             None \<Rightarrow> None
           | Some (shared, non_shared, value_length, p) \<Rightarrow>
               if (of_nat (length p) :: u32) < non_shared + value_length then None
               else Some (shared, non_shared, value_length, p))"

record Block_Iter =
  bi_data :: bytes
  restarts_w :: u32
  num_restarts :: nat
  bi_current :: nat
  restart_index :: nat
  bi_key :: bytes
  value_off :: nat
  value_len :: nat
  bi_status :: status

definition new_Iter :: "bytes \<Rightarrow> nat \<Rightarrow> nat \<Rightarrow> Block_Iter" where
  "new_Iter data restarts num =
     \<lparr>bi_data = data, restarts_w = of_nat restarts, num_restarts = num, bi_current = unat (of_nat restarts :: u32), restart_index = num,
      bi_key = [], value_off = 0, value_len = 0, bi_status = OK\<rparr>"

definition bi_restarts :: "Block_Iter \<Rightarrow> nat" where
  "bi_restarts it = unat (restarts_w it)"

definition NextEntryOffset :: "Block_Iter \<Rightarrow> nat" where
  "NextEntryOffset it = (value_off it + value_len it) mod 2 ^ 32"

definition GetRestartPoint :: "Block_Iter \<Rightarrow> nat \<Rightarrow> nat" where
  "GetRestartPoint it index = unat (DecodeFixed32 (drop (bi_restarts it + index * 4) (bi_data it)))"

definition SeekToRestartPoint :: "Block_Iter \<Rightarrow> nat \<Rightarrow> Block_Iter" where
  "SeekToRestartPoint it index =
     it\<lparr>bi_key := [], restart_index := index, value_off := GetRestartPoint it index, value_len := 0\<rparr>"

definition bi_Valid :: "Block_Iter \<Rightarrow> bool" where
  "bi_Valid it \<longleftrightarrow> bi_current it < bi_restarts it"

definition bi_value :: "Block_Iter \<Rightarrow> bytes" where
  "bi_value it = take (value_len it) (drop (value_off it) (bi_data it))"

text \<open>The cleared value of a corrupt block points outside it and is set again before it is used.\<close>

definition CorruptionError :: "Block_Iter \<Rightarrow> Block_Iter" where
  "CorruptionError it =
     it\<lparr>bi_current := bi_restarts it, restart_index := num_restarts it,
        bi_status := Corruption ''bad entry in block'', bi_key := [], value_off := 0, value_len := 0\<rparr>"

function advance_restart_index :: "Block_Iter \<Rightarrow> Block_Iter" where
  "advance_restart_index it =
     (if restart_index it + 1 < num_restarts it \<and> GetRestartPoint it (restart_index it + 1) < bi_current it
      then advance_restart_index (it\<lparr>restart_index := restart_index it + 1\<rparr>) else it)"
  by pat_completeness auto
termination
  by (relation "measure (\<lambda>it. num_restarts it - restart_index it)") auto

declare advance_restart_index.simps [simp del]

definition ParseNextKey :: "Block_Iter \<Rightarrow> bool \<times> Block_Iter" where
  "ParseNextKey it0 =
     (let it = it0\<lparr>bi_current := NextEntryOffset it0\<rparr>
      in if bi_current it \<ge> bi_restarts it
         then (False, it\<lparr>bi_current := bi_restarts it, restart_index := num_restarts it\<rparr>)
         else case DecodeEntry (take (bi_restarts it - bi_current it) (drop (bi_current it) (bi_data it))) of
                None \<Rightarrow> (False, CorruptionError it)
              | Some (shared, non_shared, value_length, p) \<Rightarrow>
                  if length (bi_key it) < unat shared then (False, CorruptionError it)
                  else
                    let pos = bi_restarts it - length p
                    in (True, advance_restart_index
                          (it\<lparr>bi_key := take (unat shared) (bi_key it)
                                 @ take (unat non_shared) (drop pos (bi_data it)),
                              value_off := pos + unat non_shared, value_len := unat value_length\<rparr>)))"

text \<open>The three loops of the form \<open>while (ParseNextKey() && cond)\<close>.\<close>

function parse_while :: "(Block_Iter \<Rightarrow> bool) \<Rightarrow> Block_Iter \<Rightarrow> Block_Iter" where
  "parse_while cond it =
     (let (ok, it1) = ParseNextKey it in if ok \<and> cond it1 then parse_while cond it1 else it1)"
  by pat_completeness auto
termination
proof (relation "measure (\<lambda>(cond, it). bi_restarts it - NextEntryOffset it)", goal_cases)
  case (2 cond it x ok it1)
  have keep: "value_off (advance_restart_index z) = value_off z \<and> value_len (advance_restart_index z) = value_len z
      \<and> restarts_w (advance_restart_index z) = restarts_w z" for z
    by (induction z rule: advance_restart_index.induct) (subst (1 2 3) advance_restart_index.simps, simp)
  let ?c = "NextEntryOffset it" and ?r = "bi_restarts it"
  obtain sh ns vl p where d: "DecodeEntry (take (?r - ?c) (drop ?c (bi_data it))) = Some (sh, ns, vl, p)"
    and c: "?c < ?r" and off: "value_off it1 = ?r - length p + unat ns" "value_len it1 = unat vl"
    and r1: "restarts_w it1 = restarts_w it"
    using 2 keep by (auto simp: ParseNextKey_def Let_def bi_restarts_def NextEntryOffset_def
        split: if_splits option.splits prod.splits)
  let ?x = "take (?r - ?c) (drop ?c (bi_data it))"
  have short: "length q < length y" if "GetVarint32Ptr y = Some (v, q)" for y v q
    using GetVarint_suffix(1) [of y v q] that by (auto simp: GetVarint32_def strict_suffix_def suffix_def)
  have p: "length p + 3 \<le> length ?x" "\<not> (of_nat (length p) :: u32) < ns + vl"
    using d by (auto simp: DecodeEntry_def Let_def bind_eq_Some_conv dest!: short split: if_splits option.splits)
  have r32: "?r < 2 ^ 32" using unat_less [of "restarts_w it"] by (simp add: bi_restarts_def)
  have len: "length p + 3 \<le> ?r - ?c" using p(1) by simp
  then have "unat (of_nat (length p) :: u32) = length p" using r32 by (simp add: unat_of_nat_length)
  then have sum: "unat (ns + vl) \<le> length p" using p(2) by (simp add: word_less_nat_alt)
  have "NextEntryOffset it1 = (?r - length p + (unat ns + unat vl) mod 2 ^ 32) mod 2 ^ 32"
    by (simp add: NextEntryOffset_def off mod_simps add.assoc)
  also have "\<dots> = ?r - length p + unat (ns + vl)"
    using sum len r32 by (simp add: unat_word_ariths)
  finally show ?case using len sum c r1 by (simp add: bi_restarts_def)
qed simp

declare parse_while.simps [simp del]

definition bi_Next :: "Block_Iter \<Rightarrow> Block_Iter" where
  "bi_Next it = snd (ParseNextKey it)"

fun Prev_scan :: "Block_Iter \<Rightarrow> nat \<Rightarrow> nat \<Rightarrow> nat option" where
  "Prev_scan it original 0 = (if GetRestartPoint it 0 \<ge> original then None else Some 0)"
| "Prev_scan it original (Suc i) = (if GetRestartPoint it (Suc i) \<ge> original then Prev_scan it original i else Some (Suc i))"

definition bi_Prev :: "Block_Iter \<Rightarrow> Block_Iter" where
  "bi_Prev it =
     (let original = bi_current it
      in case Prev_scan it original (restart_index it) of
           None \<Rightarrow> it\<lparr>bi_current := bi_restarts it, restart_index := num_restarts it\<rparr>
         | Some i \<Rightarrow> parse_while (\<lambda>it. NextEntryOffset it < original) (SeekToRestartPoint it i))"

text \<open>The binary search over the restart points: \<open>None\<close> is a corrupt block.\<close>

function Seek_search :: "(bytes \<Rightarrow> bytes \<Rightarrow> int) \<Rightarrow> Block_Iter \<Rightarrow> bytes \<Rightarrow> nat \<Rightarrow> nat \<Rightarrow> nat option" where
  "Seek_search cmp it target left right =
     (if left < right then
        let mid = (left + right + 1) div 2;
            region_offset = GetRestartPoint it mid
        in case DecodeEntry (take (bi_restarts it - region_offset) (drop region_offset (bi_data it))) of
             None \<Rightarrow> None
           | Some (shared, non_shared, value_length, p) \<Rightarrow>
               if shared \<noteq> 0 then None
               else
                 let mid_key = take (unat non_shared) (drop (bi_restarts it - length p) (bi_data it))
                 in if cmp mid_key target < 0 then Seek_search cmp it target mid right
                    else Seek_search cmp it target left (mid - 1)
      else Some left)"
  by pat_completeness auto
termination
  by (relation "measure (\<lambda>(cmp, it, target, left, right). right - left)") (auto split: if_splits)

declare Seek_search.simps [simp del]

definition bi_Seek :: "(bytes \<Rightarrow> bytes \<Rightarrow> int) \<Rightarrow> Block_Iter \<Rightarrow> bytes \<Rightarrow> Block_Iter" where
  "bi_Seek cmp it target =
     (let current_key_compare = (if bi_Valid it then cmp (bi_key it) target else 0);
          left = (if bi_Valid it \<and> current_key_compare < 0 then restart_index it else 0);
          right = (if bi_Valid it \<and> current_key_compare > 0 then restart_index it else num_restarts it - 1)
      in if bi_Valid it \<and> current_key_compare = 0 then it
         else case Seek_search cmp it target left right of
                None \<Rightarrow> CorruptionError it
              | Some left \<Rightarrow>
                  let skip_seek = (left = restart_index it \<and> current_key_compare < 0)
                  in parse_while (\<lambda>it. cmp (bi_key it) target < 0)
                       (if \<not> skip_seek then SeekToRestartPoint it left else it))"

definition bi_SeekToFirst :: "Block_Iter \<Rightarrow> Block_Iter" where
  "bi_SeekToFirst it = snd (ParseNextKey (SeekToRestartPoint it 0))"

definition bi_SeekToLast :: "Block_Iter \<Rightarrow> Block_Iter" where
  "bi_SeekToLast it =
     parse_while (\<lambda>it. NextEntryOffset it < bi_restarts it) (SeekToRestartPoint it (num_restarts it - 1))"

definition block_iter_ops :: "(bytes \<Rightarrow> bytes \<Rightarrow> int) \<Rightarrow> Block_Iter iter_ops" where
  "block_iter_ops cmp =
     \<lparr>op_Valid = bi_Valid, op_SeekToFirst = bi_SeekToFirst, op_SeekToLast = bi_SeekToLast, op_Seek = bi_Seek cmp,
      op_Next = bi_Next, op_Prev = bi_Prev, op_key = bi_key, op_value = bi_value, op_status = bi_status\<rparr>"

text \<open>\<open>NewIterator\<close>: an empty or an error iterator (\<open>Inl\<close> its status), or an iterator over the block.\<close>

definition Block_NewIterator :: "Block \<Rightarrow> status + Block_Iter" where
  "Block_NewIterator b =
     (if blk_size b < 4 then Inl (NewErrorIterator (Corruption ''bad block contents''))
      else let num = NumRestarts (blk_data b) (blk_size b)
           in if num = 0 then Inl NewEmptyIterator
              else Inr (new_Iter (blk_data b) (restart_offset b) num))"

section \<open>The contract\<close>

text \<open>
  What a block holds: entries with the length of the prefix each shares with the key before it, and
  the indices of the entries at restart points, which share nothing.
\<close>

type_synonym lentry = "nat \<times> bytes \<times> bytes"

definition lentry_bytes :: "lentry \<Rightarrow> bytes" where
  "lentry_bytes e =
     (case e of (sh, k, v) \<Rightarrow>
        EncodeVarint32 (of_nat sh) @ EncodeVarint32 (of_nat (length k - sh)) @ EncodeVarint32 (of_nat (length v))
        @ drop sh k @ v)"

definition body :: "lentry list \<Rightarrow> bytes" where
  "body es = concat (map lentry_bytes es)"

definition off :: "lentry list \<Rightarrow> nat \<Rightarrow> nat" where
  "off es i = length (body (take i es))"

abbreviation lkey :: "lentry \<Rightarrow> bytes" where "lkey e \<equiv> fst (snd e)"
abbreviation lval :: "lentry \<Rightarrow> bytes" where "lval e \<equiv> snd (snd e)"

text \<open>The prefix of entry \<open>i\<close> is one of the key \<open>prev\<close>.\<close>

definition shares :: "bytes \<Rightarrow> lentry \<Rightarrow> bool" where
  "shares prev e \<longleftrightarrow> fst e < 2 ^ 32 \<and> fst e \<le> length prev \<and> fst e \<le> length (lkey e) \<and> take (fst e) prev = take (fst e) (lkey e)"

definition chain :: "lentry list \<Rightarrow> bool" where
  "chain es \<longleftrightarrow> (\<forall>i < length es. shares (if i = 0 then [] else lkey (es ! (i - 1))) (es ! i))"

definition restarts_ok :: "lentry list \<Rightarrow> nat list \<Rightarrow> bool" where
  "restarts_ok es ris \<longleftrightarrow> ris \<noteq> [] \<and> ris ! 0 = 0 \<and> sorted_wrt (<) ris \<and> (es = [] \<longrightarrow> ris = [0])
     \<and> (\<forall>i \<in> set ris. i < length es \<or> es = []) \<and> (\<forall>i \<in> set ris. i < length es \<longrightarrow> fst (es ! i) = 0)"

definition block_bytes :: "lentry list \<Rightarrow> nat list \<Rightarrow> bytes" where
  "block_bytes es ris =
     body es @ concat (map (\<lambda>i. EncodeFixed32 (of_nat (off es i))) ris) @ EncodeFixed32 (of_nat (length ris))"

definition block_layout :: "bytes \<Rightarrow> lentry list \<Rightarrow> nat list \<Rightarrow> bool" where
  "block_layout data es ris \<longleftrightarrow>
     data = block_bytes es ris \<and> length data < 2 ^ 32 \<and> chain es \<and> restarts_ok es ris"

text \<open>The fields that do not change, the state before an entry is parsed, and the state at an entry.\<close>

definition bi_fixed :: "Block_Iter \<Rightarrow> lentry list \<Rightarrow> nat list \<Rightarrow> bool" where
  "bi_fixed it es ris \<longleftrightarrow>
     block_layout (bi_data it) es ris \<and> bi_restarts it = length (body es) \<and> num_restarts it = length ris
     \<and> bi_status it = OK"

definition bi_ready :: "Block_Iter \<Rightarrow> lentry list \<Rightarrow> nat list \<Rightarrow> nat \<Rightarrow> bool" where
  "bi_ready it es ris p \<longleftrightarrow>
     bi_fixed it es ris \<and> p \<le> length es \<and> NextEntryOffset it = off es p
     \<and> (p < length es \<longrightarrow> shares (bi_key it) (es ! p))
     \<and> restart_index it < length ris \<and> (es \<noteq> [] \<longrightarrow> ris ! restart_index it \<le> p)"

definition bi_pos :: "Block_Iter \<Rightarrow> lentry list \<Rightarrow> nat list \<Rightarrow> nat \<Rightarrow> bool" where
  "bi_pos it es ris p \<longleftrightarrow>
     bi_fixed it es ris \<and> p \<le> length es
     \<and> (if p < length es
         then bi_current it = off es p \<and> bi_key it = lkey (es ! p)
              \<and> value_off it = off es (p + 1) - length (lval (es ! p)) \<and> value_len it = length (lval (es ! p))
              \<and> restart_index it < length ris \<and> ris ! restart_index it \<le> p
              \<and> (\<forall>i. restart_index it < i \<longrightarrow> i < length ris \<longrightarrow> p \<le> ris ! i)
         else bi_current it = bi_restarts it)"

definition bi_at :: "(bytes \<Rightarrow> bytes \<Rightarrow> int) \<Rightarrow> Block_Iter \<Rightarrow> entry list \<Rightarrow> nat \<Rightarrow> bool" where
  "bi_at cmp it kvs p \<longleftrightarrow> entries_sorted cmp kvs \<and> (\<exists>es ris. kvs = map snd es \<and> bi_pos it es ris p)"

text \<open>What a builder holds.\<close>

definition bb_rep :: "BlockBuilder \<Rightarrow> lentry list \<Rightarrow> nat list \<Rightarrow> bool" where
  "bb_rep b es ris \<longleftrightarrow>
     0 < bb_interval b \<and> bb_buffer b = body es \<and> bb_restarts b = map (off es) ris \<and> chain es \<and> restarts_ok es ris
     \<and> bb_last_key b = (if es = [] then [] else lkey (last es)) \<and> (es = [] \<longrightarrow> bb_counter b = 0)"

text \<open>The entries a client adds.\<close>

definition bb_add_all :: "BlockBuilder \<Rightarrow> entry list \<Rightarrow> BlockBuilder" where
  "bb_add_all b kvs = foldl (\<lambda>b (k, v). bb_Add b k v) b kvs"

section \<open>Entries\<close>

text \<open>The fast path of \<open>DecodeEntry\<close> gives what the three varints give.\<close>

lemma GetVarint32Ptr_small: "(ucast b :: u32) < 128 \<Longrightarrow> GetVarint32Ptr (b # q) = Some (ucast b, q)"
  using last_byte(2) [of "ucast b :: u32"] by (simp add: GetVarint32Ptr_def)

lemma or_less_128: "(a OR b :: u32) < 128 \<longleftrightarrow> a < 128 \<and> b < 128"
proof -
  have "x < 128 \<longleftrightarrow> drop_bit 7 x = 0" for x :: u32
  proof -
    have "drop_bit 7 x = 0 \<longleftrightarrow> unat (drop_bit 7 x) = 0" by (simp add: unat_eq_0)
    then show ?thesis by (simp add: unat_drop_bit word_less_nat_alt div_eq_0_iff del: unat_eq_0)
  qed
  moreover have "x OR y = 0 \<longleftrightarrow> x = 0 \<and> y = 0" for x y :: u32
    by (auto simp: bit_eq_iff bit_simps)
  ultimately show ?thesis by simp
qed

lemma DecodeEntry_varints:
  "DecodeEntry p =
     (if length p < 3 then None
      else case Option.bind (GetVarint32Ptr p) (\<lambda>(sh, p). Option.bind (GetVarint32Ptr p) (\<lambda>(ns, p).
             Option.bind (GetVarint32Ptr p) (\<lambda>(vl, p). Some (sh, ns, vl, p)))) of
             None \<Rightarrow> None
           | Some (sh, ns, vl, p) \<Rightarrow> if (of_nat (length p) :: u32) < ns + vl then None else Some (sh, ns, vl, p))"
proof (cases "length p < 3")
  case False
  then obtain a b c q where p: "p = a # b # c # q"
    by (cases p; cases "tl p"; cases "tl (tl p)") auto
  show ?thesis by (auto simp: DecodeEntry_def Let_def p or_less_128 GetVarint32Ptr_small)
qed (simp add: DecodeEntry_def)

lemma DecodeEntry_bytes:
  assumes "sh \<le> length k" and "length (lentry_bytes (sh, k, v) @ rest) < 2 ^ 32" and "sh < 2 ^ 32"
  shows "DecodeEntry (lentry_bytes (sh, k, v) @ rest)
    = Some (of_nat sh, of_nat (length k - sh), of_nat (length v), drop sh k @ v @ rest)"
proof -
  have sizes: "length k - sh + length v + length rest < 2 ^ 32" using assms(2) by (simp add: lentry_bytes_def)
  have "\<not> (of_nat (length (drop sh k @ v @ rest)) :: u32) < of_nat (length k - sh) + of_nat (length v)"
    unfolding of_nat_add [symmetric] word_less_nat_alt using sizes by (simp add: unat_of_nat_length del: of_nat_add)
  moreover have "\<not> length (lentry_bytes (sh, k, v) @ rest) < 3"
    using length_EncodeVarint32_le(2) [of "of_nat sh"] length_EncodeVarint32_le(2) [of "of_nat (length k - sh)"]
      length_EncodeVarint32_le(2) [of "of_nat (length v)"]
    unfolding lentry_bytes_def by (simp del: of_nat_diff length_greater_0_conv)
  ultimately show ?thesis
    unfolding DecodeEntry_varints by (simp add: lentry_bytes_def)
qed

lemma lentry_length: "3 \<le> length (lentry_bytes e)"
  using length_EncodeVarint32_le(2) [of "of_nat (fst e)"] length_EncodeVarint32_le(2) [of "of_nat (length (lkey e) - fst e)"]
    length_EncodeVarint32_le(2) [of "of_nat (length (lval e))"]
  unfolding lentry_bytes_def by (cases e) (simp del: of_nat_diff length_greater_0_conv)

lemma lentry_value: "length (lval e) \<le> length (lentry_bytes e)"
  by (cases e) (simp add: lentry_bytes_def)

lemma body_simps [simp]: "body [] = []" "body (e # es) = lentry_bytes e @ body es" "body (es @ fs) = body es @ body fs"
  by (simp_all add: body_def)

lemma off_simps: "off es 0 = 0" "length es \<le> p \<Longrightarrow> off es p = length (body es)"
  by (simp_all add: off_def)

lemma off_Suc: "p < length es \<Longrightarrow> off es (Suc p) = off es p + length (lentry_bytes (es ! p))"
  by (simp add: off_def take_Suc_conv_app_nth)

lemma off_append: "p \<le> length es \<Longrightarrow> off (es @ fs) p = off es p"
  by (simp add: off_def)

lemma off_less: "p < q \<Longrightarrow> q \<le> length es \<Longrightarrow> off es p < off es q"
proof (induction "q - p" arbitrary: q)
  case (Suc n)
  then obtain r where q: "q = Suc r" by (cases q) auto
  have step: "off es r < off es q" using Suc.prems lentry_length [of "es ! r"] by (auto simp: q off_Suc)
  show ?case
  proof (cases "p = r")
    case False
    then have "off es p < off es r" using Suc.hyps(1) [of r] Suc.hyps(2) Suc.prems q by simp
    then show ?thesis using step by simp
  qed (use step in simp)
qed simp

lemma off_less_iff: "p \<le> length es \<Longrightarrow> q \<le> length es \<Longrightarrow> off es p < off es q \<longleftrightarrow> p < q"
  using off_less [of p q es] off_less [of q p es] by (cases p q rule: linorder_cases) auto

lemma off_le_iff: "p \<le> length es \<Longrightarrow> q \<le> length es \<Longrightarrow> off es p \<le> off es q \<longleftrightarrow> p \<le> q"
  using off_less_iff [of q es p] by (meson linorder_not_less)

lemma body_drop: "p < length es \<Longrightarrow> drop (off es p) (body es) = lentry_bytes (es ! p) @ body (drop (Suc p) es)"
proof -
  assume p: "p < length es"
  have "body es = body (take p es) @ body (drop p es)" by (metis append_take_drop_id body_simps(3))
  then show ?thesis using p by (simp add: off_def Cons_nth_drop_Suc [symmetric])
qed

lemma off_le_body: "off es p \<le> length (body es)"
  by (metis append_take_drop_id body_simps(3) le_add1 length_append off_def)

section \<open>Parsing\<close>

lemma layout_facts:
  assumes "block_layout data es ris"
  shows "take (length (body es)) data = body es" and "length (body es) < 2 ^ 32" and "off es p < 2 ^ 32"
    and "length data = length (body es) + length ris * 4 + 4"
proof -
  show "take (length (body es)) data = body es" and len: "length data = length (body es) + length ris * 4 + 4"
    using assms by (simp_all add: block_layout_def block_bytes_def length_concat_fixed32)
  then show "length (body es) < 2 ^ 32" using assms by (simp add: block_layout_def)
  then show "off es p < 2 ^ 32" using off_le_body [of es p] by linarith
qed

lemma layout_restart:
  assumes "block_layout data es ris" and "i < length ris"
  shows "unat (DecodeFixed32 (drop (length (body es) + i * 4) data)) = off es (ris ! i)"
proof -
  have "drop (length (body es) + i * 4) data = EncodeFixed32 (of_nat (off es (ris ! i)))
      @ concat (map (\<lambda>x. EncodeFixed32 (of_nat (off es x))) (drop (Suc i) ris)) @ EncodeFixed32 (of_nat (length ris))"
    using assms concat_fixed32_nth [OF assms(2), of "\<lambda>x. of_nat (off es x)" "EncodeFixed32 (of_nat (length ris))"]
    by (simp add: block_layout_def block_bytes_def add.commute)
  then show ?thesis using layout_facts(3) [OF assms(1)] by (simp add: unat_of_nat_length)
qed

lemma layout_entry:
  assumes l: "block_layout data es ris" and p: "p < length es"
  shows "DecodeEntry (take (length (body es) - off es p) (drop (off es p) data))
      = Some (of_nat (fst (es ! p)), of_nat (length (lkey (es ! p)) - fst (es ! p)), of_nat (length (lval (es ! p))),
              drop (fst (es ! p)) (lkey (es ! p)) @ lval (es ! p) @ body (drop (Suc p) es))" (is "DecodeEntry ?x = Some ?y")
    and "fst (es ! p) < 2 ^ 32" and "length (lkey (es ! p)) - fst (es ! p) < 2 ^ 32" and "length (lval (es ! p)) < 2 ^ 32"
    and "fst (es ! p) \<le> length (lkey (es ! p))"
proof -
  obtain sh k v where e: "es ! p = (sh, k, v)" by (cases "es ! p")
  have x: "?x = lentry_bytes (es ! p) @ body (drop (Suc p) es)"
    using layout_facts(1) [OF l] body_drop [OF p] by (metis drop_take)
  have len: "length ?x < 2 ^ 32" using layout_facts(2) [OF l] by simp
  have sh: "sh \<le> length k" "sh < 2 ^ 32" using l p e by (auto simp: block_layout_def chain_def shares_def)
  show "DecodeEntry ?x = Some ?y"
    using DecodeEntry_bytes [OF sh(1) _ sh(2), of v "body (drop (Suc p) es)"] len unfolding x e by simp
  have "length (lentry_bytes (es ! p)) < 2 ^ 32" using len unfolding x by simp
  then show "fst (es ! p) < 2 ^ 32" "length (lkey (es ! p)) - fst (es ! p) < 2 ^ 32" "length (lval (es ! p)) < 2 ^ 32"
    "fst (es ! p) \<le> length (lkey (es ! p))"
    using sh by (simp_all add: e lentry_bytes_def)
qed

lemma advance_keeps:
  "value_off (advance_restart_index it) = value_off it" "value_len (advance_restart_index it) = value_len it"
  "bi_restarts (advance_restart_index it) = bi_restarts it" "bi_data (advance_restart_index it) = bi_data it"
  "bi_current (advance_restart_index it) = bi_current it" "bi_key (advance_restart_index it) = bi_key it"
  "num_restarts (advance_restart_index it) = num_restarts it" "bi_status (advance_restart_index it) = bi_status it"
  by (induction it rule: advance_restart_index.induct; subst advance_restart_index.simps; simp add: bi_restarts_def)+

lemma GetRestartPoint_eq: "bi_fixed it es ris \<Longrightarrow> i < length ris \<Longrightarrow> GetRestartPoint it i = off es (ris ! i)"
  by (simp add: GetRestartPoint_def bi_fixed_def layout_restart)

lemma advance_index:
  assumes "bi_fixed it es ris" and "bi_current it = off es p" and "p < length es"
    and "restart_index it < length ris" and "ris ! restart_index it \<le> p"
  shows "restart_index (advance_restart_index it) < length ris \<and> ris ! restart_index (advance_restart_index it) \<le> p
    \<and> (\<forall>i. restart_index (advance_restart_index it) < i \<longrightarrow> i < length ris \<longrightarrow> p \<le> ris ! i)"
  using assms
proof (induction it rule: advance_restart_index.induct)
  case (1 it)
  let ?i = "restart_index it"
  have num: "num_restarts it = length ris" using "1.prems"(1) by (simp add: bi_fixed_def)
  have ris: "sorted_wrt (<) ris" "\<And>i. i < length ris \<Longrightarrow> ris ! i < length es"
    using "1.prems"(1,3) by (auto simp: bi_fixed_def block_layout_def restarts_ok_def)
  show ?case
  proof (cases "?i + 1 < num_restarts it \<and> GetRestartPoint it (?i + 1) < bi_current it")
    case True
    then have "ris ! (?i + 1) < p"
      using GetRestartPoint_eq [OF "1.prems"(1), of "?i + 1"] "1.prems"(2,3) num ris(2) [of "?i + 1"]
      by (simp add: off_less_iff)
    then show ?thesis
      using True "1.IH" [OF True] "1.prems" num
      by (subst (1 2 3) advance_restart_index.simps) (simp add: bi_fixed_def bi_restarts_def)
  next
    case False
    then have stop: "advance_restart_index it = it" by (subst advance_restart_index.simps) auto
    have "p \<le> ris ! j" if "?i < j" "j < length ris" for j
    proof -
      have "off es p \<le> off es (ris ! (?i + 1))"
        using False GetRestartPoint_eq [OF "1.prems"(1), of "?i + 1"] "1.prems"(2) num that by auto
      then have "p \<le> ris ! (?i + 1)" using that ris(2) [of "?i + 1"] "1.prems"(3) by (simp add: off_le_iff)
      also have "ris ! (?i + 1) \<le> ris ! j"
        using ris(1) that by (cases "?i + 1 = j") (auto simp: sorted_wrt_iff_nth_less intro: less_imp_le)
      finally show ?thesis .
    qed
    then show ?thesis using stop "1.prems" by simp
  qed
qed

lemma ParseNextKey_Some:
  assumes "NextEntryOffset it = c" and "c < bi_restarts it"
    and "DecodeEntry (take (bi_restarts it - c) (drop c (bi_data it))) = Some (sh, ns, vl, p)"
    and "unat sh \<le> length (bi_key it)"
  shows "ParseNextKey it = (True, advance_restart_index
    (it\<lparr>bi_current := c, bi_key := take (unat sh) (bi_key it) @ take (unat ns) (drop (bi_restarts it - length p) (bi_data it)),
        value_off := bi_restarts it - length p + unat ns, value_len := unat vl\<rparr>))"
  using assms by (simp add: ParseNextKey_def Let_def bi_restarts_def)

lemma parse_entry:
  assumes ready: "bi_ready it es ris p" and p: "p < length es"
  shows "\<exists>it'. ParseNextKey it = (True, it') \<and> bi_pos it' es ris p"
proof -
  let ?e = "es ! p" and ?it = "it\<lparr>bi_current := off es p\<rparr>"
  have fixed: "bi_fixed it es ris" and l: "block_layout (bi_data it) es ris"
    and r: "bi_restarts it = length (body es)" and next_off: "NextEntryOffset it = off es p"
    using ready by (auto simp: bi_ready_def bi_fixed_def)
  have c: "off es p < length (body es)" using p off_less [of p "length es" es] by (simp add: off_simps)
  note d = layout_entry [OF l p]
  have sh: "take (fst ?e) (bi_key it) = take (fst ?e) (lkey ?e)" "fst ?e \<le> length (bi_key it)"
    using ready p by (auto simp: bi_ready_def shares_def)
  let ?rest = "drop (fst ?e) (lkey ?e) @ lval ?e @ body (drop (Suc p) es)"
  let ?pos = "length (body es) - length ?rest"
  have pos: "?pos + (length (lkey ?e) - fst ?e) + length (lval ?e) = off es (Suc p)" "length ?rest \<le> length (body es)"
  proof -
    have "length (body es) = off es (Suc p) + length (body (drop (Suc p) es))"
      by (metis append_take_drop_id body_simps(3) length_append off_def)
    moreover have "length (lkey ?e) - fst ?e + length (lval ?e) \<le> off es (Suc p)"
      using p off_Suc [OF p] by (cases ?e) (simp add: lentry_bytes_def)
    ultimately show "?pos + (length (lkey ?e) - fst ?e) + length (lval ?e) = off es (Suc p)"
      "length ?rest \<le> length (body es)" by simp_all
  qed
  have rest: "drop ?pos (body es) = ?rest"
  proof -
    obtain pre where "lentry_bytes ?e = pre @ drop (fst ?e) (lkey ?e) @ lval ?e"
      by (cases ?e) (simp add: lentry_bytes_def)
    then have "body es = (take (off es p) (body es) @ pre) @ ?rest"
      using body_drop [OF p] append_take_drop_id [of "off es p" "body es"] by simp
    then obtain A where A: "body es = A @ ?rest" by blast
    have "?pos = length A" unfolding A by simp
    then show ?thesis by (simp only: A append_eq_conv_conj [of A ?rest, symmetric] drop_append) simp
  qed
  have data: "take n (drop ?pos (bi_data it)) = take n ?rest" if "n \<le> length ?rest" for n
  proof -
    obtain T where "bi_data it = body es @ T" using l by (auto simp: block_layout_def block_bytes_def)
    then have "drop ?pos (bi_data it) = ?rest @ T" using rest by (simp only: drop_append) simp
    then show ?thesis using that by simp
  qed
  let ?it1 = "it\<lparr>bi_current := off es p, bi_key := take (fst ?e) (bi_key it) @ take (length (lkey ?e) - fst ?e) (drop ?pos (bi_data it)),
      value_off := ?pos + (length (lkey ?e) - fst ?e), value_len := length (lval ?e)\<rparr>"
  have key: "bi_key ?it1 = lkey ?e" using data [of "length (lkey ?e) - fst ?e"] sh(1) by simp
  have "ParseNextKey it = (True, advance_restart_index ?it1)"
    using ParseNextKey_Some [OF next_off _ d(1) [folded r]] c sh(2) r
    unfolding unat_of_nat_length [OF d(2)] unat_of_nat_length [OF d(3)] unat_of_nat_length [OF d(4)] by simp
  moreover have "bi_pos (advance_restart_index ?it1) es ris p"
  proof -
    have f: "bi_fixed ?it1 es ris" using fixed by (simp add: bi_fixed_def bi_restarts_def)
    have i: "restart_index ?it1 < length ris" "ris ! restart_index ?it1 \<le> p" using ready p by (auto simp: bi_ready_def)
    have v: "value_off ?it1 = off es (p + 1) - length (lval ?e)" using pos(1) by simp
    have f': "bi_fixed (advance_restart_index ?it1) es ris"
      using f unfolding bi_fixed_def advance_keeps .
    show ?thesis
      unfolding bi_pos_def advance_keeps key v
      using f' advance_index [OF f _ p i] p by simp
  qed
  ultimately show ?thesis by blast
qed

lemma parse_end:
  assumes "bi_ready it es ris (length es)"
  shows "\<exists>it'. ParseNextKey it = (False, it') \<and> bi_pos it' es ris (length es)"
  using assms by (simp add: ParseNextKey_def Let_def bi_ready_def bi_pos_def bi_fixed_def bi_restarts_def off_simps)

lemma pos_ready:
  assumes pos: "bi_pos it es ris p" and p: "p < length es"
  shows "bi_ready it es ris (p + 1)"
proof -
  have l: "block_layout (bi_data it) es ris" using pos by (simp add: bi_pos_def bi_fixed_def)
  have "length (lval (es ! p)) \<le> off es (Suc p)" using off_Suc [OF p] lentry_value [of "es ! p"] by simp
  then have "NextEntryOffset it = off es (p + 1)"
    using pos p layout_facts(3) [OF l, of "p + 1"] by (simp add: NextEntryOffset_def bi_pos_def)
  moreover have "p + 1 < length es \<longrightarrow> shares (bi_key it) (es ! (p + 1))"
    using pos p l by (auto simp: bi_pos_def block_layout_def chain_def)
  ultimately show ?thesis using pos p by (auto simp: bi_ready_def bi_pos_def)
qed

lemma seek_restart_ready:
  assumes fixed: "bi_fixed it es ris" and i: "i < length ris"
  shows "bi_ready (SeekToRestartPoint it i) es ris (if es = [] then 0 else ris ! i)"
proof -
  have l: "block_layout (bi_data it) es ris" using fixed by (simp add: bi_fixed_def)
  have r: "restarts_ok es ris" using l by (simp add: block_layout_def)
  have "off es (ris ! i) < 2 ^ 32" by (rule layout_facts(3) [OF l])
  then have off: "NextEntryOffset (SeekToRestartPoint it i) = off es (ris ! i)"
    by (simp add: NextEntryOffset_def SeekToRestartPoint_def GetRestartPoint_eq [OF fixed i])
  have "es \<noteq> [] \<Longrightarrow> ris ! i < length es \<and> fst (es ! (ris ! i)) = 0" using r i by (auto simp: restarts_ok_def)
  then show ?thesis
    using fixed i off by (auto simp: bi_ready_def bi_fixed_def bi_restarts_def SeekToRestartPoint_def shares_def off_simps off_def)
qed

text \<open>The loops: parsing goes on while a condition on the position holds.\<close>

lemma parse_while_pos:
  assumes "bi_ready it es ris p" and "p \<le> q" and "q \<le> length es"
    and "\<And>it i. bi_pos it es ris i \<Longrightarrow> p \<le> i \<Longrightarrow> i < length es \<Longrightarrow> i \<le> q \<Longrightarrow> cond it \<longleftrightarrow> i < q"
  shows "bi_pos (parse_while cond it) es ris q"
  using assms
proof (induction "q - p" arbitrary: it p)
  case 0
  then have q: "q = p" by simp
  show ?case
  proof (cases "p < length es")
    case True
    obtain it' where "ParseNextKey it = (True, it')" "bi_pos it' es ris p" using parse_entry [OF "0.prems"(1) True] by blast
    then show ?thesis using "0.prems"(4) [of it' p] True q by (subst parse_while.simps) simp
  next
    case False
    then have "p = length es" using "0.prems"(3) q by simp
    then show ?thesis using parse_end [of it es ris] "0.prems"(1) q by (subst parse_while.simps) auto
  qed
next
  case (Suc n)
  then have p: "p < length es" by simp
  obtain it' where it': "ParseNextKey it = (True, it')" "bi_pos it' es ris p" using parse_entry [OF Suc.prems(1) p] by blast
  have "bi_pos (parse_while cond it') es ris q"
    using Suc.hyps(1) [of "p + 1" it'] Suc.hyps(2) Suc.prems(2-4) pos_ready [OF it'(2) p] by simp
  then show ?case using it' Suc.prems(2) Suc.prems(4) [of it' p] Suc.hyps(2) p by (subst parse_while.simps) auto
qed

lemma pos_fixed: "bi_pos it es ris p \<Longrightarrow> bi_fixed it es ris"
  by (simp add: bi_pos_def)

lemma Next_pos:
  assumes "bi_pos it es ris p" and "p < length es"
  shows "bi_pos (bi_Next it) es ris (p + 1)"
proof (cases "p + 1 < length es")
  case True
  then show ?thesis using parse_entry [OF pos_ready [OF assms]] by (auto simp: bi_Next_def)
next
  case False
  then have "p + 1 = length es" using assms(2) by simp
  then show ?thesis using parse_end [of it es ris] pos_ready [OF assms] by (auto simp: bi_Next_def)
qed

lemma restarts_first: "bi_fixed it es ris \<Longrightarrow> 0 < length ris \<and> ris ! 0 = 0"
  by (auto simp: bi_fixed_def block_layout_def restarts_ok_def)

lemma SeekToFirst_pos:
  assumes "bi_fixed it es ris"
  shows "bi_pos (bi_SeekToFirst it) es ris 0"
proof -
  have ready: "bi_ready (SeekToRestartPoint it 0) es ris 0"
    using seek_restart_ready [OF assms, of 0] restarts_first [OF assms] by (simp split: if_splits)
  show ?thesis
  proof (cases "es = []")
    case True
    then show ?thesis using parse_end [of "SeekToRestartPoint it 0" es ris] ready by (auto simp: bi_SeekToFirst_def)
  next
    case False
    then show ?thesis using parse_entry [OF ready] by (auto simp: bi_SeekToFirst_def)
  qed
qed

lemma NextEntryOffset_pos: "bi_pos it es ris i \<Longrightarrow> i < length es \<Longrightarrow> NextEntryOffset it = off es (i + 1)"
  using pos_ready [of it es ris i] by (simp add: bi_ready_def)

lemma SeekToLast_pos:
  assumes fixed: "bi_fixed it es ris"
  shows "bi_pos (bi_SeekToLast it) es ris (length es - 1)"
proof -
  have n: "num_restarts it = length ris" "length ris - 1 < length ris"
    using fixed restarts_first [OF fixed] by (auto simp: bi_fixed_def)
  let ?p = "if es = [] then 0 else ris ! (length ris - 1)"
  have "es \<noteq> [] \<Longrightarrow> ris ! (length ris - 1) < length es"
    using fixed n by (auto simp: bi_fixed_def block_layout_def restarts_ok_def)
  then have p: "?p \<le> length es - 1" by auto
  show ?thesis
    unfolding bi_SeekToLast_def n(1)
  proof (rule parse_while_pos [OF seek_restart_ready [OF fixed n(2)] p])
    fix it' i
    assume it': "bi_pos it' es ris i" "i < length es" "i \<le> length es - 1"
    have "bi_restarts it' = off es (length es)" using it'(1) by (simp add: bi_pos_def bi_fixed_def off_simps)
    then show "NextEntryOffset it' < bi_restarts it' \<longleftrightarrow> i < length es - 1"
      using NextEntryOffset_pos [OF it'(1,2)] it'(2) by (auto simp: off_less_iff)
  qed simp
qed

lemma Prev_scan_eq:
  assumes "bi_fixed it es ris" and "i < length ris" and "p < length es" and "es \<noteq> []"
  shows "case Prev_scan it (off es p) i of None \<Rightarrow> p = 0 | Some j \<Rightarrow> j < length ris \<and> ris ! j < p"
  using assms(2)
proof (induction i)
  case 0
  then show ?case using GetRestartPoint_eq [OF assms(1), of 0] restarts_first [OF assms(1)] assms(3)
    off_le_iff [of p es 0] off_less_iff [of 0 es p] by (auto simp: off_simps)
next
  case (Suc i)
  have "ris ! Suc i < length es"
    using assms(1,4) Suc.prems by (auto simp: bi_fixed_def block_layout_def restarts_ok_def)
  then show ?case
    using Suc GetRestartPoint_eq [OF assms(1), of "Suc i"] assms(3) off_le_iff [of p es "ris ! Suc i"]
    by (auto split: option.splits)
qed

lemma Prev_pos:
  assumes pos: "bi_pos it es ris p" and p: "p < length es"
  shows "bi_pos (bi_Prev it) es ris (if p = 0 then length es else p - 1)"
proof -
  have fixed: "bi_fixed it es ris" and i: "restart_index it < length ris" and c: "bi_current it = off es p"
    using pos p by (auto simp: bi_pos_def)
  have ne: "es \<noteq> []" using p by auto
  note scan = Prev_scan_eq [OF fixed i p ne]
  show ?thesis
  proof (cases "Prev_scan it (off es p) (restart_index it)")
    case None
    then have "p = 0" using scan by simp
    then show ?thesis using None fixed c by (simp add: bi_Prev_def bi_pos_def bi_fixed_def bi_restarts_def)
  next
    case (Some j)
    then have j: "j < length ris" "ris ! j < p" using scan by auto
    have "bi_pos (parse_while (\<lambda>it. NextEntryOffset it < off es p) (SeekToRestartPoint it j)) es ris (p - 1)"
    proof (rule parse_while_pos [where p = "ris ! j"])
      show "bi_ready (SeekToRestartPoint it j) es ris (ris ! j)" using seek_restart_ready [OF fixed j(1)] ne by simp
      fix it' k
      assume "bi_pos it' es ris k" "k < length es" "k \<le> p - 1"
      then show "NextEntryOffset it' < off es p \<longleftrightarrow> k < p - 1"
        using p j(2) by (simp add: NextEntryOffset_pos off_less_iff) linarith
    qed (use j p in auto)
    then show ?thesis using Some c j by (simp add: bi_Prev_def)
  qed
qed

section \<open>Seeking\<close>

lemma restart_decode:
  assumes fixed: "bi_fixed it es ris" and m: "m < length ris" and ne: "es \<noteq> []"
  shows "\<exists>ns vl p. DecodeEntry (take (bi_restarts it - GetRestartPoint it m) (drop (GetRestartPoint it m) (bi_data it)))
      = Some (0, ns, vl, p)
    \<and> take (unat ns) (drop (bi_restarts it - length p) (bi_data it)) = lkey (es ! (ris ! m))"
proof -
  let ?q = "ris ! m"
  have l: "block_layout (bi_data it) es ris" using fixed by (simp add: bi_fixed_def)
  have q: "?q < length es" "fst (es ! ?q) = 0" using l m ne by (auto simp: block_layout_def restarts_ok_def)
  note d = layout_entry [OF l q(1)]
  obtain it' where it': "ParseNextKey (SeekToRestartPoint it m) = (True, it')" "bi_pos it' es ris ?q"
    using parse_entry [OF seek_restart_ready [OF fixed m]] q ne by auto
  have off: "NextEntryOffset (SeekToRestartPoint it m) = GetRestartPoint it m" "GetRestartPoint it m = off es ?q"
    using seek_restart_ready [OF fixed m] ne GetRestartPoint_eq [OF fixed m] by (simp_all add: bi_ready_def)
  have c: "off es ?q < bi_restarts it"
    using q(1) off_less [of ?q "length es" es] fixed by (simp add: off_simps bi_fixed_def)
  have r: "bi_restarts (SeekToRestartPoint it m) = bi_restarts it" "bi_data (SeekToRestartPoint it m) = bi_data it"
    by (simp_all add: SeekToRestartPoint_def bi_restarts_def)
  obtain ns vl p where dec: "DecodeEntry (take (bi_restarts it - off es ?q) (drop (off es ?q) (bi_data it))) = Some (0, ns, vl, p)"
    using d(1) q(2) fixed by (simp add: bi_fixed_def)
  have "ParseNextKey (SeekToRestartPoint it m) = (True, advance_restart_index
      (SeekToRestartPoint it m\<lparr>bi_current := off es ?q,
        bi_key := take (unat (0 :: u32)) (bi_key (SeekToRestartPoint it m))
          @ take (unat ns) (drop (bi_restarts it - length p) (bi_data it)),
        value_off := bi_restarts it - length p + unat ns, value_len := unat vl\<rparr>))"
    using ParseNextKey_Some [of "SeekToRestartPoint it m" "off es ?q" 0 ns vl p] off c dec r by simp
  then have "bi_key it' = take (unat ns) (drop (bi_restarts it - length p) (bi_data it))"
    using it'(1) by (auto simp: advance_keeps)
  then show ?thesis using it'(2) q(1) dec off by (auto simp: bi_pos_def)
qed

text \<open>The search ends at its left end or at a restart point below the target.\<close>

lemma Seek_search_eq:
  assumes fixed: "bi_fixed it es ris" and ne: "es \<noteq> []" and "right < length ris" and "left \<le> right"
  shows "\<exists>m. Seek_search cmp it target left right = Some m \<and> left \<le> m \<and> m \<le> right
    \<and> (m = left \<or> cmp (lkey (es ! (ris ! m))) target < 0)"
  using assms(3,4)
proof (induction "right - left" arbitrary: left right rule: less_induct)
  case less
  show ?case
  proof (cases "left < right")
    case True
    let ?mid = "(left + right + 1) div 2"
    have mid: "left < ?mid" "?mid \<le> right" "?mid < length ris" using True less.prems by auto
    obtain ns vl p where d: "DecodeEntry (take (bi_restarts it - GetRestartPoint it ?mid) (drop (GetRestartPoint it ?mid) (bi_data it)))
        = Some (0, ns, vl, p)" "take (unat ns) (drop (bi_restarts it - length p) (bi_data it)) = lkey (es ! (ris ! ?mid))"
      using restart_decode [OF fixed mid(3) ne] by blast
    have step: "Seek_search cmp it target left right =
        (if cmp (lkey (es ! (ris ! ?mid))) target < 0 then Seek_search cmp it target ?mid right
         else Seek_search cmp it target left (?mid - 1))"
      using True d by (subst Seek_search.simps) (simp add: Let_def)
    show ?thesis
    proof (cases "cmp (lkey (es ! (ris ! ?mid))) target < 0")
      case low: True
      obtain m where "Seek_search cmp it target ?mid right = Some m" "?mid \<le> m" "m \<le> right"
        "m = ?mid \<or> cmp (lkey (es ! (ris ! m))) target < 0"
        using less.hyps [of right ?mid, OF diff_less_mono2 [OF mid(1) True] less.prems(1) mid(2)] by blast
      then show ?thesis using step low mid by auto
    next
      case False
      obtain m where "Seek_search cmp it target left (?mid - 1) = Some m" "left \<le> m" "m \<le> ?mid - 1"
        "m = left \<or> cmp (lkey (es ! (ris ! m))) target < 0"
      proof -
        have "?mid - 1 - left < right - left" "?mid - 1 < length ris" "left \<le> ?mid - 1" using mid by linarith+
        then show ?thesis using less.hyps that by blast
      qed
      then show ?thesis using step False mid by auto
    qed
  next
    case False
    then show ?thesis using less.prems by (subst Seek_search.simps) simp
  qed
qed

locale bytes_comparator = comparator cmp for cmp :: "bytes \<Rightarrow> bytes \<Rightarrow> int"

context bytes_comparator
begin

lemma sorted_before:
  assumes "entries_sorted cmp es" and "j < length es" and "cmp (fst (es ! j)) t < 0" and "i \<le> j"
  shows "cmp (fst (es ! i)) t < 0"
proof (cases "i = j")
  case False
  then have "cmp (fst (es ! i)) (fst (es ! j)) < 0" using assms by (simp add: entries_sorted_nth)
  then show ?thesis using assms(3) cmp_less_trans by blast
qed (use assms in simp)

lemma first_ge_above:
  assumes "s \<le> length es" and "\<And>i. i < s \<Longrightarrow> cmp (fst (es ! i)) t < 0"
  shows "s \<le> first_ge cmp t es"
  using assms first_ge_at [of cmp t es] by (meson linorder_not_less order_less_le_trans)

lemma linear_search:
  assumes sorted: "entries_sorted cmp (map snd es)" and ready: "bi_ready it es ris s"
    and before: "\<And>i. i < s \<Longrightarrow> cmp (lkey (es ! i)) t < 0"
  shows "bi_pos (parse_while (\<lambda>it. cmp (bi_key it) t < 0) it) es ris (first_ge cmp t (map snd es))"
proof (rule parse_while_pos [OF ready])
  have s: "s \<le> length es" using ready by (simp add: bi_ready_def)
  then show "s \<le> first_ge cmp t (map snd es)" using before by (intro first_ge_above) auto
  show "first_ge cmp t (map snd es) \<le> length es" using first_ge_le [of cmp t "map snd es"] by simp
  fix it' i
  assume it': "bi_pos it' es ris i" "i < length es" "i \<le> first_ge cmp t (map snd es)"
  have "bi_key it' = lkey (es ! i)" using it' by (simp add: bi_pos_def)
  then show "cmp (bi_key it') t < 0 \<longleftrightarrow> i < first_ge cmp t (map snd es)"
    using it'(2,3) first_ge_before [of i cmp t "map snd es"] first_ge_at [of cmp t "map snd es"]
    by (cases "i = first_ge cmp t (map snd es)") auto
qed

lemma Seek_pos:
  assumes sorted: "entries_sorted cmp (map snd es)" and pos: "bi_pos it es ris p"
  shows "bi_pos (bi_Seek cmp it t) es ris (first_ge cmp t (map snd es))"
proof -
  have fixed: "bi_fixed it es ris" by (rule pos_fixed [OF pos])
  have num: "num_restarts it = length ris" "0 < length ris" "ris ! 0 = 0"
    using fixed restarts_first [OF fixed] by (auto simp: bi_fixed_def)
  have valid: "bi_Valid it \<longleftrightarrow> p < length es"
    using pos fixed off_less [of p "length es" es] by (auto simp: bi_Valid_def bi_pos_def bi_fixed_def off_simps split: if_splits)
  have key: "p < length es \<Longrightarrow> bi_key it = lkey (es ! p)" "p < length es \<Longrightarrow> restart_index it < length ris"
    "p < length es \<Longrightarrow> ris ! restart_index it \<le> p"
    using pos by (auto simp: bi_pos_def)
  let ?c = "if bi_Valid it then cmp (bi_key it) t else 0"
  let ?left = "if bi_Valid it \<and> ?c < 0 then restart_index it else 0"
  let ?right = "if bi_Valid it \<and> ?c > 0 then restart_index it else num_restarts it - 1"
  show ?thesis
  proof (cases "bi_Valid it \<and> ?c = 0")
    case True
    then have c: "cmp (lkey (es ! p)) t = 0" "p < length es" using valid key(1) by auto
    have "first_ge cmp t (map snd es) = p"
    proof (rule first_ge_eqI)
      fix i assume i: "i < p"
      then have "cmp (lkey (es ! i)) (lkey (es ! p)) < 0" using entries_sorted_nth [OF sorted, of i p] c(2) by simp
      then show "cmp (fst (map snd es ! i)) t < 0" using cmp_eq_right [OF c(1)] i c(2) by simp
    qed (use c in auto)
    then show ?thesis using True pos by (auto simp: bi_Seek_def Let_def)
  next
    case False
    have bounds: "?right < length ris" "?left \<le> ?right" using key(2) valid num by auto
    obtain m where m: "Seek_search cmp it t ?left ?right = Some m" "m \<le> ?right"
      "m = ?left \<or> es \<noteq> [] \<and> cmp (lkey (es ! (ris ! m))) t < 0"
    proof (cases "es = []")
      case True
      then have "ris = [0]" "\<not> bi_Valid it" using fixed valid by (auto simp: bi_fixed_def block_layout_def restarts_ok_def)
      then show ?thesis using that num by (auto simp: Seek_search.simps)
    next
      case False
      then show ?thesis using Seek_search_eq [OF fixed False bounds, of cmp t] that by blast
    qed
    let ?skip = "m = restart_index it \<and> ?c < 0"
    let ?it = "if \<not> ?skip then SeekToRestartPoint it m else it"
    let ?s = "if ?skip then p + 1 else if es = [] then 0 else ris ! m"
    have "bi_ready ?it es ris ?s"
      using seek_restart_ready [OF fixed, of m] m(2) bounds(1) pos_ready [OF pos] valid by (auto split: if_splits)
    moreover have "cmp (lkey (es ! i)) t < 0" if i: "i < ?s" for i
    proof (cases ?skip)
      case True
      then have "p < length es" "cmp (lkey (es ! p)) t < 0" using valid key(1) by (auto split: if_splits)
      then show ?thesis using sorted_before [OF sorted, of p t i] True i by simp
    next
      case no: False
      then have "es \<noteq> []" "i < ris ! m" using i by (auto split: if_splits)
      moreover have "ris ! m < length es"
        using \<open>es \<noteq> []\<close> fixed m(2) bounds(1) by (auto simp: bi_fixed_def block_layout_def restarts_ok_def)
      moreover have "cmp (lkey (es ! (ris ! m))) t < 0"
        using m(3) no \<open>i < ris ! m\<close> num(3) by (auto split: if_splits)
      ultimately show ?thesis using sorted_before [OF sorted, of "ris ! m" t i] by simp
    qed
    ultimately have "bi_pos (parse_while (\<lambda>it. cmp (bi_key it) t < 0) ?it) es ris (first_ge cmp t (map snd es))"
      by (rule linear_search [OF sorted])
    moreover have "bi_Seek cmp it t = parse_while (\<lambda>it. cmp (bi_key it) t < 0) ?it"
      using False m(1) unfolding bi_Seek_def Let_def by (simp only: if_False option.case)
    ultimately show ?thesis by simp
  qed
qed

end

lemma pos_value:
  assumes pos: "bi_pos it es ris p" and p: "p < length es"
  shows "bi_value it = lval (es ! p)"
proof -
  have l: "block_layout (bi_data it) es ris" using pos by (simp add: bi_pos_def bi_fixed_def)
  obtain T where T: "bi_data it = body es @ T" using l by (auto simp: block_layout_def block_bytes_def)
  obtain pre where pre: "lentry_bytes (es ! p) = pre @ lval (es ! p)"
    by (cases "es ! p") (simp add: lentry_bytes_def)
  let ?A = "body (take p es) @ pre"
  have "body (take (Suc p) es) = ?A @ lval (es ! p)" using p pre by (simp add: take_Suc_conv_app_nth)
  then have A: "off es (Suc p) = length ?A + length (lval (es ! p))" unfolding off_def by simp
  have "body es = ?A @ lval (es ! p) @ body (drop (Suc p) es)"
    using body_drop [OF p] pre append_take_drop_id [of "off es p" "body es"]
    by (metis append.assoc append_take_drop_id body_simps(3) \<open>body (take (Suc p) es) = ?A @ lval (es ! p)\<close>)
  then have "drop (length ?A) (bi_data it) = lval (es ! p) @ body (drop (Suc p) es) @ T" using T by simp
  then show ?thesis using pos p A by (simp add: bi_value_def bi_pos_def)
qed

sublocale bytes_comparator \<subseteq> block_iter: iterator_contract "block_iter_ops cmp" cmp "bi_at cmp"
proof
  fix it kvs p t
  assume at: "bi_at cmp it kvs p"
  then obtain es ris where e: "kvs = map snd es" "bi_pos it es ris p" and sorted: "entries_sorted cmp kvs"
    by (auto simp: bi_at_def)
  have fixed: "bi_fixed it es ris" by (rule pos_fixed [OF e(2)])
  have ops: "op_Valid (block_iter_ops cmp) = bi_Valid" "op_key (block_iter_ops cmp) = bi_key"
    "op_value (block_iter_ops cmp) = bi_value" "op_status (block_iter_ops cmp) = bi_status"
    "op_SeekToFirst (block_iter_ops cmp) = bi_SeekToFirst" "op_SeekToLast (block_iter_ops cmp) = bi_SeekToLast"
    "op_Seek (block_iter_ops cmp) = bi_Seek cmp" "op_Next (block_iter_ops cmp) = bi_Next"
    "op_Prev (block_iter_ops cmp) = bi_Prev"
    by (simp_all add: block_iter_ops_def)
  show "entries_sorted cmp kvs \<and> p \<le> length kvs" using sorted e by (simp add: bi_pos_def)
  show "op_Valid (block_iter_ops cmp) it \<longleftrightarrow> p < length kvs"
    using e fixed off_less [of p "length es" es]
    by (auto simp: ops bi_Valid_def bi_pos_def bi_fixed_def off_simps split: if_splits)
  show "op_status (block_iter_ops cmp) it = OK" using fixed by (simp add: ops bi_fixed_def)
  show "p < length kvs \<Longrightarrow> op_key (block_iter_ops cmp) it = fst (kvs ! p)" using e by (simp add: ops bi_pos_def)
  show "p < length kvs \<Longrightarrow> op_value (block_iter_ops cmp) it = snd (kvs ! p)" using e by (simp add: ops pos_value)
  show "bi_at cmp (op_SeekToFirst (block_iter_ops cmp) it) kvs 0"
    using sorted e(1) SeekToFirst_pos [OF fixed] by (auto simp: ops bi_at_def)
  show "bi_at cmp (op_SeekToLast (block_iter_ops cmp) it) kvs (length kvs - 1)"
    using sorted e(1) SeekToLast_pos [OF fixed] by (auto simp: ops bi_at_def)
  show "bi_at cmp (op_Seek (block_iter_ops cmp) it t) kvs (first_ge cmp t kvs)"
    using sorted e(1) Seek_pos [of es it ris p t] e(2) by (auto simp: ops bi_at_def)
  show "p < length kvs \<Longrightarrow> bi_at cmp (op_Next (block_iter_ops cmp) it) kvs (p + 1)"
    using sorted e(1) Next_pos [OF e(2)] by (auto simp: ops bi_at_def)
  show "p < length kvs \<Longrightarrow> bi_at cmp (op_Prev (block_iter_ops cmp) it) kvs (if p = 0 then length kvs else p - 1)"
    using sorted Prev_pos [OF e(2)] unfolding ops bi_at_def e(1) length_map by blast
qed

context bytes_comparator
begin

lemma block_run_displays:
  "bi_at cmp it kvs p \<Longrightarrow> displays (block_iter_ops cmp) (foldl (exec (block_iter_ops cmp)) it moves) kvs
     (foldl (move cmp kvs) p moves)"
  by (rule block_iter.run_displays)

end

interpretation bytewise_block: bytes_comparator slice_compare ..

section \<open>Building\<close>

lemma bb_rep_new: "0 < interval \<Longrightarrow> bb_rep (new_BlockBuilder interval) [] [0]"
  by (simp add: bb_rep_def new_BlockBuilder_def chain_def restarts_ok_def off_def)

lemma bb_rep_Reset: "bb_rep b es ris \<Longrightarrow> bb_rep (bb_Reset b) [] [0]"
  by (simp add: bb_rep_def bb_Reset_def chain_def restarts_ok_def off_def)

lemma chain_snoc:
  assumes "chain es" and "shares (if es = [] then [] else lkey (last es)) e"
  shows "chain (es @ [e])"
  unfolding chain_def
proof (intro allI impI)
  fix i assume i: "i < length (es @ [e])"
  show "shares (if i = 0 then [] else lkey ((es @ [e]) ! (i - 1))) ((es @ [e]) ! i)"
  proof (cases "i = length es")
    case True
    then show ?thesis using assms(2) by (auto simp: nth_append last_conv_nth)
  next
    case False
    then have i: "i < length es" using i by simp
    have "shares (if i = 0 then [] else lkey (es ! (i - 1))) (es ! i)" using assms(1) i by (simp add: chain_def)
    then show ?thesis using i by (cases i) (simp_all add: nth_append)
  qed
qed

lemma restarts_ok_snoc: "restarts_ok es ris \<Longrightarrow> es = [] \<longrightarrow> fst e = 0 \<Longrightarrow> restarts_ok (es @ [e]) ris"
  by (auto simp: restarts_ok_def nth_append)

lemma restarts_ok_push:
  "restarts_ok es ris \<Longrightarrow> es \<noteq> [] \<Longrightarrow> fst e = 0 \<Longrightarrow> restarts_ok (es @ [e]) (ris @ [length es])"
  by (auto simp: restarts_ok_def nth_append sorted_wrt_append)

lemma restarts_bound: "restarts_ok es ris \<Longrightarrow> i \<in> set ris \<Longrightarrow> i \<le> length es"
  by (auto simp: restarts_ok_def)

lemma bb_rep_Add:
  assumes rep: "bb_rep b es ris" and k: "length k < 2 ^ 32"
  shows "\<exists>sh ris'. bb_rep (bb_Add b k v) (es @ [(sh, k, v)]) ris'"
proof (cases "bb_counter b < bb_interval b")
  case True
  let ?last = "if es = [] then [] else lkey (last es)"
  let ?sh = "common_length ?last k"
  have last: "bb_last_key b = ?last" using rep by (simp add: bb_rep_def)
  have sh: "?sh \<le> length k" "?sh \<le> length ?last" by (rule common_length_le)+
  have "shares ?last (?sh, k, v)"
    using sh k common_length_take [of ?last k] by (simp add: shares_def)
  moreover have "take ?sh ?last @ drop ?sh k = k"
    using common_length_take [of ?last k] by (metis append_take_drop_id)
  moreover have "es = [] \<longrightarrow> ?sh = 0" by simp
  moreover have "map (off (es @ [(?sh, k, v)])) ris = map (off es) ris"
    by (rule map_cong [OF refl]) (rule off_append, rule restarts_bound, use rep in \<open>simp_all add: bb_rep_def\<close>)
  ultimately have "bb_rep (bb_Add b k v) (es @ [(?sh, k, v)]) ris"
    using rep True last chain_snoc [of es "(?sh, k, v)"] restarts_ok_snoc [of es ris "(?sh, k, v)"]
    by (simp add: bb_rep_def bb_Add_def PutVarint32_def lentry_bytes_def)
  then show ?thesis by blast
next
  case False
  have ne: "es \<noteq> []" using rep False by (auto simp: bb_rep_def)
  have "map (off (es @ [(0, k, v)])) (ris @ [length es]) = map (off es) ris @ [length (body es)]"
    using rep restarts_bound [of es ris] by (auto simp: bb_rep_def off_append off_simps)
  then have "bb_rep (bb_Add b k v) (es @ [(0, k, v)]) (ris @ [length es])"
    using rep False ne chain_snoc [of es "(0, k, v)"] restarts_ok_push [of es ris "(0, k, v)"]
    by (simp add: bb_rep_def bb_Add_def PutVarint32_def lentry_bytes_def shares_def)
  then show ?thesis by blast
qed

lemma bb_rep_add_all:
  "bb_rep b es ris \<Longrightarrow> \<forall>(k, v) \<in> set kvs. length k < 2 ^ 32 \<Longrightarrow>
     \<exists>es' ris'. bb_rep (bb_add_all b kvs) es' ris' \<and> map snd es' = map snd es @ kvs"
proof (induction kvs arbitrary: b es ris)
  case (Cons kv kvs)
  obtain k v where kv: "kv = (k, v)" by (cases kv)
  obtain sh ris1 where r: "bb_rep (bb_Add b k v) (es @ [(sh, k, v)]) ris1" 
    using bb_rep_Add [OF Cons.prems(1), of k v] Cons.prems(2) kv by auto
  show ?case using Cons.IH [OF r] Cons.prems(2) kv by (auto simp: bb_add_all_def)
qed (auto simp: bb_add_all_def)

lemma bb_Finish_eq: "bb_rep b es ris \<Longrightarrow> fst (bb_Finish b) = block_bytes es ris"
  unfolding bb_Finish_def Let_def foldl_PutFixed32
  by (simp add: bb_rep_def block_bytes_def PutFixed32_def comp_def)

lemma size_estimate: "length (fst (bb_Finish b)) = CurrentSizeEstimate b"
  unfolding bb_Finish_def Let_def foldl_PutFixed32
  by (simp add: CurrentSizeEstimate_def PutFixed32_def length_concat_fixed32)

lemma open_block:
  assumes l: "block_layout data es ris"
  shows "\<exists>it. Block_NewIterator (new_Block data) = Inr it \<and> bi_pos it es ris (length es)"
proof -
  have len: "length data = length (body es) + length ris * 4 + 4" by (rule layout_facts(4) [OF l])
  have "length ris < 2 ^ 32" using l len by (simp add: block_layout_def)
  moreover have "drop (length data - 4) data = EncodeFixed32 (of_nat (length ris))"
    using l len by (simp add: block_layout_def block_bytes_def length_concat_fixed32)
  ultimately have num: "NumRestarts data (length data) = length ris"
    using DecodeFixed_Encode_Nil(1) [of "of_nat (length ris)"] by (simp add: NumRestarts_def unat_of_nat_length)
  have ris: "0 < length ris" using l by (auto simp: block_layout_def restarts_ok_def)
  have "Block_NewIterator (new_Block data) = Inr (new_Iter data (length (body es)) (length ris))"
    using len num ris by (simp add: Block_NewIterator_def new_Block_def Let_def)
  moreover have "bi_pos (new_Iter data (length (body es)) (length ris)) es ris (length es)"
    using l layout_facts(2) [OF l]
    by (simp add: bi_pos_def bi_fixed_def new_Iter_def bi_restarts_def unat_of_nat_length)
  ultimately show ?thesis by blast
qed

lemma built_block:
  assumes "0 < interval" and "\<forall>(k, v) \<in> set kvs. length k < 2 ^ 32" and "entries_sorted cmp kvs"
    and "CurrentSizeEstimate (bb_add_all (new_BlockBuilder interval) kvs) < 2 ^ 32"
  shows "\<exists>it. Block_NewIterator (new_Block (fst (bb_Finish (bb_add_all (new_BlockBuilder interval) kvs)))) = Inr it
    \<and> bi_at cmp it kvs (length kvs)"
proof -
  let ?b = "bb_add_all (new_BlockBuilder interval) kvs"
  obtain es ris where rep: "bb_rep ?b es ris" and kvs: "map snd es = kvs"
    using bb_rep_add_all [OF bb_rep_new [OF assms(1)] assms(2)] by auto
  have "block_layout (fst (bb_Finish ?b)) es ris"
    using rep bb_Finish_eq [OF rep] size_estimate [of ?b] assms(4) by (simp add: block_layout_def bb_rep_def)
  then obtain it where "Block_NewIterator (new_Block (fst (bb_Finish ?b))) = Inr it" "bi_pos it es ris (length es)"
    using open_block by blast
  then show ?thesis using kvs assms(3) unfolding bi_at_def by (metis length_map)
qed

section \<open>Properties\<close>

text \<open>
  C6. A block gives back what was put into it, through every sequence of moves: an iterator over a
  block built from sorted entries shows, after any mix of seeks to a key, to the first and to the
  last entry and of steps forward and back, what a cursor moved in the same way over the entries shows.
\<close>

theorem block_iterator_refines_cursor:
  assumes "comparator cmp" and "entries_sorted cmp kvs" and "0 < interval"
    and "\<forall>(k, v) \<in> set kvs. length k < 2 ^ 32"
    and "CurrentSizeEstimate (bb_add_all (new_BlockBuilder interval) kvs) < 2 ^ 32"
  shows "\<exists>it. Block_NewIterator (new_Block (fst (bb_Finish (bb_add_all (new_BlockBuilder interval) kvs)))) = Inr it
    \<and> (\<forall>moves. displays (block_iter_ops cmp) (foldl (exec (block_iter_ops cmp)) it moves) kvs
           (foldl (move cmp kvs) (length kvs) moves))"
proof -
  have c: "bytes_comparator cmp" using assms(1) by (simp add: bytes_comparator_def)
  show ?thesis
    using built_block [OF assms(3,4,2,5)] bytes_comparator.block_run_displays [OF c] by blast
qed

theorem block_iterator_refines_cursor_witness:
  "\<exists>it. Block_NewIterator (new_Block (fst (bb_Finish (bb_add_all (new_BlockBuilder 2) [([1], [5]), ([1, 2], [])])))) = Inr it
    \<and> bi_key (bi_Seek slice_compare it [1, 1]) = [1, 2]"
proof -
  let ?kvs = "[([1], [5]), ([1, 2], [])] :: entry list"
  have "CurrentSizeEstimate (bb_add_all (new_BlockBuilder 2) ?kvs) < 2 ^ 32"
    by (simp add: bb_add_all_def bb_Add_def new_BlockBuilder_def CurrentSizeEstimate_def PutVarint32_def EncodeVarint32_def)
  then obtain it where it: "Block_NewIterator (new_Block (fst (bb_Finish (bb_add_all (new_BlockBuilder 2) ?kvs)))) = Inr it"
    "\<And>moves. displays (block_iter_ops slice_compare) (foldl (exec (block_iter_ops slice_compare)) it moves) ?kvs
      (foldl (move slice_compare ?kvs) (length ?kvs) moves)"
    using block_iterator_refines_cursor [OF bytewise.comparator_axioms, of ?kvs 2] by (auto simp: entries_sorted_def)
  have "first_ge slice_compare [1, 1] ?kvs = 1" by (simp add: first_ge_def)
  then show ?thesis using it(1) it(2) [of "[ToKey [1, 1]]"] by (simp add: displays_def block_iter_ops_def)
qed

text \<open>
  C28. The size estimate of a builder is exact: it is the length of the block that \<open>Finish\<close> returns.
\<close>

theorem block_size_estimate_exact: "CurrentSizeEstimate b = length (fst (bb_Finish b))"
  by (simp add: size_estimate)


end
