(* ===== verification/Bloom.thy ===== *)
theory Bloom
  imports Coding
begin

text \<open>
  \<open>util/hash.cc\<close> and \<open>util/bloom.cc\<close>: the hash function and the Bloom filter policy, and the interface of a
  filter policy (\<open>include/leveldb/filter_policy.h\<close>) as the locale \<open>filter_policy\<close>: a filter is appended
  to the destination and matches every key it was made from.
\<close>

section \<open>Hash\<close>

definition hash_m :: u32 where "hash_m = 0xc6a4a793"

fun Hash_loop :: "bytes \<Rightarrow> u32 \<Rightarrow> u32 \<times> bytes" where
  "Hash_loop (a # b # c # d # data) h =
     (let w = DecodeFixed32 [a, b, c, d];
          h = h + w;
          h = h * hash_m;
          h = h XOR drop_bit 16 h
      in Hash_loop data h)"
| "Hash_loop data h = (h, data)"

definition Hash :: "bytes \<Rightarrow> u32 \<Rightarrow> u32" where
  "Hash data seed =
     (let (h, rest) = Hash_loop data (seed XOR (of_nat (length data) * hash_m));
          h = (if length rest = 3 then h + push_bit 16 (ucast (rest ! 2)) else h);
          h = (if length rest \<ge> 2 then h + push_bit 8 (ucast (rest ! 1)) else h)
      in if length rest \<ge> 1
         then let h = (h + ucast (rest ! 0)) * hash_m in h XOR drop_bit 24 h
         else h)"

section \<open>Bloom filters\<close>

definition BloomHash :: "bytes \<Rightarrow> u32" where
  "BloomHash key = Hash key 0xbc9f1d34"

record BloomFilterPolicy =
  bits_per_key :: nat
  bloom_k :: nat

text \<open>\<open>bits_per_key * 0.69\<close>, rounded down; more than 30 probes are never used.\<close>

definition NewBloomFilterPolicy :: "nat \<Rightarrow> BloomFilterPolicy" where
  "NewBloomFilterPolicy bits =
     (let k = bits * 69 div 100;
          k = (if k < 1 then 1 else k);
          k = (if k > 30 then 30 else k)
      in \<lparr>bits_per_key = bits, bloom_k = k\<rparr>)"

definition bloom_delta :: "u32 \<Rightarrow> u32" where
  "bloom_delta h = drop_bit 17 h OR push_bit 15 h"

definition set_bit_at :: "bytes \<Rightarrow> nat \<Rightarrow> bytes" where
  "set_bit_at arr bitpos =
     arr[bitpos div 8 := (if bitpos div 8 < length arr then arr ! (bitpos div 8) else 0) OR push_bit (bitpos mod 8) 1]"

fun set_probes :: "nat \<Rightarrow> u32 \<Rightarrow> u32 \<Rightarrow> nat \<Rightarrow> bytes \<Rightarrow> bytes" where
  "set_probes 0 h delta bits arr = arr"
| "set_probes (Suc j) h delta bits arr =
     set_probes j (h + delta) delta bits (set_bit_at arr (unat h mod bits))"

definition add_key :: "nat \<Rightarrow> nat \<Rightarrow> bytes \<Rightarrow> bytes \<Rightarrow> bytes" where
  "add_key k bits arr key = (let h = BloomHash key; delta = bloom_delta h in set_probes k h delta bits arr)"

definition filter_bytes :: "BloomFilterPolicy \<Rightarrow> nat \<Rightarrow> nat" where
  "filter_bytes p n =
     (let bits = n * bits_per_key p; bits = (if bits < 64 then 64 else bits) in (bits + 7) div 8)"

definition CreateFilter :: "BloomFilterPolicy \<Rightarrow> bytes list \<Rightarrow> bytes \<Rightarrow> bytes" where
  "CreateFilter p keys dst =
     (let n = filter_bytes p (length keys); bits = n * 8
      in dst @ foldl (add_key (bloom_k p) bits) (replicate n 0) keys @ [of_nat (bloom_k p)])"

definition probe :: "bytes \<Rightarrow> nat \<Rightarrow> bool" where
  "probe arr bitpos \<longleftrightarrow> byte_at arr (bitpos div 8) AND push_bit (bitpos mod 8) 1 \<noteq> 0"

fun test_probes :: "nat \<Rightarrow> u32 \<Rightarrow> u32 \<Rightarrow> nat \<Rightarrow> bytes \<Rightarrow> bool" where
  "test_probes 0 h delta bits arr = True"
| "test_probes (Suc j) h delta bits arr =
     (let bitpos = unat h mod bits
      in if \<not> probe arr bitpos then False else test_probes j (h + delta) delta bits arr)"

text \<open>The count of probes is a \<open>char\<close> widened to \<open>size_t\<close>: from 128 on it is huge, and above 30 either way.\<close>

definition Bloom_KeyMayMatch :: "bytes \<Rightarrow> bytes \<Rightarrow> bool" where
  "Bloom_KeyMayMatch key bloom_filter =
     (let len = length bloom_filter
      in if len < 2 then False
         else let bits = (len - 1) * 8;
                  k = unat (bloom_filter ! (len - 1))
              in if k > 30 then True
                 else let h = BloomHash key in test_probes k h (bloom_delta h) bits bloom_filter)"

section \<open>The interface\<close>

locale filter_policy =
  fixes create :: "bytes list \<Rightarrow> bytes \<Rightarrow> bytes" and may_match :: "bytes \<Rightarrow> bytes \<Rightarrow> bool"
  assumes create_append: "create keys dst = dst @ create keys []"
    and create_match: "key \<in> set keys \<Longrightarrow> may_match key (create keys [])"

section \<open>No false negatives\<close>

lemma set_bit_at_length [simp]: "length (set_bit_at arr i) = length arr"
  by (simp add: set_bit_at_def)

lemma set_probes_length [simp]: "length (set_probes j h d bits arr) = length arr"
  by (induction j h d bits arr rule: set_probes.induct) simp_all

lemma probe_bit: "probe arr i \<longleftrightarrow> bit (byte_at arr (i div 8)) (i mod 8)"
  by (simp add: probe_def and_exp_eq_0_iff_not_bit)

lemma probe_set: "i < length arr * 8 \<Longrightarrow> probe (set_bit_at arr i) j \<longleftrightarrow> j = i \<or> probe arr j"
proof -
  assume "i < length arr * 8"
  then have i: "i div 8 < length arr" by (simp add: less_mult_imp_div_less)
  have eq: "j = i \<longleftrightarrow> j div 8 = i div 8 \<and> j mod 8 = i mod 8" by (metis div_mult_mod_eq)
  have "j mod 8 < 8" "i mod 8 < 8" by simp_all
  then show ?thesis
    using i unfolding probe_bit set_bit_at_def byte_at_def eq
    by (auto simp: bit_simps nth_list_update)
qed

lemma set_probes_keeps:
  "0 < bits \<Longrightarrow> bits \<le> length arr * 8 \<Longrightarrow> probe arr i \<Longrightarrow> probe (set_probes j h d bits arr) i"
proof (induction j h d bits arr rule: set_probes.induct)
  case (2 j h d bits arr)
  have "unat h mod bits < length arr * 8" using 2(2,3) mod_less_divisor [of bits "unat h"] by linarith
  then show ?case using 2 by (simp add: probe_set)
qed simp

text \<open>The bits of a key, and that they stay set.\<close>

lemma test_probes_mono:
  assumes "test_probes j h d bits arr" and "\<And>i. probe arr i \<Longrightarrow> probe arr' i"
  shows "test_probes j h d bits arr'"
  using assms by (induction j h d bits arr rule: test_probes.induct) (auto simp: Let_def split: if_splits)

lemma test_set_probes:
  "0 < bits \<Longrightarrow> bits \<le> length arr * 8 \<Longrightarrow> test_probes j h d bits (set_probes j h d bits arr)"
proof (induction j h d bits arr rule: set_probes.induct)
  case (2 j h d bits arr)
  have i: "unat h mod bits < length arr * 8" using 2(2,3) mod_less_divisor [of bits "unat h"] by linarith
  have "probe (set_probes j (h + d) d bits (set_bit_at arr (unat h mod bits))) (unat h mod bits)"
    using 2 i by (intro set_probes_keeps) (simp_all add: probe_set)
  then show ?case using 2 by (simp add: Let_def)
qed simp

lemma add_key_length [simp]: "length (add_key k bits arr key) = length arr"
  by (simp add: add_key_def Let_def)

lemma add_keys_length [simp]: "length (foldl (add_key k bits) arr keys) = length arr"
  by (induction keys arbitrary: arr) simp_all

lemma add_keys_keep:
  "0 < bits \<Longrightarrow> bits \<le> length arr * 8 \<Longrightarrow> probe arr i \<Longrightarrow> probe (foldl (add_key k bits) arr keys) i"
  by (induction keys arbitrary: arr) (simp_all add: add_key_def Let_def set_probes_keeps)

lemma test_all_keys:
  assumes "0 < bits" and "bits \<le> length arr * 8" and "key \<in> set keys"
  shows "test_probes k (BloomHash key) (bloom_delta (BloomHash key)) bits (foldl (add_key k bits) arr keys)"
  using assms(2,3)
proof (induction keys arbitrary: arr)
  case (Cons x keys)
  show ?case
  proof (cases "key = x")
    case True
    have t: "test_probes k (BloomHash key) (bloom_delta (BloomHash key)) bits (add_key k bits arr x)"
      using assms(1) Cons.prems(1) True by (simp add: add_key_def Let_def test_set_probes)
    show ?thesis
      using test_probes_mono [OF t, of "foldl (add_key k bits) (add_key k bits arr x) keys"]
        add_keys_keep [OF assms(1), of "add_key k bits arr x"] Cons.prems(1) by simp
  next
    case False
    then show ?thesis using Cons by simp
  qed
qed simp

lemma Bloom_match:
  assumes "key \<in> set keys" and "bloom_k p \<le> 30"
  shows "Bloom_KeyMayMatch key (CreateFilter p keys [])"
proof -
  let ?n = "filter_bytes p (length keys)"
  let ?arr = "foldl (add_key (bloom_k p) (?n * 8)) (replicate ?n 0) keys"
  have "0 < (b + 7) div 8" if "64 \<le> b" for b :: nat using that by presburger
  then have n: "0 < ?n" unfolding filter_bytes_def Let_def by simp
  have f: "CreateFilter p keys [] = ?arr @ [of_nat (bloom_k p)]" by (simp add: CreateFilter_def Let_def)
  have k: "unat (of_nat (bloom_k p) :: byte) = bloom_k p" using assms(2) by (simp add: unat_of_nat)
  have "test_probes (bloom_k p) (BloomHash key) (bloom_delta (BloomHash key)) (?n * 8) ?arr"
    using test_all_keys [OF _ _ assms(1)] n by simp
  then have "test_probes (bloom_k p) (BloomHash key) (bloom_delta (BloomHash key)) (?n * 8) (?arr @ [of_nat (bloom_k p)])"
    by (rule test_probes_mono) (auto simp: probe_bit byte_at_def nth_append split: if_splits)
  then show ?thesis
    using n k assms(2) unfolding Bloom_KeyMayMatch_def f Let_def by (simp add: nth_append)
qed

lemma NewBloom_k: "bloom_k (NewBloomFilterPolicy bits) \<le> 30"
  by (simp add: NewBloomFilterPolicy_def Let_def)

interpretation bloom: filter_policy "CreateFilter (NewBloomFilterPolicy bits)" Bloom_KeyMayMatch
proof
  show "CreateFilter (NewBloomFilterPolicy bits) keys dst = dst @ CreateFilter (NewBloomFilterPolicy bits) keys []" for keys dst
    by (simp add: CreateFilter_def Let_def)
  show "key \<in> set keys \<Longrightarrow> Bloom_KeyMayMatch key (CreateFilter (NewBloomFilterPolicy bits) keys [])" for key keys
    by (rule Bloom_match [OF _ NewBloom_k])
qed

section \<open>Properties\<close>

text \<open>
  C20. A Bloom filter has no false negatives: with every number of bits per key and every number of
  keys, each key a filter was made from may match, wherever the filter was appended.
\<close>

theorem bloom_no_false_negatives:
  assumes "key \<in> set keys"
  shows "Bloom_KeyMayMatch key (drop (length dst) (CreateFilter (NewBloomFilterPolicy bits) keys dst))"
  using bloom.create_match [OF assms, of bits] bloom.create_append [of bits keys dst] by simp

theorem bloom_no_false_negatives_witness:
  "Bloom_KeyMayMatch [97] (drop (length [1 :: byte]) (CreateFilter (NewBloomFilterPolicy 10) [[97], [98, 99]] [1]))"
  by (rule bloom_no_false_negatives [of "[97]" "[[97], [98, 99]]" "[1]" 10]) simp

end
