(* ===== verification/FilterBlock.thy ===== *)
theory FilterBlock
  imports Bloom
begin

text \<open>
  \<open>table/filter_block.cc\<close>: one filter for every 2 KiB of file offsets. The policy is an argument, the two
  functions of \<open>filter_policy\<close>. The reader never excludes a key that was added to the block it asks about.
\<close>

section \<open>Building\<close>

definition kFilterBaseLg :: nat where "kFilterBaseLg = 11"

definition kFilterBase :: nat where "kFilterBase = 2 ^ kFilterBaseLg"

record FilterBlockBuilder =
  fb_keys :: bytes
  fb_start :: "nat list"
  fb_result :: bytes
  filter_offsets :: "nat list"

definition new_FilterBlockBuilder :: FilterBlockBuilder where
  "new_FilterBlockBuilder = \<lparr>fb_keys = [], fb_start = [], fb_result = [], filter_offsets = []\<rparr>"

definition GenerateFilter :: "(bytes list \<Rightarrow> bytes \<Rightarrow> bytes) \<Rightarrow> FilterBlockBuilder \<Rightarrow> FilterBlockBuilder" where
  "GenerateFilter create b =
     (let num_keys = length (fb_start b)
      in if num_keys = 0 then b\<lparr>filter_offsets := filter_offsets b @ [length (fb_result b)]\<rparr>
         else
           let start = fb_start b @ [length (fb_keys b)];
               tmp_keys = map (\<lambda>i. take (start ! (i + 1) - start ! i) (drop (start ! i) (fb_keys b))) [0..<num_keys]
           in b\<lparr>filter_offsets := filter_offsets b @ [length (fb_result b)],
                fb_result := create tmp_keys (fb_result b), fb_keys := [], fb_start := []\<rparr>)"

function StartBlock_loop :: "(bytes list \<Rightarrow> bytes \<Rightarrow> bytes) \<Rightarrow> nat \<Rightarrow> FilterBlockBuilder \<Rightarrow> FilterBlockBuilder" where
  "StartBlock_loop create filter_index b =
     (if filter_index > length (filter_offsets b) then StartBlock_loop create filter_index (GenerateFilter create b) else b)"
  by pat_completeness auto
termination
  by (relation "measure (\<lambda>(create, i, b). i - length (filter_offsets b))") (auto simp: GenerateFilter_def Let_def)

declare StartBlock_loop.simps [simp del]

definition StartBlock :: "(bytes list \<Rightarrow> bytes \<Rightarrow> bytes) \<Rightarrow> FilterBlockBuilder \<Rightarrow> nat \<Rightarrow> FilterBlockBuilder" where
  "StartBlock create b block_offset = StartBlock_loop create (block_offset div kFilterBase) b"

definition fb_AddKey :: "FilterBlockBuilder \<Rightarrow> bytes \<Rightarrow> FilterBlockBuilder" where
  "fb_AddKey b key = b\<lparr>fb_start := fb_start b @ [length (fb_keys b)], fb_keys := fb_keys b @ key\<rparr>"

definition fb_Finish :: "(bytes list \<Rightarrow> bytes \<Rightarrow> bytes) \<Rightarrow> FilterBlockBuilder \<Rightarrow> bytes \<times> FilterBlockBuilder" where
  "fb_Finish create b0 =
     (let b = (if fb_start b0 \<noteq> [] then GenerateFilter create b0 else b0);
          array_offset = length (fb_result b);
          result = foldl (\<lambda>r off. PutFixed32 r (of_nat off)) (fb_result b) (filter_offsets b);
          result = PutFixed32 result (of_nat array_offset) @ [of_nat kFilterBaseLg]
      in (result, b\<lparr>fb_result := result\<rparr>))"

section \<open>Reading\<close>

text \<open>\<open>data_\<close> is the contents from their start; \<open>offset_\<close> is an index into them.\<close>

record FilterBlockReader =
  fr_data :: bytes
  fr_offset :: nat
  fr_num :: nat
  base_lg :: nat

definition new_FilterBlockReader :: "bytes \<Rightarrow> FilterBlockReader" where
  "new_FilterBlockReader contents =
     (let n = length contents
      in if n < 5 then \<lparr>fr_data = [], fr_offset = 0, fr_num = 0, base_lg = 0\<rparr>
         else let lg = unat (contents ! (n - 1));
                  last_word = unat (DecodeFixed32 (drop (n - 5) contents))
              in if last_word > n - 5 then \<lparr>fr_data = [], fr_offset = 0, fr_num = 0, base_lg = lg\<rparr>
                 else \<lparr>fr_data = contents, fr_offset = last_word, fr_num = (n - 5 - last_word) div 4, base_lg = lg\<rparr>)"

definition fr_KeyMayMatch :: "(bytes \<Rightarrow> bytes \<Rightarrow> bool) \<Rightarrow> FilterBlockReader \<Rightarrow> nat \<Rightarrow> bytes \<Rightarrow> bool" where
  "fr_KeyMayMatch may_match r block_offset key =
     (let index = block_offset div 2 ^ base_lg r
      in if index < fr_num r then
           let start = unat (DecodeFixed32 (drop (fr_offset r + index * 4) (fr_data r)));
               limit = unat (DecodeFixed32 (drop (fr_offset r + index * 4 + 4) (fr_data r)))
           in if start \<le> limit \<and> limit \<le> fr_offset r
              then may_match key (take (limit - start) (drop start (fr_data r)))
              else if start = limit then False
              else True
         else True)"

section \<open>The contract\<close>

text \<open>The keys of one filter, and the filters before it: an empty group has an empty filter.\<close>

definition group_filter :: "(bytes list \<Rightarrow> bytes \<Rightarrow> bytes) \<Rightarrow> bytes list \<Rightarrow> bytes" where
  "group_filter create ks = (if ks = [] then [] else create ks [])"

definition filters :: "(bytes list \<Rightarrow> bytes \<Rightarrow> bytes) \<Rightarrow> bytes list list \<Rightarrow> bytes" where
  "filters create gs = concat (map (group_filter create) gs)"

definition filter_off :: "(bytes list \<Rightarrow> bytes \<Rightarrow> bytes) \<Rightarrow> bytes list list \<Rightarrow> nat \<Rightarrow> nat" where
  "filter_off create gs i = length (filters create (take i gs))"

definition starts :: "bytes list \<Rightarrow> nat list" where
  "starts ks = map (\<lambda>i. length (concat (take i ks))) [0..<length ks]"

text \<open>A builder has made the filters of the groups \<open>gs\<close> and holds the keys \<open>ks\<close> of the next.\<close>

definition fb_rep :: "(bytes list \<Rightarrow> bytes \<Rightarrow> bytes) \<Rightarrow> FilterBlockBuilder \<Rightarrow> bytes list list \<Rightarrow> bytes list \<Rightarrow> bool" where
  "fb_rep create b gs ks \<longleftrightarrow>
     fb_result b = filters create gs \<and> filter_offsets b = map (filter_off create gs) [0..<length gs]
     \<and> fb_keys b = concat ks \<and> fb_start b = starts ks"

text \<open>A client: for each data block its offset and the keys added for it.\<close>

definition fb_add_block :: "(bytes list \<Rightarrow> bytes \<Rightarrow> bytes) \<Rightarrow> FilterBlockBuilder \<Rightarrow> nat \<times> bytes list \<Rightarrow> FilterBlockBuilder" where
  "fb_add_block create b blk = foldl fb_AddKey (StartBlock create b (fst blk)) (snd blk)"

section \<open>Groups of keys\<close>

lemma starts_snoc: "starts (ks @ [k]) = starts ks @ [length (concat ks)]"
  by (simp add: starts_def)

lemma starts_length [simp]: "length (starts ks) = length ks"
  by (simp add: starts_def)

lemma split_keys:
  "map (\<lambda>i. take ((starts ks @ [length (concat ks)]) ! (i + 1) - (starts ks @ [length (concat ks)]) ! i)
          (drop ((starts ks @ [length (concat ks)]) ! i) (concat ks))) [0..<length ks] = ks"
proof (rule nth_equalityI)
  fix i
  assume i: "i < length (map (\<lambda>i. take ((starts ks @ [length (concat ks)]) ! (i + 1) - (starts ks @ [length (concat ks)]) ! i)
          (drop ((starts ks @ [length (concat ks)]) ! i) (concat ks))) [0..<length ks])"
  then have i: "i < length ks" by simp
  have nth: "(starts ks @ [length (concat ks)]) ! j = length (concat (take j ks))" if "j \<le> length ks" for j
    using that by (cases "j = length ks") (simp_all add: nth_append starts_def)
  have c: "concat ks = concat (take i ks) @ ks ! i @ concat (drop (Suc i) ks)"
    using i by (metis append_take_drop_id concat.simps(2) concat_append Cons_nth_drop_Suc)
  have "length (concat (take (Suc i) ks)) = length (concat (take i ks)) + length (ks ! i)"
    using i by (simp add: take_Suc_conv_app_nth)
  then have "take (length (concat (take (Suc i) ks)) - length (concat (take i ks))) (drop (length (concat (take i ks))) (concat ks)) = ks ! i"
    by (subst c) simp
  then show "map (\<lambda>i. take ((starts ks @ [length (concat ks)]) ! (i + 1) - (starts ks @ [length (concat ks)]) ! i)
          (drop ((starts ks @ [length (concat ks)]) ! i) (concat ks))) [0..<length ks] ! i = ks ! i"
    using i nth [of i] nth [of "Suc i"] by simp
qed simp

lemma filters_snoc: "filters create (gs @ [ks]) = filters create gs @ group_filter create ks"
  by (simp add: filters_def)

lemma filter_offs_snoc:
  "map (filter_off create (gs @ [ks])) [0..<length (gs @ [ks])]
     = map (filter_off create gs) [0..<length gs] @ [length (filters create gs)]"
  by (simp add: filter_off_def)

context filter_policy
begin

lemma rep_Generate: "fb_rep create b gs ks \<Longrightarrow> fb_rep create (GenerateFilter create b) (gs @ [ks]) []"
proof (cases "ks = []")
  case True
  assume "fb_rep create b gs ks"
  then show ?thesis
    using True filter_offs_snoc [of create gs ks]
    by (simp add: fb_rep_def GenerateFilter_def filters_snoc group_filter_def starts_def)
next
  case False
  assume rep: "fb_rep create b gs ks"
  have "GenerateFilter create b = b\<lparr>filter_offsets := filter_offsets b @ [length (fb_result b)],
      fb_result := create ks (fb_result b), fb_keys := [], fb_start := []\<rparr>"
    using rep False split_keys [of ks] by (simp add: fb_rep_def GenerateFilter_def Let_def)
  then show ?thesis
    using rep False filter_offs_snoc [of create gs ks] create_append [of ks "fb_result b"]
    by (simp add: fb_rep_def filters_snoc group_filter_def starts_def)
qed

lemma rep_AddKeys: "fb_rep create b gs ks \<Longrightarrow> fb_rep create (foldl fb_AddKey b xs) gs (ks @ xs)"
proof (induction xs arbitrary: b ks)
  case (Cons x xs)
  have "fb_rep create (fb_AddKey b x) gs (ks @ [x])"
    using Cons.prems by (simp add: fb_rep_def fb_AddKey_def starts_snoc)
  then show ?case using Cons.IH by fastforce
qed simp

lemma rep_StartBlock_loop:
  "fb_rep create b gs ks \<Longrightarrow> length gs \<le> n \<Longrightarrow>
     fb_rep create (StartBlock_loop create n b) (if n = length gs then gs else gs @ ks # replicate (n - length gs - 1) [])
       (if n = length gs then ks else [])"
proof (induction "n - length gs" arbitrary: b gs ks)
  case 0
  then show ?case by (subst StartBlock_loop.simps) (simp add: fb_rep_def)
next
  case (Suc m)
  then have less: "length gs < n" by simp
  have rep: "fb_rep create (GenerateFilter create b) (gs @ [ks]) []" by (rule rep_Generate [OF Suc.prems(1)])
  have step: "StartBlock_loop create n b = StartBlock_loop create n (GenerateFilter create b)"
    using less Suc.prems(1) by (subst StartBlock_loop.simps) (simp add: fb_rep_def)
  have "fb_rep create (StartBlock_loop create n b)
      (if n = length (gs @ [ks]) then gs @ [ks] else (gs @ [ks]) @ [] # replicate (n - length (gs @ [ks]) - 1) []) []"
    using Suc.hyps(1) [of "gs @ [ks]", OF _ rep] Suc.hyps(2) less unfolding step by (auto split: if_splits)
  moreover have "(if n = length (gs @ [ks]) then gs @ [ks] else (gs @ [ks]) @ [] # replicate (n - length (gs @ [ks]) - 1) [])
      = gs @ ks # replicate (n - length gs - 1) []"
  proof (cases "n = length (gs @ [ks])")
    case False
    then have "n - length gs - 1 = Suc (n - length (gs @ [ks]) - 1)" using less by simp
    then show ?thesis using False by simp
  qed simp
  ultimately show ?case using less by simp
qed

text \<open>What a client has added: the keys of each block are in the group of its offset.\<close>

lemma rep_blocks:
  assumes "sorted (map fst blks)"
  shows "\<exists>gs ks. fb_rep create (foldl (fb_add_block create) new_FilterBlockBuilder blks) gs ks
    \<and> (blks \<noteq> [] \<longrightarrow> length gs = fst (last blks) div kFilterBase) \<and> (blks = [] \<longrightarrow> gs = [] \<and> ks = [])
    \<and> (\<forall>(off, xs) \<in> set blks. \<forall>x \<in> set xs. off div kFilterBase \<le> length gs \<and> x \<in> set ((gs @ [ks]) ! (off div kFilterBase)))"
  using assms
proof (induction blks rule: rev_induct)
  case Nil
  then show ?case by (auto simp: fb_rep_def new_FilterBlockBuilder_def filters_def starts_def)
next
  case (snoc blk blks)
  obtain off xs where blk: "blk = (off, xs)" by (cases blk)
  let ?n = "off div kFilterBase"
  obtain gs ks where r: "fb_rep create (foldl (fb_add_block create) new_FilterBlockBuilder blks) gs ks"
    and len: "blks \<noteq> [] \<longrightarrow> length gs = fst (last blks) div kFilterBase" "blks = [] \<longrightarrow> gs = [] \<and> ks = []"
    and old: "\<And>off xs x. (off, xs) \<in> set blks \<Longrightarrow> x \<in> set xs \<Longrightarrow>
      off div kFilterBase \<le> length gs \<and> x \<in> set ((gs @ [ks]) ! (off div kFilterBase))"
    using snoc by (fastforce simp: sorted_append)
  have le: "length gs \<le> ?n"
  proof (cases "blks = []")
    case False
    then have "fst (last blks) \<le> off" using snoc.prems blk by (simp add: sorted_append)
    then show ?thesis using len False by (simp add: div_le_mono)
  qed (use len in simp)
  let ?gs = "if ?n = length gs then gs else gs @ ks # replicate (?n - length gs - 1) []"
  let ?ks = "if ?n = length gs then ks else []"
  have "fb_rep create (fb_add_block create (foldl (fb_add_block create) new_FilterBlockBuilder blks) blk) ?gs (?ks @ xs)"
    using rep_AddKeys [OF rep_StartBlock_loop [OF r le], of xs]
    by (simp only: fb_add_block_def StartBlock_def blk fst_conv snd_conv)
  moreover have n: "length ?gs = ?n" using le by auto
  moreover have "x \<in> set ((?gs @ [?ks @ xs]) ! (o' div kFilterBase)) \<and> o' div kFilterBase \<le> length ?gs"
    if "(o', ys) \<in> set blks" "x \<in> set ys" for o' ys x
    using old [OF that] le by (auto simp: nth_append split: if_splits)
  moreover have "x \<in> set ((?gs @ [?ks @ xs]) ! ?n)" if "x \<in> set xs" for x
    using that n by (simp add: nth_append)
  ultimately show ?case using blk by (intro exI [of _ ?gs] exI [of _ "?ks @ xs"]) auto
qed

lemma filter_off_Suc: "i < length gs \<Longrightarrow> filter_off create gs (Suc i) = filter_off create gs i + length (group_filter create (gs ! i))"
  by (simp add: filter_off_def filters_def take_Suc_conv_app_nth)

lemma filters_split: "i < length gs \<Longrightarrow> filters create gs = filters create (take i gs) @ group_filter create (gs ! i) @ filters create (drop (Suc i) gs)"
  unfolding filters_def by (metis append_take_drop_id concat.simps(2) concat_append Cons_nth_drop_Suc list.simps(9) map_append)

lemma Finish_bytes:
  assumes "fb_rep create b gs []"
  shows "fst (fb_Finish create b) = filters create gs
    @ concat (map (\<lambda>i. EncodeFixed32 (of_nat (filter_off create gs i))) [0..<length gs])
    @ EncodeFixed32 (of_nat (length (filters create gs))) @ [of_nat kFilterBaseLg]"
  using assms unfolding fb_Finish_def Let_def foldl_PutFixed32
  by (simp add: fb_rep_def starts_def PutFixed32_def comp_def)

lemma reader_matches:
  assumes rep: "fb_rep create b gs []" and size: "length (filters create gs) < 2 ^ 32"
    and i: "off div kFilterBase < length gs" and key: "key \<in> set (gs ! (off div kFilterBase))"
  shows "fr_KeyMayMatch may_match (new_FilterBlockReader (fst (fb_Finish create b))) off key"
proof -
  let ?F = "filters create gs" and ?i = "off div kFilterBase"
  let ?enc = "\<lambda>i. EncodeFixed32 (of_nat (filter_off create gs i))"
  let ?arr = "concat (map ?enc [0..<length gs])"
  let ?c = "fst (fb_Finish create b)" and ?r = "new_FilterBlockReader (fst (fb_Finish create b))"
  have c: "?c = ?F @ ?arr @ EncodeFixed32 (of_nat (length ?F)) @ [of_nat kFilterBaseLg]" by (rule Finish_bytes [OF rep])
  have arr: "length ?arr = length gs * 4" using length_concat_fixed32 [of "\<lambda>i. of_nat (filter_off create gs i)" "[0..<length gs]"] by simp
  have last: "drop (length ?c - 5) ?c = EncodeFixed32 (of_nat (length ?F)) @ [of_nat kFilterBaseLg]"
    using arr by (simp add: c)
  have r: "fr_data ?r = ?c" "fr_offset ?r = length ?F" "fr_num ?r = length gs" "base_lg ?r = 11"
    using arr size last
    by (simp_all add: new_FilterBlockReader_def Let_def unat_of_nat_length c nth_append kFilterBaseLg_def)
  have off_le: "filter_off create gs j \<le> length ?F" for j
    unfolding filter_off_def filters_def by (metis append_take_drop_id concat_append le_add1 length_append map_append)
  have word: "unat (DecodeFixed32 (drop (length ?F + j * 4) ?c)) = filter_off create gs j" if "j \<le> length gs" for j
  proof (cases "j = length gs")
    case True
    then have "drop (length ?F + j * 4) ?c = EncodeFixed32 (of_nat (length ?F)) @ [of_nat kFilterBaseLg]"
      using arr by (simp add: c)
    then show ?thesis using True size by (simp add: unat_of_nat_length filter_off_def)
  next
    case False
    then have j: "j < length [0..<length gs]" using that by simp
    have "drop (length ?F + j * 4) ?c = drop (j * 4) (?arr @ EncodeFixed32 (of_nat (length ?F)) @ [of_nat kFilterBaseLg])"
      by (simp add: c)
    then show ?thesis
      using concat_fixed32_nth [OF j, of "\<lambda>i. of_nat (filter_off create gs i)" "EncodeFixed32 (of_nat (length ?F)) @ [of_nat kFilterBaseLg]"]
        off_le [of j] size j by (simp add: unat_of_nat_length)
  qed
  have "take (filter_off create gs (Suc ?i) - filter_off create gs ?i) (drop (filter_off create gs ?i) ?c)
      = group_filter create (gs ! ?i)"
    unfolding filter_off_Suc [OF i] c filters_split [OF i] by (simp add: filter_off_def)
  moreover have "group_filter create (gs ! ?i) = create (gs ! ?i) []" using key by (auto simp: group_filter_def)
  ultimately have "may_match key (take (filter_off create gs (Suc ?i) - filter_off create gs ?i) (drop (filter_off create gs ?i) ?c))"
    using create_match [OF key] by simp
  moreover have "length ?F + ?i * 4 + 4 = length ?F + Suc ?i * 4" by simp
  moreover have "off div 2 ^ 11 = ?i" by (simp add: kFilterBase_def kFilterBaseLg_def)
  ultimately show ?thesis
    using word [of ?i] word [of "Suc ?i"] i off_le [of "Suc ?i"] filter_off_Suc [OF i]
    unfolding fr_KeyMayMatch_def Let_def r by (simp only:) simp
qed

lemma Finish_pending:
  assumes "fb_rep create b gs ks"
  shows "\<exists>b'. fst (fb_Finish create b) = fst (fb_Finish create b') \<and> fb_rep create b' (if ks = [] then gs else gs @ [ks]) []"
proof (cases "ks = []")
  case False
  have rep: "fb_rep create (GenerateFilter create b) (gs @ [ks]) []" by (rule rep_Generate [OF assms])
  have "fb_start b \<noteq> []" using assms False by (auto simp: fb_rep_def starts_def)
  moreover have "fb_start (GenerateFilter create b) = []" using rep by (simp add: fb_rep_def starts_def)
  ultimately have "fst (fb_Finish create b) = fst (fb_Finish create (GenerateFilter create b))"
    by (simp add: fb_Finish_def Let_def)
  then show ?thesis using rep False by auto
qed (use assms in auto)

lemma filter_block_complete:
  assumes sorted: "sorted (map fst blks)" and blk: "(off, xs) \<in> set blks" and key: "key \<in> set xs"
    and size: "length (fst (fb_Finish create (foldl (fb_add_block create) new_FilterBlockBuilder blks))) < 2 ^ 32"
  shows "fr_KeyMayMatch may_match
    (new_FilterBlockReader (fst (fb_Finish create (foldl (fb_add_block create) new_FilterBlockBuilder blks)))) off key"
proof -
  let ?b = "foldl (fb_add_block create) new_FilterBlockBuilder blks"
  obtain gs ks where rep: "fb_rep create ?b gs ks" and in_group: "off div kFilterBase \<le> length gs"
    "key \<in> set ((gs @ [ks]) ! (off div kFilterBase))"
    using rep_blocks [OF sorted] blk key by fastforce
  let ?G = "if ks = [] then gs else gs @ [ks]"
  obtain b' where b': "fst (fb_Finish create ?b) = fst (fb_Finish create b')" "fb_rep create b' ?G []"
    using Finish_pending [OF rep] by blast
  have "length (filters create ?G) < 2 ^ 32" using size Finish_bytes [OF b'(2)] b'(1) by simp
  moreover have "off div kFilterBase < length ?G" "key \<in> set (?G ! (off div kFilterBase))"
    using in_group by (auto simp: nth_append split: if_splits)
  ultimately show ?thesis using reader_matches [OF b'(2)] unfolding b'(1) by blast
qed

end

section \<open>Properties\<close>

text \<open>
  C10. A filter block never excludes a key that is there: with every filter policy that keeps its
  contract, for data blocks added in the order of their offsets, the reader of the finished block
  lets through each key added for a block when asked with the offset of that block.
\<close>

theorem filter_block_no_false_negatives:
  assumes "filter_policy create may_match" and "sorted (map fst blks)" and "(off, xs) \<in> set blks" and "key \<in> set xs"
    and "length (fst (fb_Finish create (foldl (fb_add_block create) new_FilterBlockBuilder blks))) < 2 ^ 32"
  shows "fr_KeyMayMatch may_match
    (new_FilterBlockReader (fst (fb_Finish create (foldl (fb_add_block create) new_FilterBlockBuilder blks)))) off key"
  by (rule filter_policy.filter_block_complete [OF assms])

theorem filter_block_no_false_negatives_witness:
  "fr_KeyMayMatch Bloom_KeyMayMatch
     (new_FilterBlockReader (fst (fb_Finish (CreateFilter (NewBloomFilterPolicy 10))
        (foldl (fb_add_block (CreateFilter (NewBloomFilterPolicy 10))) new_FilterBlockBuilder [(0, [[97]]), (5000, [[98]])])))) 5000 [98]"
proof -
  let ?c = "CreateFilter (NewBloomFilterPolicy 10)"
  have len: "length (?c [k] dst) = length dst + 9" for k dst
    by (simp add: CreateFilter_def filter_bytes_def NewBloomFilterPolicy_def Let_def)
  have "length (fst (fb_Finish ?c (foldl (fb_add_block ?c) new_FilterBlockBuilder [(0, [[97]]), (5000, [[98]])]))) < 2 ^ 32"
    by (simp add: fb_add_block_def StartBlock_def StartBlock_loop.simps kFilterBase_def kFilterBaseLg_def fb_AddKey_def
        new_FilterBlockBuilder_def GenerateFilter_def fb_Finish_def Let_def PutFixed32_def len)
  then show ?thesis
    by (intro filter_block_no_false_negatives [OF bloom.filter_policy_axioms]) auto
qed

end
