(* ===== verification/VersionEdit.thy ===== *)
theory VersionEdit
  imports Dbformat Filename "HOL-Library.Product_Lexorder"
begin

text \<open>
  \<open>db/version_edit.cc\<close>: the records of the descriptor (manifest) file. A field that is not set keeps its
  default value next to its flag, as in the source. The set of deleted files is a \<open>std::set\<close> of
  pairs: a sorted list without repetition. An edit that clients can build is read back from its
  encoding as it was.
\<close>

section \<open>Edits\<close>

record FileMetaData =
  fm_refs :: int
  allowed_seeks :: int
  fm_number :: u64
  file_size :: u64
  smallest :: bytes
  largest :: bytes

definition new_FileMetaData :: FileMetaData where
  "new_FileMetaData =
     \<lparr>fm_refs = 0, allowed_seeks = 2 ^ 30, fm_number = 0, file_size = 0, smallest = [], largest = []\<rparr>"

record VersionEdit =
  ve_comparator :: bytes
  log_number :: u64
  prev_log_number :: u64
  next_file_number :: u64
  last_sequence :: u64
  has_comparator :: bool
  has_log_number :: bool
  has_prev_log_number :: bool
  has_next_file_number :: bool
  has_last_sequence :: bool
  compact_pointers :: "(nat \<times> bytes) list"
  deleted_files :: "(nat \<times> u64) list"
  new_files :: "(nat \<times> FileMetaData) list"

definition ve_Clear :: "VersionEdit \<Rightarrow> VersionEdit" where
  "ve_Clear e =
     e\<lparr>ve_comparator := [], log_number := 0, prev_log_number := 0, last_sequence := 0, next_file_number := 0,
       has_comparator := False, has_log_number := False, has_prev_log_number := False,
       has_next_file_number := False, has_last_sequence := False, deleted_files := [], new_files := []\<rparr>"

text \<open>The members are empty before the constructor clears them.\<close>

definition new_VersionEdit :: VersionEdit where
  "new_VersionEdit =
     ve_Clear \<lparr>ve_comparator = [], log_number = 0, prev_log_number = 0, next_file_number = 0, last_sequence = 0,
       has_comparator = False, has_log_number = False, has_prev_log_number = False, has_next_file_number = False,
       has_last_sequence = False, compact_pointers = [], deleted_files = [], new_files = []\<rparr>"

definition SetComparatorName :: "bytes \<Rightarrow> VersionEdit \<Rightarrow> VersionEdit" where
  "SetComparatorName name e = e\<lparr>has_comparator := True, ve_comparator := name\<rparr>"

definition SetLogNumber :: "u64 \<Rightarrow> VersionEdit \<Rightarrow> VersionEdit" where
  "SetLogNumber num e = e\<lparr>has_log_number := True, log_number := num\<rparr>"

definition SetPrevLogNumber :: "u64 \<Rightarrow> VersionEdit \<Rightarrow> VersionEdit" where
  "SetPrevLogNumber num e = e\<lparr>has_prev_log_number := True, prev_log_number := num\<rparr>"

definition SetNextFile :: "u64 \<Rightarrow> VersionEdit \<Rightarrow> VersionEdit" where
  "SetNextFile num e = e\<lparr>has_next_file_number := True, next_file_number := num\<rparr>"

definition SetLastSequence :: "u64 \<Rightarrow> VersionEdit \<Rightarrow> VersionEdit" where
  "SetLastSequence s e = e\<lparr>has_last_sequence := True, last_sequence := s\<rparr>"

definition SetCompactPointer :: "nat \<Rightarrow> bytes \<Rightarrow> VersionEdit \<Rightarrow> VersionEdit" where
  "SetCompactPointer level key e = e\<lparr>compact_pointers := compact_pointers e @ [(level, key)]\<rparr>"

definition AddFile :: "nat \<Rightarrow> u64 \<Rightarrow> u64 \<Rightarrow> bytes \<Rightarrow> bytes \<Rightarrow> VersionEdit \<Rightarrow> VersionEdit" where
  "AddFile level num sz small large e =
     e\<lparr>new_files := new_files e @
        [(level, new_FileMetaData\<lparr>fm_number := num, file_size := sz, smallest := small, largest := large\<rparr>)]\<rparr>"

definition ve_RemoveFile :: "nat \<Rightarrow> u64 \<Rightarrow> VersionEdit \<Rightarrow> VersionEdit" where
  "ve_RemoveFile level num e = e\<lparr>deleted_files := insort_insert (level, num) (deleted_files e)\<rparr>"

section \<open>Encoding\<close>

datatype Tag = kComparator | kLogNumber | kNextFileNumber | kLastSequence | kCompactPointer
  | kDeletedFile | kNewFile | kPrevLogNumber

fun tag_code :: "Tag \<Rightarrow> u32" where
  "tag_code kComparator = 1"
| "tag_code kLogNumber = 2"
| "tag_code kNextFileNumber = 3"
| "tag_code kLastSequence = 4"
| "tag_code kCompactPointer = 5"
| "tag_code kDeletedFile = 6"
| "tag_code kNewFile = 7"
| "tag_code kPrevLogNumber = 9"

definition put_compact_pointer :: "bytes \<Rightarrow> nat \<times> bytes \<Rightarrow> bytes" where
  "put_compact_pointer dst cp =
     (let dst = PutVarint32 dst (tag_code kCompactPointer);
          dst = PutVarint32 dst (of_nat (fst cp))
      in PutLengthPrefixedSlice dst (snd cp))"

definition put_deleted_file :: "bytes \<Rightarrow> nat \<times> u64 \<Rightarrow> bytes" where
  "put_deleted_file dst df =
     (let dst = PutVarint32 dst (tag_code kDeletedFile);
          dst = PutVarint32 dst (of_nat (fst df))
      in PutVarint64 dst (snd df))"

definition put_new_file :: "bytes \<Rightarrow> nat \<times> FileMetaData \<Rightarrow> bytes" where
  "put_new_file dst nf =
     (let f = snd nf;
          dst = PutVarint32 dst (tag_code kNewFile);
          dst = PutVarint32 dst (of_nat (fst nf));
          dst = PutVarint64 dst (fm_number f);
          dst = PutVarint64 dst (file_size f);
          dst = PutLengthPrefixedSlice dst (smallest f)
      in PutLengthPrefixedSlice dst (largest f))"

definition put_number :: "Tag \<Rightarrow> bool \<Rightarrow> u64 \<Rightarrow> bytes \<Rightarrow> bytes" where
  "put_number tag has num dst = (if has then PutVarint64 (PutVarint32 dst (tag_code tag)) num else dst)"

definition EncodeTo :: "VersionEdit \<Rightarrow> bytes \<Rightarrow> bytes" where
  "EncodeTo e dst =
     (let dst = (if has_comparator e
                 then PutLengthPrefixedSlice (PutVarint32 dst (tag_code kComparator)) (ve_comparator e) else dst);
          dst = put_number kLogNumber (has_log_number e) (log_number e) dst;
          dst = put_number kPrevLogNumber (has_prev_log_number e) (prev_log_number e) dst;
          dst = put_number kNextFileNumber (has_next_file_number e) (next_file_number e) dst;
          dst = put_number kLastSequence (has_last_sequence e) (last_sequence e) dst;
          dst = foldl put_compact_pointer dst (compact_pointers e);
          dst = foldl put_deleted_file dst (deleted_files e)
      in foldl put_new_file dst (new_files e))"

section \<open>Decoding\<close>

text \<open>\<open>InternalKey::DecodeFrom\<close> refuses the empty string.\<close>

definition GetInternalKey :: "bytes \<Rightarrow> (bytes \<times> bytes) option" where
  "GetInternalKey input =
     Option.bind (GetLengthPrefixedSlice input) (\<lambda>(str, input). if str \<noteq> [] then Some (str, input) else None)"

definition GetLevel :: "bytes \<Rightarrow> (nat \<times> bytes) option" where
  "GetLevel input =
     Option.bind (GetVarint32 input) (\<lambda>(v, input). if v < of_nat kNumLevels then Some (unat v, input) else None)"

text \<open>One case of the switch: an error message, or the edit and the rest of the input.\<close>

definition decode_field :: "u32 \<Rightarrow> bytes \<Rightarrow> VersionEdit \<Rightarrow> string + VersionEdit \<times> bytes" where
  "decode_field tag input e =
     (if tag = tag_code kComparator then
        (case GetLengthPrefixedSlice input of
           Some (str, input) \<Rightarrow> Inr (e\<lparr>ve_comparator := str, has_comparator := True\<rparr>, input)
         | None \<Rightarrow> Inl ''comparator name'')
      else if tag = tag_code kLogNumber then
        (case GetVarint64 input of
           Some (n, input) \<Rightarrow> Inr (e\<lparr>log_number := n, has_log_number := True\<rparr>, input)
         | None \<Rightarrow> Inl ''log number'')
      else if tag = tag_code kPrevLogNumber then
        (case GetVarint64 input of
           Some (n, input) \<Rightarrow> Inr (e\<lparr>prev_log_number := n, has_prev_log_number := True\<rparr>, input)
         | None \<Rightarrow> Inl ''previous log number'')
      else if tag = tag_code kNextFileNumber then
        (case GetVarint64 input of
           Some (n, input) \<Rightarrow> Inr (e\<lparr>next_file_number := n, has_next_file_number := True\<rparr>, input)
         | None \<Rightarrow> Inl ''next file number'')
      else if tag = tag_code kLastSequence then
        (case GetVarint64 input of
           Some (n, input) \<Rightarrow> Inr (e\<lparr>last_sequence := n, has_last_sequence := True\<rparr>, input)
         | None \<Rightarrow> Inl ''last sequence number'')
      else if tag = tag_code kCompactPointer then
        (case Option.bind (GetLevel input) (\<lambda>(level, input).
                Option.bind (GetInternalKey input) (\<lambda>(key, input). Some (level, key, input))) of
           Some (level, key, input) \<Rightarrow> Inr (e\<lparr>compact_pointers := compact_pointers e @ [(level, key)]\<rparr>, input)
         | None \<Rightarrow> Inl ''compaction pointer'')
      else if tag = tag_code kDeletedFile then
        (case Option.bind (GetLevel input) (\<lambda>(level, input).
                Option.bind (GetVarint64 input) (\<lambda>(number, input). Some (level, number, input))) of
           Some (level, number, input) \<Rightarrow> Inr (e\<lparr>deleted_files := insort_insert (level, number) (deleted_files e)\<rparr>, input)
         | None \<Rightarrow> Inl ''deleted file'')
      else if tag = tag_code kNewFile then
        (case Option.bind (GetLevel input) (\<lambda>(level, input).
                Option.bind (GetVarint64 input) (\<lambda>(num, input).
                  Option.bind (GetVarint64 input) (\<lambda>(sz, input).
                    Option.bind (GetInternalKey input) (\<lambda>(small, input).
                      Option.bind (GetInternalKey input) (\<lambda>(large, input). Some (level, num, sz, small, large, input)))))) of
           Some (level, num, sz, small, large, input) \<Rightarrow>
             Inr (e\<lparr>new_files := new_files e @
               [(level, new_FileMetaData\<lparr>fm_number := num, file_size := sz, smallest := small, largest := large\<rparr>)]\<rparr>, input)
         | None \<Rightarrow> Inl ''new-file entry'')
      else Inl ''unknown tag'')"

text \<open>
  The loop: each iteration consumes the tag. The result is the message (\<open>None\<close> for a null pointer) and
  the edit, in which the fields read before an error stay.
\<close>

function (sequential) DecodeFrom_loop :: "bytes \<Rightarrow> VersionEdit \<Rightarrow> string option \<times> VersionEdit" where
  "DecodeFrom_loop input e =
     (case GetVarint32 input of
        None \<Rightarrow> (if input \<noteq> [] then Some ''invalid tag'' else None, e)
      | Some (tag, input1) \<Rightarrow>
          (case decode_field tag input1 e of
             Inl msg \<Rightarrow> (Some msg, e)
           | Inr (e1, input2) \<Rightarrow> DecodeFrom_loop input2 e1))"
  by pat_completeness auto
termination
proof (relation "measure (\<lambda>(input, e). length input)", goal_cases)
  case (2 input e x tag input1 y e1 input2)
  have v32: "length q < length p" if "GetVarint32 p = Some (v, q)" for p q v
    using GetVarint_suffix(1) [OF that] by (auto simp: strict_suffix_def suffix_def)
  have v64: "length q < length p" if "GetVarint64 p = Some (v, q)" for p q v
    using GetVarint_suffix(2) [OF that] by (auto simp: strict_suffix_def suffix_def)
  have str: "length q \<le> length p" if "GetLengthPrefixedSlice p = Some (v, q)" for p q v
    using GetLengthPrefixedSlice_suffix [OF that] by (auto simp: strict_suffix_def suffix_def)
  have level: "length q < length p" if "GetLevel p = Some (v, q)" for p q v
    using that v32 by (auto simp: GetLevel_def bind_eq_Some_conv split: if_splits)
  have key: "length q \<le> length p" if "GetInternalKey p = Some (v, q)" for p q v
    using that str by (auto simp: GetInternalKey_def bind_eq_Some_conv split: if_splits)
  have "length input2 \<le> length input1"
    using 2 by (auto simp: decode_field_def bind_eq_Some_conv simp del: tag_code.simps
        dest!: v64 str level key split: if_splits option.splits)
  then show ?case using v32 2 by fastforce
qed simp

declare DecodeFrom_loop.simps [simp del]

definition ve_DecodeFrom :: "VersionEdit \<Rightarrow> bytes \<Rightarrow> status \<times> VersionEdit" where
  "ve_DecodeFrom e src =
     (let (msg, e1) = DecodeFrom_loop src (ve_Clear e)
      in (case msg of None \<Rightarrow> OK | Some m \<Rightarrow> Corruption2 ''VersionEdit'' (lit m), e1))"

section \<open>Debug output\<close>

definition ParsedInternalKey_DebugString :: "ParsedInternalKey \<Rightarrow> bytes" where
  "ParsedInternalKey_DebugString k =
     [39] @ EscapeString (user_key k) @ [39] @ lit '' @ '' @ decimal (unat (sequence k)) @ lit '' : ''
     @ decimal (unat (ValueType_enc (vtype k)))"

definition InternalKey_DebugString :: "bytes \<Rightarrow> bytes" where
  "InternalKey_DebugString rep =
     (case ParseInternalKey rep of
        Some parsed \<Rightarrow> ParsedInternalKey_DebugString parsed
      | None \<Rightarrow> lit ''(bad)'' @ EscapeString rep)"

definition ve_DebugString :: "VersionEdit \<Rightarrow> bytes" where
  "ve_DebugString e =
     (let num = \<lambda>has text n r. if has then AppendNumberTo (r @ [10] @ lit text) n else r;
          r = lit ''VersionEdit {'';
          r = (if has_comparator e then r @ [10] @ lit ''  Comparator: '' @ ve_comparator e else r);
          r = num (has_log_number e) ''  LogNumber: '' (log_number e) r;
          r = num (has_prev_log_number e) ''  PrevLogNumber: '' (prev_log_number e) r;
          r = num (has_next_file_number e) ''  NextFile: '' (next_file_number e) r;
          r = num (has_last_sequence e) ''  LastSeq: '' (last_sequence e) r;
          r = foldl (\<lambda>r (level, key).
                AppendNumberTo (r @ [10] @ lit ''  CompactPointer: '') (of_nat level) @ lit '' '' @ InternalKey_DebugString key)
                r (compact_pointers e);
          r = foldl (\<lambda>r (level, n).
                AppendNumberTo (AppendNumberTo (r @ [10] @ lit ''  RemoveFile: '') (of_nat level) @ lit '' '') n)
                r (deleted_files e);
          r = foldl (\<lambda>r (level, f).
                AppendNumberTo (AppendNumberTo (AppendNumberTo (r @ [10] @ lit ''  AddFile: '') (of_nat level) @ lit '' '')
                  (fm_number f) @ lit '' '') (file_size f) @ lit '' ''
                  @ InternalKey_DebugString (smallest f) @ lit '' .. '' @ InternalKey_DebugString (largest f))
                r (new_files e)
      in r @ [10] @ lit ''}'' @ [10])"

section \<open>The contract\<close>

text \<open>What a client does to an edit, with the arguments the format can hold.\<close>

datatype edit_op = Comparator_op bytes | LogNumber_op u64 | PrevLogNumber_op u64 | NextFile_op u64 | LastSequence_op u64
  | CompactPointer_op nat bytes | AddFile_op nat u64 u64 bytes bytes | RemoveFile_op nat u64

fun apply_edit_op :: "VersionEdit \<Rightarrow> edit_op \<Rightarrow> VersionEdit" where
  "apply_edit_op e (Comparator_op name) = SetComparatorName name e"
| "apply_edit_op e (LogNumber_op n) = SetLogNumber n e"
| "apply_edit_op e (PrevLogNumber_op n) = SetPrevLogNumber n e"
| "apply_edit_op e (NextFile_op n) = SetNextFile n e"
| "apply_edit_op e (LastSequence_op n) = SetLastSequence n e"
| "apply_edit_op e (CompactPointer_op level key) = SetCompactPointer level key e"
| "apply_edit_op e (AddFile_op level n sz small large) = AddFile level n sz small large e"
| "apply_edit_op e (RemoveFile_op level n) = ve_RemoveFile level n e"

definition ikey_fits :: "bytes \<Rightarrow> bool" where
  "ikey_fits k \<longleftrightarrow> k \<noteq> [] \<and> length k < 2 ^ 32"

fun edit_op_fits :: "edit_op \<Rightarrow> bool" where
  "edit_op_fits (Comparator_op name) = (length name < 2 ^ 32)"
| "edit_op_fits (CompactPointer_op level key) = (level < kNumLevels \<and> ikey_fits key)"
| "edit_op_fits (AddFile_op level n sz small large) = (level < kNumLevels \<and> ikey_fits small \<and> ikey_fits large)"
| "edit_op_fits (RemoveFile_op level n) = (level < kNumLevels)"
| "edit_op_fits _ = True"

definition new_file_ok :: "nat \<times> FileMetaData \<Rightarrow> bool" where
  "new_file_ok nf \<longleftrightarrow> fst nf < kNumLevels \<and> ikey_fits (smallest (snd nf)) \<and> ikey_fits (largest (snd nf))
     \<and> fm_refs (snd nf) = 0 \<and> allowed_seeks (snd nf) = 2 ^ 30"

definition edit_ok :: "VersionEdit \<Rightarrow> bool" where
  "edit_ok e \<longleftrightarrow>
     length (ve_comparator e) < 2 ^ 32 \<and> (\<not> has_comparator e \<longrightarrow> ve_comparator e = [])
     \<and> (\<not> has_log_number e \<longrightarrow> log_number e = 0) \<and> (\<not> has_prev_log_number e \<longrightarrow> prev_log_number e = 0)
     \<and> (\<not> has_next_file_number e \<longrightarrow> next_file_number e = 0) \<and> (\<not> has_last_sequence e \<longrightarrow> last_sequence e = 0)
     \<and> (\<forall>(level, key) \<in> set (compact_pointers e). level < kNumLevels \<and> ikey_fits key)
     \<and> (\<forall>(level, n) \<in> set (deleted_files e). level < kNumLevels) \<and> sorted (deleted_files e) \<and> distinct (deleted_files e)
     \<and> (\<forall>nf \<in> set (new_files e). new_file_ok nf)"

text \<open>The encoded pieces.\<close>

definition str_bytes :: "bytes \<Rightarrow> bytes" where
  "str_bytes k = EncodeVarint32 (of_nat (length k)) @ k"

definition cp_bytes :: "nat \<times> bytes \<Rightarrow> bytes" where
  "cp_bytes cp = EncodeVarint32 (tag_code kCompactPointer) @ EncodeVarint32 (of_nat (fst cp)) @ str_bytes (snd cp)"

definition df_bytes :: "nat \<times> u64 \<Rightarrow> bytes" where
  "df_bytes df = EncodeVarint32 (tag_code kDeletedFile) @ EncodeVarint32 (of_nat (fst df)) @ EncodeVarint64 (snd df)"

definition nf_bytes :: "nat \<times> FileMetaData \<Rightarrow> bytes" where
  "nf_bytes nf =
     EncodeVarint32 (tag_code kNewFile) @ EncodeVarint32 (of_nat (fst nf)) @ EncodeVarint64 (fm_number (snd nf))
     @ EncodeVarint64 (file_size (snd nf)) @ str_bytes (smallest (snd nf)) @ str_bytes (largest (snd nf))"

definition num_bytes :: "Tag \<Rightarrow> bool \<Rightarrow> u64 \<Rightarrow> bytes" where
  "num_bytes tag has n = (if has then EncodeVarint32 (tag_code tag) @ EncodeVarint64 n else [])"

definition name_bytes :: "VersionEdit \<Rightarrow> bytes" where
  "name_bytes e = (if has_comparator e then EncodeVarint32 (tag_code kComparator) @ str_bytes (ve_comparator e) else [])"

lemma edit_ok_new: "edit_ok new_VersionEdit"
  by (simp add: edit_ok_def new_VersionEdit_def ve_Clear_def)

lemma edit_ok_apply: "edit_ok e \<Longrightarrow> edit_op_fits c \<Longrightarrow> edit_ok (apply_edit_op e c)"
  by (cases c) (auto simp: edit_ok_def SetComparatorName_def SetLogNumber_def SetPrevLogNumber_def SetNextFile_def
      SetLastSequence_def SetCompactPointer_def AddFile_def ve_RemoveFile_def new_file_ok_def new_FileMetaData_def
      set_insort_insert sorted_insort_insert distinct_insort_insert)

section \<open>Decoding what was encoded\<close>

lemma decode_step:
  "decode_field (tag_code t) (x @ rest) e = Inr (e1, rest) \<Longrightarrow>
     DecodeFrom_loop (EncodeVarint32 (tag_code t) @ x @ rest) e = DecodeFrom_loop rest e1"
  by (subst DecodeFrom_loop.simps) simp

lemma GetLevel_Encode: "n < kNumLevels \<Longrightarrow> GetLevel (EncodeVarint32 (of_nat n) @ rest) = Some (n, rest)"
  by (simp add: GetLevel_def kNumLevels_def word_less_nat_alt unat_of_nat)

lemma Put_str: "PutLengthPrefixedSlice dst k = dst @ str_bytes k"
  by (simp add: PutLengthPrefixedSlice_def PutVarint32_def str_bytes_def)

lemma Get_str: "length k < 2 ^ 32 \<Longrightarrow> GetLengthPrefixedSlice (str_bytes k @ rest) = Some (k, rest)"
  by (simp add: str_bytes_def)

lemma Get_key: "ikey_fits k \<Longrightarrow> GetInternalKey (str_bytes k @ rest) = Some (k, rest)"
  by (simp add: GetInternalKey_def ikey_fits_def Get_str)

lemma tag_codes: "tag_code s = tag_code t \<longleftrightarrow> s = t"
  by (cases s; cases t) simp_all

lemma decode_comparator:
  "length name < 2 ^ 32 \<Longrightarrow> DecodeFrom_loop (EncodeVarint32 (tag_code kComparator) @ str_bytes name @ rest) e
     = DecodeFrom_loop rest (e\<lparr>ve_comparator := name, has_comparator := True\<rparr>)"
  by (rule decode_step) (simp add: decode_field_def Get_str)

lemma decode_numbers:
  "DecodeFrom_loop (num_bytes kLogNumber has n @ rest) e
     = DecodeFrom_loop rest (if has then e\<lparr>log_number := n, has_log_number := True\<rparr> else e)"
  "DecodeFrom_loop (num_bytes kPrevLogNumber has n @ rest) e
     = DecodeFrom_loop rest (if has then e\<lparr>prev_log_number := n, has_prev_log_number := True\<rparr> else e)"
  "DecodeFrom_loop (num_bytes kNextFileNumber has n @ rest) e
     = DecodeFrom_loop rest (if has then e\<lparr>next_file_number := n, has_next_file_number := True\<rparr> else e)"
  "DecodeFrom_loop (num_bytes kLastSequence has n @ rest) e
     = DecodeFrom_loop rest (if has then e\<lparr>last_sequence := n, has_last_sequence := True\<rparr> else e)"
  unfolding num_bytes_def
  by (cases has; (simp only: if_True if_False append_Nil append_assoc)?; (rule decode_step)?;
      simp add: decode_field_def)+

lemma decode_compact_pointer:
  "fst cp < kNumLevels \<Longrightarrow> ikey_fits (snd cp) \<Longrightarrow> DecodeFrom_loop (cp_bytes cp @ rest) e
     = DecodeFrom_loop rest (e\<lparr>compact_pointers := compact_pointers e @ [cp]\<rparr>)"
  unfolding cp_bytes_def append_assoc
  using decode_step [of kCompactPointer "EncodeVarint32 (of_nat (fst cp)) @ str_bytes (snd cp)" rest e]
  by (simp add: decode_field_def GetLevel_Encode Get_key)

lemma decode_deleted_file:
  "fst df < kNumLevels \<Longrightarrow> DecodeFrom_loop (df_bytes df @ rest) e
     = DecodeFrom_loop rest (e\<lparr>deleted_files := insort_insert df (deleted_files e)\<rparr>)"
  unfolding df_bytes_def append_assoc
  using decode_step [of kDeletedFile "EncodeVarint32 (of_nat (fst df)) @ EncodeVarint64 (snd df)" rest e]
  by (simp add: decode_field_def GetLevel_Encode)

lemma decode_new_file:
  "new_file_ok nf \<Longrightarrow> DecodeFrom_loop (nf_bytes nf @ rest) e
     = DecodeFrom_loop rest (e\<lparr>new_files := new_files e @ [nf]\<rparr>)"
proof -
  assume ok: "new_file_ok nf"
  obtain level f where nf: "nf = (level, f)" by (cases nf)
  have f: "new_FileMetaData\<lparr>fm_number := fm_number f, file_size := file_size f, smallest := smallest f, largest := largest f\<rparr> = f"
    using ok nf by (simp add: new_file_ok_def new_FileMetaData_def)
  show ?thesis
    using ok nf f decode_step [of kNewFile "EncodeVarint32 (of_nat (fst nf)) @ EncodeVarint64 (fm_number (snd nf))
        @ EncodeVarint64 (file_size (snd nf)) @ str_bytes (smallest (snd nf)) @ str_bytes (largest (snd nf))" rest e]
    by (simp add: nf_bytes_def decode_field_def GetLevel_Encode Get_key new_file_ok_def)
qed

lemma decode_compact_pointers:
  "\<forall>(level, key) \<in> set cps. level < kNumLevels \<and> ikey_fits key \<Longrightarrow>
     DecodeFrom_loop (concat (map cp_bytes cps) @ rest) e
       = DecodeFrom_loop rest (e\<lparr>compact_pointers := compact_pointers e @ cps\<rparr>)"
  by (induction cps arbitrary: e) (auto simp: decode_compact_pointer split: prod.splits)

lemma decode_deleted_files:
  "\<forall>(level, n) \<in> set dfs. level < kNumLevels \<Longrightarrow>
     DecodeFrom_loop (concat (map df_bytes dfs) @ rest) e
       = DecodeFrom_loop rest (e\<lparr>deleted_files := foldl (\<lambda>d x. insort_insert x d) (deleted_files e) dfs\<rparr>)"
  by (induction dfs arbitrary: e) (auto simp: decode_deleted_file split: prod.splits)

lemma decode_new_files:
  "\<forall>nf \<in> set nfs. new_file_ok nf \<Longrightarrow>
     DecodeFrom_loop (concat (map nf_bytes nfs) @ rest) e = DecodeFrom_loop rest (e\<lparr>new_files := new_files e @ nfs\<rparr>)"
  by (induction nfs arbitrary: e) (auto simp: decode_new_file)

lemma insort_all:
  assumes "sorted xs" and "distinct xs"
  shows "foldl (\<lambda>d x. insort_insert x d) [] xs = xs"
proof -
  have "sorted (foldl (\<lambda>d x. insort_insert x d) ys xs) \<and> distinct (foldl (\<lambda>d x. insort_insert x d) ys xs)
      \<and> set (foldl (\<lambda>d x. insort_insert x d) ys xs) = set ys \<union> set xs"
    if "sorted ys" "distinct ys" for ys
    using that by (induction xs arbitrary: ys) (auto simp: sorted_insort_insert distinct_insort_insert set_insort_insert)
  from this [of "[]"] show ?thesis using assms by (intro sorted_distinct_set_unique) simp_all
qed

lemma EncodeTo_eq:
  "EncodeTo e dst = dst @ name_bytes e @ num_bytes kLogNumber (has_log_number e) (log_number e)
     @ num_bytes kPrevLogNumber (has_prev_log_number e) (prev_log_number e)
     @ num_bytes kNextFileNumber (has_next_file_number e) (next_file_number e)
     @ num_bytes kLastSequence (has_last_sequence e) (last_sequence e)
     @ concat (map cp_bytes (compact_pointers e)) @ concat (map df_bytes (deleted_files e))
     @ concat (map nf_bytes (new_files e))"
proof -
  have fold: "foldl f dst xs = dst @ concat (map g xs)" if "\<And>dst x. f dst x = dst @ g x" for f dst xs and g :: "'x \<Rightarrow> bytes"
    using that by (induction xs arbitrary: dst) simp_all
  have pieces: "put_compact_pointer d cp = d @ cp_bytes cp" "put_deleted_file d df = d @ df_bytes df"
    "put_new_file d nf = d @ nf_bytes nf" "put_number t has n d = d @ num_bytes t has n" for d cp df nf t has n
    by (simp_all add: put_compact_pointer_def put_deleted_file_def put_new_file_def put_number_def Let_def
        PutVarint32_def PutVarint64_def Put_str cp_bytes_def df_bytes_def nf_bytes_def num_bytes_def)
  show ?thesis
    unfolding EncodeTo_def Let_def pieces fold [of put_compact_pointer cp_bytes, OF pieces(1)]
      fold [of put_deleted_file df_bytes, OF pieces(2)] fold [of put_new_file nf_bytes, OF pieces(3)]
    by (simp add: name_bytes_def Put_str PutVarint32_def)
qed

lemma decode_encoded:
  assumes "edit_ok e"
  shows "ve_DecodeFrom e0 (EncodeTo e []) = (OK, e\<lparr>compact_pointers := compact_pointers e0 @ compact_pointers e\<rparr>)"
proof -
  let ?a = "ve_Clear e0"
  let ?b = "if has_comparator e then ?a\<lparr>ve_comparator := ve_comparator e, has_comparator := True\<rparr> else ?a"
  have name: "DecodeFrom_loop (name_bytes e @ rest) ?a = DecodeFrom_loop rest ?b" for rest
    using assms decode_comparator [of "ve_comparator e" rest ?a] by (simp add: name_bytes_def edit_ok_def)
  have "DecodeFrom_loop (EncodeTo e []) ?a = (None, e\<lparr>compact_pointers := compact_pointers e0 @ compact_pointers e\<rparr>)"
  proof -
    have ok: "\<forall>(level, key) \<in> set (compact_pointers e). level < kNumLevels \<and> ikey_fits key"
      "\<forall>(level, n) \<in> set (deleted_files e). level < kNumLevels" "\<forall>nf \<in> set (new_files e). new_file_ok nf"
      and dels: "foldl (\<lambda>d x. insort_insert x d) [] (deleted_files e) = deleted_files e"
      using assms insort_all [of "deleted_files e"] by (auto simp: edit_ok_def)
    have "DecodeFrom_loop [] x = (None, x)" for x
      by (subst DecodeFrom_loop.simps) (simp add: GetVarint32_def GetVarint32Ptr_def GetVarint32PtrFallback_def)
    then show ?thesis
      unfolding EncodeTo_eq append_Nil name decode_numbers decode_compact_pointers [OF ok(1)] decode_deleted_files [OF ok(2)]
      using decode_new_files [OF ok(3), of "[]"] assms dels
      by (simp add: ve_Clear_def edit_ok_def)
  qed
  then show ?thesis by (simp add: ve_DecodeFrom_def)
qed

lemma edit_ok_run: "edit_ok e \<Longrightarrow> \<forall>c \<in> set cs. edit_op_fits c \<Longrightarrow> edit_ok (foldl apply_edit_op e cs)"
  by (induction cs arbitrary: e) (simp_all add: edit_ok_apply)

text \<open>A decoded edit is one that clients can build.\<close>

lemma edit_ok_decode_field:
  assumes "edit_ok e" and "decode_field tag input e = Inr (e1, rest)"
  shows "edit_ok e1"
proof -
  have level: "v < kNumLevels" if "GetLevel p = Some (v, q)" for p q v
    using that by (auto simp: GetLevel_def bind_eq_Some_conv kNumLevels_def word_less_nat_alt split: if_splits)
  have str: "length v < 2 ^ 32" if "GetLengthPrefixedSlice p = Some (v, q)" for p q v
    using that unat_less [where 'a = 32] by (auto simp: GetLengthPrefixedSlice_def split: option.splits if_splits)
  have key: "ikey_fits v" if "GetInternalKey p = Some (v, q)" for p q v
    using that str by (auto simp: GetInternalKey_def ikey_fits_def bind_eq_Some_conv split: if_splits)
  obtain t where t: "tag = tag_code t"
    using assms(2) by (auto simp: decode_field_def simp del: tag_code.simps split: if_splits)
  have name: "edit_ok (e\<lparr>ve_comparator := v, has_comparator := True\<rparr>)" if "length v < 2 ^ 32" for v
    using edit_ok_apply [OF assms(1), of "Comparator_op v"] that by (simp add: SetComparatorName_def edit_ok_def)
  have pointer: "edit_ok (e\<lparr>compact_pointers := compact_pointers e @ [(v, k)]\<rparr>)"
    if "v < kNumLevels" "ikey_fits k" for v k
    using edit_ok_apply [OF assms(1), of "CompactPointer_op v k"] that by (simp add: SetCompactPointer_def)
  have delete: "edit_ok (e\<lparr>deleted_files := insort_insert (v, n) (deleted_files e)\<rparr>)" if "v < kNumLevels" for v n
    using edit_ok_apply [OF assms(1), of "RemoveFile_op v n"] that by (simp add: ve_RemoveFile_def)
  have add: "edit_ok (e\<lparr>new_files := new_files e @
      [(v, new_FileMetaData\<lparr>fm_number := n, file_size := z, smallest := a, largest := b\<rparr>)]\<rparr>)"
    if "v < kNumLevels" "ikey_fits a" "ikey_fits b" for v n z a b
    using edit_ok_apply [OF assms(1), of "AddFile_op v n z a b"] that by (simp add: AddFile_def)
  show ?thesis
  proof (cases t)
    case kComparator
    then have "\<exists>v q. GetLengthPrefixedSlice input = Some (v, q) \<and> e1 = e\<lparr>ve_comparator := v, has_comparator := True\<rparr>"
      using assms(2) t by (auto simp: decode_field_def split: option.splits)
    then show ?thesis using name str by blast
  next
    case kCompactPointer
    then have "\<exists>v p k q. GetLevel input = Some (v, p) \<and> GetInternalKey p = Some (k, q)
        \<and> e1 = e\<lparr>compact_pointers := compact_pointers e @ [(v, k)]\<rparr>"
      using assms(2) t by (auto simp: decode_field_def bind_eq_Some_conv split: option.splits)
    then show ?thesis using pointer level key by blast
  next
    case kDeletedFile
    then have "\<exists>v p n. GetLevel input = Some (v, p)
        \<and> e1 = e\<lparr>deleted_files := insort_insert (v, n) (deleted_files e)\<rparr>"
      using assms(2) t by (auto simp: decode_field_def bind_eq_Some_conv split: option.splits)
    then show ?thesis using delete level by blast
  next
    case kNewFile
    then obtain v p n q z r a u b w where "GetLevel input = Some (v, p)" "GetVarint64 p = Some (n, q)" "GetVarint64 q = Some (z, r)"
      "GetInternalKey r = Some (a, u)" "GetInternalKey u = Some (b, w)"
      "e1 = e\<lparr>new_files := new_files e @
          [(v, new_FileMetaData\<lparr>fm_number := n, file_size := z, smallest := a, largest := b\<rparr>)]\<rparr>"
      using assms(2) t by (auto simp: decode_field_def bind_eq_Some_conv split: option.splits)
    then show ?thesis using add level key by blast
  next
    case kLogNumber
    then obtain n where "e1 = e\<lparr>log_number := n, has_log_number := True\<rparr>"
      using assms(2) t by (auto simp: decode_field_def split: option.splits)
    then show ?thesis using assms(1) by (simp add: edit_ok_def)
  next
    case kPrevLogNumber
    then obtain n where "e1 = e\<lparr>prev_log_number := n, has_prev_log_number := True\<rparr>"
      using assms(2) t by (auto simp: decode_field_def split: option.splits)
    then show ?thesis using assms(1) by (simp add: edit_ok_def)
  next
    case kNextFileNumber
    then obtain n where "e1 = e\<lparr>next_file_number := n, has_next_file_number := True\<rparr>"
      using assms(2) t by (auto simp: decode_field_def split: option.splits)
    then show ?thesis using assms(1) by (simp add: edit_ok_def)
  next
    case kLastSequence
    then obtain n where "e1 = e\<lparr>last_sequence := n, has_last_sequence := True\<rparr>"
      using assms(2) t by (auto simp: decode_field_def split: option.splits)
    then show ?thesis using assms(1) by (simp add: edit_ok_def)
  qed
qed

lemma edit_ok_decode_loop: "edit_ok e \<Longrightarrow> edit_ok (snd (DecodeFrom_loop input e))"
proof (induction input e rule: DecodeFrom_loop.induct)
  case (1 input e)
  then show ?case
    using edit_ok_decode_field by (subst DecodeFrom_loop.simps) (auto split: option.splits sum.splits)
qed

section \<open>Properties\<close>

text \<open>
  C11. An edit is read back as it was: what a client builds from a new edit by any sequence of calls
  decodes, from its encoding, into an equal edit. Decoding into a used edit gives the same, except
  that the compaction pointers it had before stay in front: \<open>Clear\<close> does not remove them.
\<close>

theorem version_edit_round_trip:
  assumes "\<forall>c \<in> set cs. edit_op_fits c"
  shows "ve_DecodeFrom new_VersionEdit (EncodeTo (foldl apply_edit_op new_VersionEdit cs) [])
      = (OK, foldl apply_edit_op new_VersionEdit cs)
    \<and> ve_DecodeFrom used (EncodeTo (foldl apply_edit_op new_VersionEdit cs) [])
      = (OK, (foldl apply_edit_op new_VersionEdit cs)
           \<lparr>compact_pointers := compact_pointers used @ compact_pointers (foldl apply_edit_op new_VersionEdit cs)\<rparr>)"
  using decode_encoded [OF edit_ok_run [OF edit_ok_new assms]]
  by (simp add: new_VersionEdit_def ve_Clear_def)

theorem version_edit_round_trip_witness:
  "ve_DecodeFrom new_VersionEdit
     (EncodeTo (foldl apply_edit_op new_VersionEdit [LogNumber_op 7, AddFile_op 1 5 100 [1] [2], RemoveFile_op 0 3]) [])
   = (OK, foldl apply_edit_op new_VersionEdit [LogNumber_op 7, AddFile_op 1 5 100 [1] [2], RemoveFile_op 0 3])"
  using version_edit_round_trip [of "[LogNumber_op 7, AddFile_op 1 5 100 [1] [2], RemoveFile_op 0 3]" new_VersionEdit]
  by (simp add: ikey_fits_def kNumLevels_def)

text \<open>
  C27. Whatever bytes are decoded, the edit stays well formed: levels are below the number of levels,
  keys are not empty, the deleted files are sorted without repetition, and a field that is not
  flagged has its default value.
\<close>

theorem version_edit_decode_well_formed:
  assumes "edit_ok e"
  shows "edit_ok (snd (ve_DecodeFrom e src))"
proof -
  have "edit_ok (ve_Clear e)" using assms by (simp add: edit_ok_def ve_Clear_def)
  then have "edit_ok (snd (DecodeFrom_loop src (ve_Clear e)))" by (rule edit_ok_decode_loop)
  then show ?thesis by (simp add: ve_DecodeFrom_def case_prod_beta)
qed

theorem version_edit_decode_well_formed_witness:
  "edit_ok (snd (ve_DecodeFrom new_VersionEdit [2, 7, 99]))"
  by (rule version_edit_decode_well_formed [OF edit_ok_new])

end
