(* ===== verification/HandleTable.thy ===== *)
theory HandleTable
  imports Bloom "HOL-Library.Monad_Syntax" "HOL-Library.Multiset"
begin

text \<open>
  The hash table of the cache (\<open>util/cache.cc\<close>): entries of type \<open>LRUHandle\<close> in a heap of allocated
  cells, chained in buckets through their \<open>next_hash\<close> pointers. A pointer is an address, \<open>0\<close> the null
  pointer. Reading or writing a cell that is not allocated, an index outside the bucket array and a
  failed \<open>assert\<close> are \<open>None\<close>, and so is a loop that does not end.
\<close>

section \<open>Entries\<close>

type_synonym ptr = nat

text \<open>\<open>value\<close> is a \<open>void*\<close> and \<open>deleter\<close> a function pointer; \<open>key_length\<close> is the length of \<open>key_data\<close>.\<close>

record LRUHandle =
  lh_value :: ptr
  lh_deleter :: ptr
  next_hash :: ptr
  lh_next :: ptr
  lh_prev :: ptr
  charge :: u64
  in_cache :: bool
  refs :: u32
  lh_hash :: u32
  key_data :: bytes

type_synonym heap = "ptr \<rightharpoonup> LRUHandle"

definition lh_key :: "heap \<Rightarrow> ptr \<Rightarrow> bytes option" where
  "lh_key m a = do {h \<leftarrow> m a; if lh_next h = a then None else Some (key_data h)}"

section \<open>The table\<close>

record HandleTable =
  ht_length :: u32
  ht_elems :: u32
  ht_list :: "ptr list"

text \<open>An \<open>LRUHandle**\<close>: the place of a pointer, in the bucket array or inside an entry.\<close>

datatype slot = Bucket nat | NextHash ptr

fun read_slot :: "heap \<Rightarrow> HandleTable \<Rightarrow> slot \<Rightarrow> ptr option" where
  "read_slot m t (Bucket i) = (if i < length (ht_list t) then Some (ht_list t ! i) else None)"
| "read_slot m t (NextHash a) = map_option next_hash (m a)"

fun write_slot :: "heap \<Rightarrow> HandleTable \<Rightarrow> slot \<Rightarrow> ptr \<Rightarrow> (heap \<times> HandleTable) option" where
  "write_slot m t (Bucket i) p =
     (if i < length (ht_list t) then Some (m, t\<lparr>ht_list := (ht_list t)[i := p]\<rparr>) else None)"
| "write_slot m t (NextHash a) p = map_option (\<lambda>h. (m(a \<mapsto> h\<lparr>next_hash := p\<rparr>), t)) (m a)"

partial_function (option) FindPointer_loop ::
  "heap \<Rightarrow> HandleTable \<Rightarrow> bytes \<Rightarrow> u32 \<Rightarrow> slot \<Rightarrow> slot option" where
  "FindPointer_loop m t key hash ptr =
     do {p \<leftarrow> read_slot m t ptr;
         if p = 0 then Some ptr
         else do {
           h \<leftarrow> m p;
           if lh_hash h \<noteq> hash then FindPointer_loop m t key hash (NextHash p)
           else do {
             k \<leftarrow> lh_key m p;
             if key \<noteq> k then FindPointer_loop m t key hash (NextHash p) else Some ptr}}}"

definition FindPointer :: "heap \<Rightarrow> HandleTable \<Rightarrow> bytes \<Rightarrow> u32 \<Rightarrow> slot option" where
  "FindPointer m t key hash = FindPointer_loop m t key hash (Bucket (unat (hash AND (ht_length t - 1))))"

definition ht_Lookup :: "heap \<Rightarrow> HandleTable \<Rightarrow> bytes \<Rightarrow> u32 \<Rightarrow> ptr option" where
  "ht_Lookup m t key hash = do {ptr \<leftarrow> FindPointer m t key hash; read_slot m t ptr}"

partial_function (option) Resize_length :: "u32 \<Rightarrow> u32 \<Rightarrow> u32 option" where
  "Resize_length new_length elems =
     (if new_length < elems then Resize_length (new_length * 2) elems else Some new_length)"

text \<open>Moving the entries of one bucket to the new array, each to the front of its new bucket.\<close>

partial_function (option) Resize_chain ::
  "u32 \<Rightarrow> heap \<Rightarrow> ptr list \<Rightarrow> u32 \<Rightarrow> ptr \<Rightarrow> (heap \<times> ptr list \<times> u32) option" where
  "Resize_chain new_length m new_list moved p =
     (if p = 0 then Some (m, new_list, moved)
      else do {
        h \<leftarrow> m p;
        let i = unat (lh_hash h AND (new_length - 1));
        if i < length new_list
        then Resize_chain new_length (m(p \<mapsto> h\<lparr>next_hash := new_list ! i\<rparr>)) (new_list[i := p]) (moved + 1)
               (next_hash h)
        else None})"

fun Resize_buckets ::
  "u32 \<Rightarrow> ptr list \<Rightarrow> heap \<Rightarrow> ptr list \<Rightarrow> u32 \<Rightarrow> (heap \<times> ptr list \<times> u32) option" where
  "Resize_buckets new_length [] m new_list moved = Some (m, new_list, moved)"
| "Resize_buckets new_length (p # ps) m new_list moved =
     do {(m1, new_list1, moved1) \<leftarrow> Resize_chain new_length m new_list moved p;
         Resize_buckets new_length ps m1 new_list1 moved1}"

definition ht_Resize :: "heap \<Rightarrow> HandleTable \<Rightarrow> (heap \<times> HandleTable) option" where
  "ht_Resize m t =
     do {new_length \<leftarrow> Resize_length 4 (ht_elems t);
         (m1, new_list, moved) \<leftarrow>
           Resize_buckets new_length (ht_list t) m (replicate (unat new_length) 0) 0;
         if ht_elems t = moved then Some (m1, t\<lparr>ht_list := new_list, ht_length := new_length\<rparr>) else None}"

definition new_HandleTable :: "HandleTable option" where
  "new_HandleTable = map_option snd (ht_Resize Map.empty \<lparr>ht_length = 0, ht_elems = 0, ht_list = []\<rparr>)"

definition ht_Insert :: "heap \<Rightarrow> HandleTable \<Rightarrow> ptr \<Rightarrow> (ptr \<times> heap \<times> HandleTable) option" where
  "ht_Insert m t p =
     do {h \<leftarrow> m p;
         k \<leftarrow> lh_key m p;
         ptr \<leftarrow> FindPointer m t k (lh_hash h);
         old \<leftarrow> read_slot m t ptr;
         nh \<leftarrow> (if old = 0 then Some 0 else map_option next_hash (m old));
         (m2, t2) \<leftarrow> write_slot (m(p \<mapsto> h\<lparr>next_hash := nh\<rparr>)) t ptr p;
         if old = 0
         then (let t3 = t2\<lparr>ht_elems := ht_elems t2 + 1\<rparr>
               in if ht_elems t3 > ht_length t3
                  then do {(m4, t4) \<leftarrow> ht_Resize m2 t3; Some (old, m4, t4)}
                  else Some (old, m2, t3))
         else Some (old, m2, t2)}"

definition ht_Remove :: "heap \<Rightarrow> HandleTable \<Rightarrow> bytes \<Rightarrow> u32 \<Rightarrow> (ptr \<times> heap \<times> HandleTable) option" where
  "ht_Remove m t key hash =
     do {ptr \<leftarrow> FindPointer m t key hash;
         result \<leftarrow> read_slot m t ptr;
         if result \<noteq> 0
         then do {
           h \<leftarrow> m result;
           (m1, t1) \<leftarrow> write_slot m t ptr (next_hash h);
           Some (result, m1, t1\<lparr>ht_elems := ht_elems t1 - 1\<rparr>)}
         else Some (result, m, t)}"

section \<open>Representation\<close>

text \<open>A chain of entries from a pointer to the null pointer.\<close>

fun chain :: "heap \<Rightarrow> ptr \<Rightarrow> ptr list \<Rightarrow> bool" where
  "chain m p [] \<longleftrightarrow> p = 0"
| "chain m p (x # xs) \<longleftrightarrow> p = x \<and> x \<noteq> 0 \<and> (case m x of None \<Rightarrow> False | Some h \<Rightarrow> chain m (next_hash h) xs)"

text \<open>What identifies an entry: its hash and its key.\<close>

definition ident :: "heap \<Rightarrow> ptr \<Rightarrow> u32 \<times> bytes" where
  "ident m a = (case m a of Some h \<Rightarrow> (lh_hash h, key_data h) | None \<Rightarrow> (0, []))"

definition readable :: "heap \<Rightarrow> ptr \<Rightarrow> bool" where
  "readable m a \<longleftrightarrow> (\<exists>h. m a = Some h \<and> lh_next h \<noteq> a)"

definition bucket_of :: "u32 \<Rightarrow> u32 \<Rightarrow> nat" where
  "bucket_of len hash = unat (hash AND (len - 1))"

definition buckets :: "heap \<Rightarrow> u32 \<Rightarrow> ptr list \<Rightarrow> ptr list list \<Rightarrow> bool" where
  "buckets m len heads B \<longleftrightarrow>
     length B = length heads \<and> length heads = unat len \<and> (\<exists>k\<le>31. len = 2 ^ k)
     \<and> (\<forall>i<length B. chain m (heads ! i) (B ! i) \<and> (\<forall>a\<in>set (B ! i). bucket_of len (fst (ident m a)) = i))
     \<and> distinct (concat B)"

definition ht_rep :: "heap \<Rightarrow> HandleTable \<Rightarrow> ptr set \<Rightarrow> bool" where
  "ht_rep m t S \<longleftrightarrow>
     (\<exists>B. buckets m (ht_length t) (ht_list t) B \<and> set (concat B) = S \<and> ht_elems t = of_nat (card S))
     \<and> inj_on (ident m) S \<and> card S < 2 ^ 31 \<and> card S \<le> unat (ht_length t)"

text \<open>The entry of a key in a set of entries, or the null pointer.\<close>

definition entry_of :: "heap \<Rightarrow> ptr set \<Rightarrow> u32 \<Rightarrow> bytes \<Rightarrow> ptr \<Rightarrow> bool" where
  "entry_of m S hash key p \<longleftrightarrow>
     (if \<exists>a\<in>S. ident m a = (hash, key) then p \<in> S \<and> ident m p = (hash, key) else p = 0)"

text \<open>The heap but for the \<open>next_hash\<close> pointers, and what the table depends on of it.\<close>

definition erase :: "heap \<Rightarrow> heap" where
  "erase m a = map_option (\<lambda>h. h\<lparr>next_hash := 0\<rparr>) (m a)"

definition hash_view :: "heap \<Rightarrow> ptr \<Rightarrow> (ptr \<times> u32 \<times> bytes) option" where
  "hash_view m a = map_option (\<lambda>h. (next_hash h, lh_hash h, key_data h)) (m a)"

text \<open>The slot behind the first entries of a bucket.\<close>

definition slot_at :: "nat \<Rightarrow> ptr list \<Rightarrow> slot" where
  "slot_at i ys = (if ys = [] then Bucket i else NextHash (last ys))"

section \<open>Chains\<close>

lemma readable_key: "readable m a \<Longrightarrow> lh_key m a = Some (snd (ident m a))"
  by (auto simp: readable_def lh_key_def ident_def)

lemma erase_eqD:
  assumes "erase m = erase m'"
  shows "ident m = ident m'" and "readable m = readable m'" and "dom m = dom m'"
proof -
  have *: "map_option (\<lambda>h. h\<lparr>next_hash := 0\<rparr>) (m a) = map_option (\<lambda>h. h\<lparr>next_hash := 0\<rparr>) (m' a)" for a
    using assms by (simp add: erase_def fun_eq_iff)
  have upd: "lh_hash h = lh_hash h' \<and> key_data h = key_data h' \<and> lh_next h = lh_next h'"
    if "h\<lparr>next_hash := 0\<rparr> = h'\<lparr>next_hash := 0\<rparr>" for h h' :: LRUHandle
    using that by (cases h; cases h') simp
  have "ident m a = ident m' a \<and> readable m a = readable m' a \<and> (m a = None) = (m' a = None)" for a
  proof (cases "m a")
    case None
    then show ?thesis using * [of a] by (simp add: ident_def readable_def)
  next
    case (Some h)
    then obtain h' where "m' a = Some h'" "h\<lparr>next_hash := 0\<rparr> = h'\<lparr>next_hash := 0\<rparr>"
      using * [of a] by (cases "m' a") simp_all
    then show ?thesis using Some upd [of h h'] by (simp add: ident_def readable_def)
  qed
  then show "ident m = ident m'" and "readable m = readable m'" and "dom m = dom m'"
    by (auto simp: dom_def fun_eq_iff)
qed

lemma erase_upd [simp]: "m a = Some h \<Longrightarrow> erase (m(a \<mapsto> h\<lparr>next_hash := p\<rparr>)) = erase m"
  by (auto simp: erase_def fun_eq_iff)

lemma chain_upd_other [simp]: "a \<notin> set xs \<Longrightarrow> chain (m(a := v)) p xs = chain m p xs"
  by (induction xs arbitrary: p) (auto split: option.splits)

lemma chain_cong:
  "(\<And>a. a \<in> set xs \<Longrightarrow> map_option next_hash (m a) = map_option next_hash (m' a)) \<Longrightarrow> chain m p xs = chain m' p xs"
proof (induction xs arbitrary: p)
  case (Cons x xs)
  have "map_option next_hash (m x) = map_option next_hash (m' x)" by (rule Cons.prems) simp
  moreover have "chain m q xs = chain m' q xs" for q by (rule Cons.IH) (simp add: Cons.prems)
  ultimately show ?case by (cases "m x"; cases "m' x") auto
qed simp

lemma chain_split:
  "chain m p (ys @ zs) \<Longrightarrow> ys \<noteq> [] \<Longrightarrow> \<exists>h. m (last ys) = Some h \<and> chain m (next_hash h) zs"
proof (induction ys arbitrary: p)
  case (Cons y ys)
  then show ?case by (cases "ys = []") (auto split: option.splits)
qed simp

lemma chain_relink:
  "chain m p (ys @ zs) \<Longrightarrow> ys \<noteq> [] \<Longrightarrow> distinct ys \<Longrightarrow> m (last ys) = Some h \<Longrightarrow> chain m q ws \<Longrightarrow>
   last ys \<notin> set ws \<Longrightarrow> chain (m(last ys \<mapsto> h\<lparr>next_hash := q\<rparr>)) p (ys @ ws)"
proof (induction ys arbitrary: p)
  case (Cons y ys)
  note fun_upd_apply [simp del] and fun_upd_same [simp] and fun_upd_other [simp]
  show ?case
  proof (cases "ys = []")
    case True
    then show ?thesis using Cons.prems by auto
  next
    case False
    then have "last ys \<in> set ys" by simp
    then have "y \<noteq> last ys" using Cons.prems(3) by auto
    obtain hy where "m y = Some hy" "chain m (next_hash hy) (ys @ zs)" using Cons.prems(1) by (auto split: option.splits)
    moreover have "chain (m(last ys \<mapsto> h\<lparr>next_hash := q\<rparr>)) (next_hash hy) (ys @ ws)"
      using Cons.IH [of "next_hash hy"] calculation False Cons.prems by simp
    ultimately show ?thesis using False \<open>y \<noteq> last ys\<close> Cons.prems(1) by simp
  qed
qed simp

lemma chain_nonnull: "chain m p xs \<Longrightarrow> a \<in> set xs \<Longrightarrow> a \<noteq> 0 \<and> (\<exists>h. m a = Some h)"
  by (induction xs arbitrary: p) (auto split: option.splits)

lemma chain_head: "chain m p xs \<Longrightarrow> p = (if xs = [] then 0 else hd xs)"
  by (cases xs) auto

text \<open>Walking down a chain stops at the slot of the first entry with the key.\<close>

lemma FindPointer_loop_chain:
  "read_slot m t s = Some p \<Longrightarrow> chain m p xs \<Longrightarrow> \<forall>a\<in>set xs. readable m a \<Longrightarrow>
   FindPointer_loop m t key hash s =
     Some (let ys = takeWhile (\<lambda>a. ident m a \<noteq> (hash, key)) xs in if ys = [] then s else NextHash (last ys))"
proof (induction xs arbitrary: s p)
  case Nil
  then show ?case by (subst FindPointer_loop.simps) simp
next
  case (Cons x xs)
  obtain h where h: "m x = Some h" "chain m (next_hash h) xs" "p = x" "x \<noteq> 0" using Cons.prems(2) by (auto split: option.splits)
  have key: "lh_key m x = Some (key_data h)" using Cons.prems(3) h(1) readable_key [of m x] by (simp add: ident_def)
  have IH: "FindPointer_loop m t key hash (NextHash x) =
     Some (let ys = takeWhile (\<lambda>a. ident m a \<noteq> (hash, key)) xs in if ys = [] then NextHash x else NextHash (last ys))"
    using Cons.IH [of "NextHash x" "next_hash h"] h Cons.prems(3) by simp
  have step: "FindPointer_loop m t key hash s =
     (if ident m x = (hash, key) then Some s else FindPointer_loop m t key hash (NextHash x))"
    by (subst FindPointer_loop.simps) (simp add: Cons.prems(1) h key ident_def)
  show ?case
  proof (cases "ident m x = (hash, key)")
    case True
    then show ?thesis by (simp add: step)
  next
    case False
    then show ?thesis by (simp add: step IH)
  qed
qed

section \<open>Buckets\<close>

lemma two_power_u32: "k \<le> 31 \<Longrightarrow> unat ((2 :: u32) ^ k) = 2 ^ k"
proof -
  assume "k \<le> 31"
  then have "(2 :: nat) ^ k < 2 ^ 32" by (intro power_strict_increasing) auto
  moreover have "unat ((2 :: u32) ^ k) = 2 ^ k mod 2 ^ 32"
    using unsigned_of_nat [where 'a = nat and 'b = 32, of "2 ^ k"] by (simp add: take_bit_eq_mod)
  ultimately show ?thesis by simp
qed

lemma bucket_of_less: "k \<le> 31 \<Longrightarrow> bucket_of (2 ^ k) hash < 2 ^ k"
proof -
  assume "k \<le> 31"
  have "hash AND (2 ^ k - 1) = take_bit k hash" by (simp add: take_bit_eq_mask mask_eq_exp_minus_1)
  then show ?thesis by (simp add: bucket_of_def unat_take_bit)
qed

lemma buckets_index: "buckets m len heads B \<Longrightarrow> bucket_of len hash < length B"
  using bucket_of_less by (auto simp: buckets_def two_power_u32)

lemma buckets_chain: "buckets m len heads B \<Longrightarrow> i < length B \<Longrightarrow> chain m (heads ! i) (B ! i)"
  by (simp add: buckets_def)

lemma distinct_concat_nth:
  assumes "distinct (concat B)" and "i < length B" and "j < length B" and "i \<noteq> j" and "a \<in> set (B ! i)"
  shows "a \<notin> set (B ! j)"
proof
  assume a: "a \<in> set (B ! j)"
  have aux: "a \<notin> set (B ! v)" if "u < v" "v < length B" "a \<in> set (B ! u)" for u v
  proof -
    have "B = take v B @ B ! v # drop (Suc v) B" using that(2) by (rule id_take_nth_drop)
    then have "distinct (concat (take v B @ B ! v # drop (Suc v) B))" using assms(1) by simp
    moreover have "B ! u \<in> set (take v B)" using that by (auto simp: in_set_conv_nth intro: exI [of _ u])
    ultimately show ?thesis using that(3) by auto
  qed
  show False using aux [of i j] aux [of j i] assms a by (cases i j rule: linorder_cases) auto
qed

lemma concat_update:
  assumes "i < length B"
  shows "mset (concat (B[i := ys])) + mset (B ! i) = mset (concat B) + mset ys"
proof -
  have "mset (concat B) = mset (concat (take i B @ B ! i # drop (Suc i) B))"
    using id_take_nth_drop [OF assms] by simp
  then show ?thesis using assms by (simp add: upd_conv_take_nth_drop)
qed

lemma write_slot_buckets:
  assumes B: "buckets m len (ht_list t) B" and i: "i < length B" and Bi: "B ! i = ys @ zs"
    and q: "chain m q ws" "distinct (concat (B[i := ys @ ws]))" "\<forall>a\<in>set ws. bucket_of len (fst (ident m a)) = i"
  shows "\<exists>m' t'. write_slot m t (slot_at i ys) q = Some (m', t') \<and> buckets m' len (ht_list t') (B[i := ys @ ws])
    \<and> erase m' = erase m \<and> ht_elems t' = ht_elems t \<and> ht_length t' = ht_length t \<and> (\<forall>a. a \<notin> set ys \<longrightarrow> m' a = m a)"
proof (cases "ys = []")
  case True
  have "buckets m len ((ht_list t)[i := q]) (B[i := ws])"
    using B i q True by (auto simp: buckets_def nth_list_update)
  then show ?thesis using True i B by (auto simp: slot_at_def buckets_def)
next
  case False
  have ch: "chain m (ht_list t ! i) (ys @ zs)" using buckets_chain [OF B i] Bi by simp
  then obtain h where h: "m (last ys) = Some h" using chain_split False by blast
  let ?m = "m(last ys \<mapsto> h\<lparr>next_hash := q\<rparr>)"
  have "distinct ((B[i := ys @ ws]) ! i)" using q(2) i by (metis distinct_concat_iff length_list_update nth_mem)
  then have dis: "distinct (ys @ ws)" using i by simp
  then have last: "last ys \<notin> set ws" using False by (auto dest: last_in_set)
  have er: "erase ?m = erase m" by (rule erase_upd) (rule h)
  have id: "ident ?m = ident m" by (rule erase_eqD(1) [OF er])
  have "chain ?m (ht_list t ! j) (B[i := ys @ ws] ! j)
      \<and> (\<forall>a\<in>set (B[i := ys @ ws] ! j). bucket_of len (fst (ident ?m a)) = j)" if j: "j < length B" for j
  proof (cases "j = i")
    case True
    then show ?thesis using chain_relink [OF ch False _ h q(1) last] dis i B q(3) Bi unfolding id
      by (auto simp: buckets_def simp del: fun_upd_apply)
  next
    case neq: False
    have "last ys \<notin> set (B ! j)"
      using distinct_concat_nth [of B i j "last ys"] B i j neq Bi False by (auto simp: buckets_def)
    then show ?thesis using neq B j unfolding id by (auto simp: buckets_def simp del: fun_upd_apply)
  qed
  then have "buckets ?m len (ht_list t) (B[i := ys @ ws])" using B q(2) by (simp add: buckets_def del: fun_upd_apply)
  moreover have "write_slot m t (slot_at i ys) q = Some (?m, t)" using False h by (simp add: slot_at_def)
  moreover have "?m a = m a" if "a \<notin> set ys" for a using that False by auto
  ultimately show ?thesis using er by blast
qed

lemma read_slot_at:
  assumes "buckets m len (ht_list t) B" and "i < length B" and "B ! i = ys @ zs"
  shows "\<exists>p. read_slot m t (slot_at i ys) = Some p \<and> chain m p zs"
proof (cases "ys = []")
  case True
  then show ?thesis using assms buckets_chain [OF assms(1,2)] by (auto simp: slot_at_def buckets_def)
next
  case False
  then show ?thesis using buckets_chain [OF assms(1,2)] chain_split [of m _ ys zs] assms(3) by (force simp: slot_at_def)
qed

lemma FindPointer_buckets:
  assumes B: "buckets m (ht_length t) (ht_list t) B" "set (concat B) = S" and r: "\<forall>a\<in>S. readable m a"
  obtains i ys zs p where "i = bucket_of (ht_length t) hash" and "B ! i = ys @ zs" and "i < length B"
    and "FindPointer m t key hash = Some (slot_at i ys)" and "read_slot m t (slot_at i ys) = Some p" and "chain m p zs"
    and "p = 0 \<and> zs = [] \<and> (\<forall>a\<in>S. ident m a \<noteq> (hash, key))
         \<or> (\<exists>zs'. zs = p # zs' \<and> p \<noteq> 0 \<and> p \<in> S \<and> ident m p = (hash, key))"
proof -
  let ?P = "\<lambda>a. ident m a \<noteq> (hash, key)" and ?i = "bucket_of (ht_length t) hash"
  let ?ys = "takeWhile ?P (B ! ?i)" and ?zs = "dropWhile ?P (B ! ?i)"
  have il: "?i < length B" by (rule buckets_index [OF B(1)])
  then have sub: "set (B ! ?i) \<subseteq> S" using B(2) by auto
  have head: "read_slot m t (Bucket ?i) = Some (ht_list t ! ?i)" using B(1) il by (simp add: buckets_def)
  have ri: "\<forall>a\<in>set (B ! ?i). readable m a" using r sub by blast
  have find: "FindPointer m t key hash = Some (slot_at ?i ?ys)"
    using FindPointer_loop_chain [OF head buckets_chain [OF B(1) il] ri, of key hash]
    by (simp add: FindPointer_def slot_at_def bucket_of_def Let_def)
  obtain p where p: "read_slot m t (slot_at ?i ?ys) = Some p" "chain m p ?zs"
    using read_slot_at [OF B(1) il, of ?ys ?zs] by auto
  have "p = 0 \<and> ?zs = [] \<and> (\<forall>a\<in>S. ident m a \<noteq> (hash, key))
      \<or> (\<exists>zs'. ?zs = p # zs' \<and> p \<noteq> 0 \<and> p \<in> S \<and> ident m p = (hash, key))"
  proof (cases ?zs)
    case Nil
    have "ident m a \<noteq> (hash, key)" if mem: "a \<in> S" for a
    proof -
      obtain us where "us \<in> set B" "a \<in> set us" using mem B(2) by auto
      then obtain j where j: "j < length B" "a \<in> set (B ! j)" by (metis in_set_conv_nth)
      then have "bucket_of (ht_length t) (fst (ident m a)) = j" using B by (simp add: buckets_def)
      then show ?thesis using Nil j by (auto simp: dropWhile_eq_Nil_conv)
    qed
    moreover have "p = 0" using Nil p(2) by (simp only: chain.simps)
    ultimately show ?thesis using Nil by blast
  next
    case (Cons z zs')
    then have "z \<in> set (B ! ?i)" by (metis list.set_intros(1) set_dropWhileD)
    moreover have "\<not> ?P z" using Cons hd_dropWhile [of ?P "B ! ?i"] by simp
    ultimately show ?thesis using Cons p(2) sub by auto
  qed
  then show ?thesis using that [of ?i ?ys ?zs p] il find p by simp
qed

section \<open>Growing the table\<close>

lemma Resize_length_power:
  assumes "j \<le> 31" and "unat e \<le> 2 ^ 31"
  shows "\<exists>k\<le>31. Resize_length (2 ^ j) e = Some (2 ^ k) \<and> unat e \<le> 2 ^ k"
  using assms(1)
proof (induction "31 - j" arbitrary: j)
  case 0
  then have "j = 31" by simp
  then have "\<not> (2 :: u32) ^ j < e" using assms(2) two_power_u32 [of 31] by (simp add: word_less_nat_alt)
  then show ?case using \<open>j = 31\<close> assms(2) by (subst Resize_length.simps) auto
next
  case (Suc d)
  show ?case
  proof (cases "(2 :: u32) ^ j < e")
    case True
    have "\<exists>k\<le>31. Resize_length (2 ^ Suc j) e = Some (2 ^ k) \<and> unat e \<le> 2 ^ k"
      using Suc by (intro Suc.hyps(1)) auto
    then show ?thesis using True by (subst Resize_length.simps) (simp add: mult.commute)
  next
    case False
    then show ?thesis using Suc.prems two_power_u32 [of j]
      by (subst Resize_length.simps) (auto simp: word_less_nat_alt)
  qed
qed

lemma mset_update_front:
  "i < length C \<Longrightarrow> mset (concat (C[i := x # C ! i])) = add_mset x (mset (concat C))"
  using concat_update [of i C "x # C ! i"] by simp

lemma Resize_chain_moves:
  "buckets m len nl C \<Longrightarrow> chain m p xs \<Longrightarrow> distinct xs \<Longrightarrow> set xs \<inter> set (concat C) = {} \<Longrightarrow>
   \<exists>m' nl' C'. Resize_chain len m nl n p = Some (m', nl', n + of_nat (length xs)) \<and> buckets m' len nl' C'
     \<and> set (concat C') = set xs \<union> set (concat C) \<and> erase m' = erase m \<and> (\<forall>a. a \<notin> set xs \<longrightarrow> m' a = m a)"
proof (induction xs arbitrary: m nl C n p)
  case Nil
  then show ?case by (subst Resize_chain.simps) auto
next
  case (Cons x xs)
  obtain h where h: "m x = Some h" "chain m (next_hash h) xs" "p = x" "x \<noteq> 0"
    using Cons.prems(2) by (auto split: option.splits)
  let ?i = "bucket_of len (lh_hash h)" and ?m = "m(x \<mapsto> h\<lparr>next_hash := nl ! bucket_of len (lh_hash h)\<rparr>)"
  have i: "?i < length C" by (rule buckets_index [OF Cons.prems(1)])
  have er: "erase ?m = erase m" by (rule erase_upd) (rule h(1))
  have id: "ident ?m = ident m" by (rule erase_eqD(1) [OF er])
  have x: "x \<notin> set (C ! j)" if "j < length C" for j using Cons.prems(4) that by (auto simp: disjoint_iff)
  have ms: "mset (concat (C[?i := x # C ! ?i])) = mset (x # concat C)" using mset_update_front [OF i] by simp
  have bk: "buckets ?m len (nl[?i := x]) (C[?i := x # C ! ?i])"
    unfolding buckets_def id
  proof (intro conjI allI impI)
    show "distinct (concat (C[?i := x # C ! ?i]))"
      using mset_eq_imp_distinct_iff [OF ms] Cons.prems(1,4) by (simp add: buckets_def)
    fix j assume "j < length (C[?i := x # C ! ?i])"
    then show "chain ?m (nl[?i := x] ! j) (C[?i := x # C ! ?i] ! j)"
      and "\<forall>a\<in>set (C[?i := x # C ! ?i] ! j). bucket_of len (fst (ident m a)) = j"
      using Cons.prems(1) h x i
      by (auto simp: buckets_def nth_list_update ident_def fun_upd_same simp del: fun_upd_apply)
  qed (use Cons.prems(1) in \<open>auto simp: buckets_def\<close>)
  have "chain ?m (next_hash h) xs" using h(2) Cons.prems(3) by (simp del: fun_upd_apply)
  moreover have "set xs \<inter> set (concat (C[?i := x # C ! ?i])) = {}"
    using mset_eq_setD [OF ms] Cons.prems(3,4) by auto
  ultimately obtain m' nl' C' where *: "Resize_chain len ?m (nl[?i := x]) (n + 1) (next_hash h) =
        Some (m', nl', n + 1 + of_nat (length xs))" "buckets m' len nl' C'"
      "set (concat C') = set xs \<union> set (concat (C[?i := x # C ! ?i]))" "erase m' = erase ?m"
      "\<forall>a. a \<notin> set xs \<longrightarrow> m' a = ?m a"
    using Cons.IH [OF bk, of "next_hash h" "n + 1"] Cons.prems(3) by (auto simp del: fun_upd_apply)
  have "Resize_chain len m nl n p = Some (m', nl', n + of_nat (length (x # xs)))"
    using h i *(1) Cons.prems(1) by (subst Resize_chain.simps) (simp add: bucket_of_def buckets_def algebra_simps)
  moreover have "set (concat C') = set (x # xs) \<union> set (concat C)" using *(3) mset_eq_setD [OF ms] by auto
  moreover have "\<forall>a. a \<notin> set (x # xs) \<longrightarrow> m' a = m a" using *(5) by simp
  ultimately show ?case using *(2,4) er by metis
qed

lemma Resize_buckets_moves:
  "buckets m len nl C \<Longrightarrow> list_all2 (chain m) ps B \<Longrightarrow> distinct (concat B) \<Longrightarrow>
   set (concat B) \<inter> set (concat C) = {} \<Longrightarrow>
   \<exists>m' nl' C'. Resize_buckets len ps m nl n = Some (m', nl', n + of_nat (length (concat B))) \<and> buckets m' len nl' C'
     \<and> set (concat C') = set (concat B) \<union> set (concat C) \<and> erase m' = erase m
     \<and> (\<forall>a. a \<notin> set (concat B) \<longrightarrow> m' a = m a)"
proof (induction ps arbitrary: m nl C n B)
  case Nil
  then show ?case by auto
next
  case (Cons p ps)
  obtain xs B' where B: "B = xs # B'" "chain m p xs" "list_all2 (chain m) ps B'"
    using Cons.prems(2) by (auto simp: list_all2_Cons1)
  have "distinct xs" "set xs \<inter> set (concat C) = {}" using Cons.prems(3,4) B(1) by auto
  then obtain m1 nl1 C1 where 1: "Resize_chain len m nl n p = Some (m1, nl1, n + of_nat (length xs))"
      "buckets m1 len nl1 C1" "set (concat C1) = set xs \<union> set (concat C)" "erase m1 = erase m"
      "\<forall>a. a \<notin> set xs \<longrightarrow> m1 a = m a"
    using Resize_chain_moves [OF Cons.prems(1) B(2)] by blast
  have same: "m1 a = m a" if "ys \<in> set B'" "a \<in> set ys" for ys a
  proof -
    have "a \<notin> set xs" using Cons.prems(3) B(1) that by auto
    then show ?thesis using 1(5) by simp
  qed
  have "chain m1 q ys = chain m q ys" if "ys \<in> set B'" for q ys
    by (rule chain_cong) (simp add: same [OF that])
  then have "list_all2 (chain m1) ps B'"
    using B(3) by (auto simp: list_all2_conv_all_nth)
  moreover have "distinct (concat B')" "set (concat B') \<inter> set (concat C1) = {}"
    using Cons.prems(3,4) B(1) 1(3) by auto
  ultimately obtain m' nl' C' where 2: "Resize_buckets len ps m1 nl1 (n + of_nat (length xs)) =
        Some (m', nl', n + of_nat (length xs) + of_nat (length (concat B')))"
      "buckets m' len nl' C'" "set (concat C') = set (concat B') \<union> set (concat C1)" "erase m' = erase m1"
      "\<forall>a. a \<notin> set (concat B') \<longrightarrow> m' a = m1 a"
    using Cons.IH [OF 1(2)] by blast
  have "Resize_buckets len (p # ps) m nl n = Some (m', nl', n + of_nat (length (concat B)))"
    using 1(1) 2(1) B(1) by (simp add: algebra_simps)
  moreover have "set (concat C') = set (concat B) \<union> set (concat C)" using 2(3) 1(3) B(1) by auto
  moreover have "\<forall>a. a \<notin> set (concat B) \<longrightarrow> m' a = m a" using 2(5) 1(5) B(1) by simp
  ultimately show ?case using 2(2,4) 1(4) by metis
qed

lemma buckets_empty: "k \<le> 31 \<Longrightarrow> buckets m (2 ^ k) (replicate (2 ^ k) 0) (replicate (2 ^ k) [])"
  by (auto simp: buckets_def two_power_u32)

lemma ht_Resize_buckets:
  assumes B: "list_all2 (chain m) (ht_list t) B" "distinct (concat B)" "ht_elems t = of_nat (length (concat B))"
    and n: "length (concat B) \<le> 2 ^ 31"
  shows "\<exists>m' t' C. ht_Resize m t = Some (m', t') \<and> buckets m' (ht_length t') (ht_list t') C
    \<and> set (concat C) = set (concat B) \<and> erase m' = erase m \<and> ht_elems t' = ht_elems t
    \<and> length (concat B) \<le> unat (ht_length t') \<and> (\<forall>a. a \<notin> set (concat B) \<longrightarrow> m' a = m a)"
proof -
  have e: "unat (ht_elems t) = length (concat B)" using B(3) n
    by (simp add: unsigned_of_nat take_bit_nat_eq_self)
  obtain k where k: "k \<le> 31" "Resize_length 4 (ht_elems t) = Some (2 ^ k)" "length (concat B) \<le> 2 ^ k"
    using Resize_length_power [of 2 "ht_elems t"] e n by auto
  obtain m' nl' C where 1: "Resize_buckets (2 ^ k) (ht_list t) m (replicate (2 ^ k) 0) 0 =
        Some (m', nl', 0 + of_nat (length (concat B)))" "buckets m' (2 ^ k) nl' C"
      "set (concat C) = set (concat B) \<union> set (concat (replicate (2 ^ k) []))" "erase m' = erase m"
      "\<forall>a. a \<notin> set (concat B) \<longrightarrow> m' a = m a"
    using Resize_buckets_moves [OF buckets_empty [OF k(1)] B(1,2), of 0] by auto
  have "ht_Resize m t = Some (m', t\<lparr>ht_list := nl', ht_length := 2 ^ k\<rparr>)"
    using k 1(1) B(3) by (simp add: ht_Resize_def two_power_u32)
  then show ?thesis using 1 k by (intro exI [of _ m'] exI [of _ "t\<lparr>ht_list := nl', ht_length := 2 ^ k\<rparr>"] exI [of _ C])
      (simp add: two_power_u32)
qed

section \<open>The table refines a set of entries\<close>

lemma ht_rep_readable_cong:
  assumes "ht_rep m t S" and "\<And>a. a \<in> S \<Longrightarrow> hash_view m a = hash_view m' a"
  shows "ht_rep m' t S"
proof -
  obtain B where B: "buckets m (ht_length t) (ht_list t) B" "set (concat B) = S" "ht_elems t = of_nat (card S)"
    "inj_on (ident m) S" "card S < 2 ^ 31" "card S \<le> unat (ht_length t)" using assms(1) by (auto simp: ht_rep_def)
  have id: "ident m' a = ident m a" and nh: "map_option next_hash (m a) = map_option next_hash (m' a)" if "a \<in> S" for a
    using assms(2) [OF that] by (cases "m a"; cases "m' a"; simp add: hash_view_def ident_def)+
  have sub: "set (B ! i) \<subseteq> S" if "i < length B" for i using B(2) that by auto
  have "chain m' p (B ! i) = chain m p (B ! i)" if "i < length B" for p i
    using sub [OF that] nh by (intro chain_cong) auto
  moreover have "\<forall>a\<in>set (B ! i). ident m' a = ident m a" if "i < length B" for i using sub [OF that] id by blast
  ultimately have "buckets m' (ht_length t) (ht_list t) B" using B(1) by (simp add: buckets_def)
  moreover have "inj_on (ident m') S" using B(4) id by (simp add: inj_on_def)
  ultimately show ?thesis using B by (auto simp: ht_rep_def)
qed

lemma ht_rep_nonnull: "ht_rep m t S \<Longrightarrow> a \<in> S \<Longrightarrow> a \<noteq> 0 \<and> a \<in> dom m"
  using chain_nonnull by (fastforce simp: ht_rep_def buckets_def in_set_conv_nth [of _ "_ :: ptr list list"])

lemma ht_repE:
  assumes "ht_rep m t S"
  obtains B where "buckets m (ht_length t) (ht_list t) B" "set (concat B) = S" "ht_elems t = of_nat (card S)"
    "length (concat B) = card S" "inj_on (ident m) S" "card S < 2 ^ 31" "card S \<le> unat (ht_length t)"
proof -
  obtain B where B: "buckets m (ht_length t) (ht_list t) B" "set (concat B) = S" "ht_elems t = of_nat (card S)"
    "inj_on (ident m) S" "card S < 2 ^ 31" "card S \<le> unat (ht_length t)" using assms by (auto simp: ht_rep_def)
  moreover have "length (concat B) = card S"
    using B(1,2) distinct_card [of "concat B"] by (simp add: buckets_def)
  ultimately show ?thesis using that by blast
qed

lemma ht_repI:
  assumes "buckets m (ht_length t) (ht_list t) B" "set (concat B) = S" "ht_elems t = of_nat (card S)"
    "inj_on (ident m) S" "card S < 2 ^ 31" "card S \<le> unat (ht_length t)"
  shows "ht_rep m t S"
  using assms by (auto simp: ht_rep_def)

lemma ht_Lookup_rep:
  assumes "ht_rep m t S" and "\<forall>a\<in>S. readable m a"
  shows "\<exists>p. ht_Lookup m t key hash = Some p \<and> entry_of m S hash key p"
proof -
  obtain B where B: "buckets m (ht_length t) (ht_list t) B" "set (concat B) = S" using assms(1) by (rule ht_repE)
  show ?thesis
    by (rule FindPointer_buckets [OF B assms(2), of hash key])
      (auto simp: ht_Lookup_def entry_of_def)
qed

lemma ht_Remove_rep:
  assumes rep: "ht_rep m t S" and r: "\<forall>a\<in>S. readable m a"
  shows "\<exists>p m' t'. ht_Remove m t key hash = Some (p, m', t') \<and> entry_of m S hash key p \<and> ht_rep m' t' (S - {p})
    \<and> erase m' = erase m \<and> (\<forall>a. a \<notin> S \<longrightarrow> m' a = m a)"
proof -
  obtain B where B: "buckets m (ht_length t) (ht_list t) B" "set (concat B) = S" "ht_elems t = of_nat (card S)"
    "length (concat B) = card S" "inj_on (ident m) S" "card S < 2 ^ 31" "card S \<le> unat (ht_length t)"
    using rep by (rule ht_repE)
  obtain i ys zs p where F: "i = bucket_of (ht_length t) hash" "B ! i = ys @ zs" "i < length B"
      "FindPointer m t key hash = Some (slot_at i ys)" "read_slot m t (slot_at i ys) = Some p" "chain m p zs"
      "p = 0 \<and> zs = [] \<and> (\<forall>a\<in>S. ident m a \<noteq> (hash, key))
       \<or> (\<exists>zs'. zs = p # zs' \<and> p \<noteq> 0 \<and> p \<in> S \<and> ident m p = (hash, key))"
    by (rule FindPointer_buckets [OF B(1,2) r])
  show ?thesis
  proof (cases "p = 0")
    case True
    then have "ht_Remove m t key hash = Some (0, m, t)" using F by (simp add: ht_Remove_def)
    moreover have "0 \<notin> S" using ht_rep_nonnull [OF rep] by blast
    ultimately show ?thesis using True F(7) rep by (auto simp: entry_of_def)
  next
    case False
    then obtain zs' where zs: "zs = p # zs'" "p \<in> S" "ident m p = (hash, key)" using F(7) by blast
    obtain h where h: "m p = Some h" "chain m (next_hash h) zs'" using F(6) zs(1) by (auto split: option.splits)
    let ?B = "B[i := ys @ zs']"
    have "mset (concat ?B) + {#p#} = mset (concat B)"
      using concat_update [OF F(3), of "ys @ zs'"] F(2) zs(1) by simp
    then have ms: "mset (concat ?B) = mset (remove1 p (concat B))" by (metis add_diff_cancel_right' mset_remove1)
    have d: "distinct (concat ?B)" using mset_eq_imp_distinct_iff [OF ms] B(1) by (simp add: buckets_def)
    have set: "set (concat ?B) = S - {p}" using mset_eq_setD [OF ms] B(1,2) by (simp add: buckets_def)
    have hs: "\<forall>a\<in>set zs'. bucket_of (ht_length t) (fst (ident m a)) = i"
      using B(1) F(2,3) zs(1) by (simp add: buckets_def)
    obtain m' t' where w: "write_slot m t (slot_at i ys) (next_hash h) = Some (m', t')"
        "buckets m' (ht_length t) (ht_list t') ?B" "erase m' = erase m" "ht_elems t' = ht_elems t"
        "ht_length t' = ht_length t" "\<forall>a. a \<notin> set ys \<longrightarrow> m' a = m a"
      using write_slot_buckets [OF B(1) F(3,2) h(2) d hs] by blast
    have "finite S" using B(2) by blast
    then have c: "card S = Suc (card (S - {p}))" using zs(2) by (metis card_Suc_Diff1)
    have "ht_rep m' (t'\<lparr>ht_elems := ht_elems t' - 1\<rparr>) (S - {p})"
      by (rule ht_repI [where B = ?B])
        (use w set c B erase_eqD(1) [OF w(3)] in \<open>auto simp del: set_concat intro: inj_on_subset\<close>)
    moreover have "ht_Remove m t key hash = Some (p, m', t'\<lparr>ht_elems := ht_elems t' - 1\<rparr>)"
      using F(4,5) False h(1) w(1) by (simp add: ht_Remove_def)
    moreover have "set ys \<subseteq> S" using F(2,3) B(2) nth_mem [OF F(3)] by auto
    ultimately show ?thesis using zs w(3,6) by (auto simp: entry_of_def)
  qed
qed

lemma buckets_upd_other:
  assumes "buckets m len heads B" and "m p = Some h" and "p \<notin> set (concat B)"
  shows "buckets (m(p \<mapsto> h\<lparr>next_hash := q\<rparr>)) len heads B"
proof -
  have id: "ident (m(p \<mapsto> h\<lparr>next_hash := q\<rparr>)) = ident m" by (rule erase_eqD(1)) (rule erase_upd, rule assms(2))
  have "p \<notin> set (B ! i)" if "i < length B" for i using assms(3) that by auto
  then show ?thesis using assms(1) by (simp add: buckets_def id del: fun_upd_apply)
qed

lemma ht_Insert_rep:
  assumes rep: "ht_rep m t S" and r: "\<forall>a\<in>S. readable m a" and p: "p \<notin> S" "p \<noteq> 0" "readable m p"
    and room: "card S + 1 < 2 ^ 31" and id: "ident m p = (hash, key)"
  shows "\<exists>old m' t'. ht_Insert m t p = Some (old, m', t') \<and> entry_of m S hash key old
    \<and> ht_rep m' t' (insert p (S - {old})) \<and> erase m' = erase m \<and> (\<forall>a. a \<notin> insert p S \<longrightarrow> m' a = m a)"
proof -
  obtain B where B: "buckets m (ht_length t) (ht_list t) B" "set (concat B) = S" "ht_elems t = of_nat (card S)"
    "length (concat B) = card S" "inj_on (ident m) S" "card S < 2 ^ 31" "card S \<le> unat (ht_length t)"
    using rep by (rule ht_repE)
  obtain i ys zs old where F: "i = bucket_of (ht_length t) hash" "B ! i = ys @ zs" "i < length B"
      "FindPointer m t key hash = Some (slot_at i ys)" "read_slot m t (slot_at i ys) = Some old" "chain m old zs"
      "old = 0 \<and> zs = [] \<and> (\<forall>a\<in>S. ident m a \<noteq> (hash, key))
       \<or> (\<exists>zs'. zs = old # zs' \<and> old \<noteq> 0 \<and> old \<in> S \<and> ident m old = (hash, key))"
    by (rule FindPointer_buckets [OF B(1,2) r])
  obtain h where h: "m p = Some h" "lh_hash h = hash" "key_data h = key" "lh_key m p = Some key"
    using p(3) id readable_key [OF p(3)] by (auto simp: readable_def ident_def)
  have "0 \<notin> S" "finite S" using ht_rep_nonnull [OF rep] B(2) by blast+
  obtain ws where zs: "zs = (if old = 0 then [] else old # ws)" and ws: "old = 0 \<Longrightarrow> ws = []"
    using F(7) by (metis (no_types))
  define nh where "nh = (if old = 0 then 0 else next_hash (the (m old)))"
  let ?m = "m(p \<mapsto> h\<lparr>next_hash := nh\<rparr>)" and ?B = "B[i := ys @ p # ws]"
  have nh: "chain m nh ws" "(if old = 0 then Some 0 else map_option next_hash (m old)) = Some nh"
    using F(6) zs ws by (auto simp: nh_def split: option.splits if_splits)
  have er: "erase ?m = erase m" by (rule erase_upd) (rule h(1))
  have idm: "ident ?m = ident m" by (rule erase_eqD(1) [OF er])
  have bm: "buckets ?m (ht_length t) (ht_list t) B" using buckets_upd_other [OF B(1) h(1)] p(1) B(2) by blast
  have ms: "mset (concat ?B) = mset (p # (if old = 0 then concat B else remove1 old (concat B)))"
  proof -
    have eq: "mset (concat ?B) + mset (ys @ zs) = mset (concat B) + mset (ys @ p # ws)"
      using concat_update [OF F(3), of "ys @ p # ws"] F(2) by simp
    show ?thesis
    proof (cases "old = 0")
      case True
      then show ?thesis using eq zs ws by simp
    next
      case False
      then have "old \<in># mset (concat B)" using F(7) B(2) by (simp del: set_concat)
      then obtain N where N: "mset (concat B) = add_mset old N" by (metis multi_member_split)
      then have "mset (concat ?B) = add_mset p N" using eq zs False by simp
      then show ?thesis using N False by simp
    qed
  qed
  have d: "distinct (concat ?B)"
    using mset_eq_imp_distinct_iff [OF ms] B(1,2) p(1) by (auto simp: buckets_def simp del: set_concat dest: notin_set_remove1)
  have set: "set (concat ?B) = insert p (S - {old})"
    using mset_eq_setD [OF ms] B(1,2) \<open>0 \<notin> S\<close> by (auto simp: buckets_def simp del: set_concat)
  have pws: "p \<notin> set ws" using F(2,3) B(2) p(1) zs ws nth_mem [OF F(3)] by (auto split: if_splits)
  have ch: "chain ?m p (p # ws)" using nh(1) p(2) pws by (simp add: fun_upd_same del: fun_upd_apply)
  have hs: "\<forall>a\<in>set (p # ws). bucket_of (ht_length t) (fst (ident ?m a)) = i"
    using B(1) F(1,2,3) zs ws id unfolding idm by (auto simp: buckets_def split: if_splits)
  obtain m' t' where w: "write_slot ?m t (slot_at i ys) p = Some (m', t')"
      "buckets m' (ht_length t) (ht_list t') ?B" "erase m' = erase ?m" "ht_elems t' = ht_elems t"
      "ht_length t' = ht_length t" "\<forall>a. a \<notin> set ys \<longrightarrow> m' a = ?m a"
    using write_slot_buckets [OF bm F(3,2) ch d hs] by blast
  have ysS: "set ys \<subseteq> S" using F(2,3) B(2) nth_mem [OF F(3)] by auto
  have "ident m a \<noteq> (hash, key)" if "a \<in> S - {old}" for a
    using F(7) that inj_onD [OF B(5), of a old] by force
  then have inj: "inj_on (ident m) (insert p (S - {old}))"
    using inj_on_subset [OF B(5), of "S - {old}"] id by force
  have ent: "entry_of m S hash key old" using F(7) by (auto simp: entry_of_def)
  have run: "ht_Insert m t p =
     (if old = 0
      then (let t3 = t'\<lparr>ht_elems := ht_elems t' + 1\<rparr>
            in if ht_elems t3 > ht_length t3
               then do {(m4, t4) \<leftarrow> ht_Resize m' t3; Some (old, m4, t4)}
               else Some (old, m', t3))
      else Some (old, m', t'))"
    using h F(4,5) nh(2) w(1) by (simp add: ht_Insert_def del: fun_upd_apply)
  have same: "m' a = m a" if "a \<notin> insert p S" for a using that w(6) ysS by auto
  have er': "erase m' = erase m" using w(3) er by (simp only:)
  have id': "ident m' = ident m" by (rule erase_eqD(1) [OF er'])
  show ?thesis
  proof (cases "old = 0")
    case False
    then have "old \<in> S" using F(7) by blast
    then have "card (insert p (S - {old})) = card S"
      using p(1) \<open>finite S\<close> card_Suc_Diff1 [of S old] by simp
    then have "ht_rep m' t' (insert p (S - {old}))"
      by (intro ht_repI [where B = ?B]) (use w(2,4,5) set B inj id' in \<open>simp_all del: set_concat\<close>)
    then show ?thesis using run False ent er' same by (intro exI [of _ old] exI [of _ m'] exI [of _ t']) simp
  next
    case True
    let ?t = "t'\<lparr>ht_elems := ht_elems t' + 1\<rparr>" and ?S = "insert p (S - {old})"
    have "S - {old} = S" using True \<open>0 \<notin> S\<close> by blast
    then have c: "card ?S = card S + 1" using p(1) \<open>finite S\<close> by simp
    have e: "ht_elems ?t = of_nat (card ?S)" using w(4) B(3) c by simp
    have "card ?S < 2 ^ 32" using c room by simp
    then have eu: "unat (ht_elems ?t) = card ?S" unfolding e by (simp only: unsigned_of_nat) (simp add: take_bit_nat_eq_self)
    show ?thesis
    proof (cases "ht_length ?t < ht_elems ?t")
      case False
      then have "card ?S \<le> unat (ht_length ?t)" using eu by (simp add: word_less_nat_alt)
      then have "ht_rep m' ?t ?S"
        by (intro ht_repI [where B = ?B]) (use w(2,5) set e inj id' c room in \<open>simp_all del: set_concat\<close>)
      then show ?thesis using run True False ent er' same by (intro exI [of _ old] exI [of _ m'] exI [of _ ?t]) simp
    next
      case big: True
      have len: "length (concat ?B) = card ?S" using distinct_card [OF d] set by simp
      have "list_all2 (chain m') (ht_list ?t) ?B" using w(2) by (simp add: buckets_def list_all2_conv_all_nth)
      then obtain m'' t'' C where R: "ht_Resize m' ?t = Some (m'', t'')" "buckets m'' (ht_length t'') (ht_list t'') C"
          "set (concat C) = set (concat ?B)" "erase m'' = erase m'" "ht_elems t'' = ht_elems ?t"
          "length (concat ?B) \<le> unat (ht_length t'')" "\<forall>a. a \<notin> set (concat ?B) \<longrightarrow> m'' a = m' a"
        using ht_Resize_buckets [of m' ?t ?B] d e len c room by auto
      have "ident m'' = ident m" using erase_eqD(1) [OF R(4)] id' by (simp only:)
      then have "ht_rep m'' t'' ?S"
        by (intro ht_repI [where B = C]) (use R(2,3,5,6) set e inj c room len in \<open>simp_all del: set_concat\<close>)
      moreover have "\<forall>a. a \<notin> insert p S \<longrightarrow> m'' a = m a" using R(7) same set by auto
      moreover have "ht_Insert m t p = Some (old, m'', t'')" using run True big R(1) by simp
      ultimately show ?thesis using ent er' R(4) by metis
    qed
  qed
qed

lemma new_HandleTable_rep: "\<exists>t. new_HandleTable = Some t \<and> ht_rep m t {}"
proof -
  let ?t = "\<lparr>ht_length = 0, ht_elems = 0, ht_list = []\<rparr> :: HandleTable"
  obtain m' t' C where R: "ht_Resize Map.empty ?t = Some (m', t')" "buckets m' (ht_length t') (ht_list t') C"
      "set (concat C) = set (concat [])" "ht_elems t' = ht_elems ?t"
    using ht_Resize_buckets [of Map.empty ?t "[]"] by auto
  have "chain m (ht_list t' ! i) (C ! i)" if "i < length C" for i
  proof -
    have "C ! i = []" using R(3) nth_mem [OF that] by (cases "C ! i") auto
    then show ?thesis using buckets_chain [OF R(2) that] by simp
  qed
  moreover have "C ! i = []" if "i < length C" for i using R(3) nth_mem [OF that] by (cases "C ! i") auto
  ultimately have "buckets m (ht_length t') (ht_list t') C" using R(2) by (simp add: buckets_def)
  then have "ht_rep m t' {}" using R(3,4) by (intro ht_repI [where B = C]) auto
  then show ?thesis using R(1) by (simp add: new_HandleTable_def)
qed

end
