(* ===== verification/LruCache.thy ===== *)
theory LruCache
  imports HandleTable
begin

text \<open>
  A shard of the cache (class \<open>LRUCache\<close> of \<open>util/cache.cc\<close>) with its two circular lists of entries. The list heads \<open>lru_\<close> and \<open>in_use_\<close> are cells of the shard's heap. The
  address \<open>malloc\<close> returns is an argument of \<open>Insert\<close>; calls of deleters are recorded in order.
\<close>

section \<open>A shard\<close>

definition lru_head :: ptr where "lru_head = 1"
definition in_use_head :: ptr where "in_use_head = 2"

text \<open>The fields of a list head other than its links are never read.\<close>

definition head_handle :: "ptr \<Rightarrow> LRUHandle" where
  "head_handle a = \<lparr>lh_value = 0, lh_deleter = 0, next_hash = 0, lh_next = a, lh_prev = a, charge = 0,
     in_cache = False, refs = 0, lh_hash = 0, key_data = []\<rparr>"

record LRUCache =
  capacity :: u64
  usage :: u64
  mem :: heap
  handles :: HandleTable
  deleted :: "(ptr \<times> bytes \<times> ptr) list"

definition new_LRUCache :: "LRUCache option" where
  "new_LRUCache =
     do {t \<leftarrow> new_HandleTable;
         Some \<lparr>capacity = 0, usage = 0,
               mem = [lru_head \<mapsto> head_handle lru_head, in_use_head \<mapsto> head_handle in_use_head],
               handles = t, deleted = []\<rparr>}"

definition SetCapacity :: "LRUCache \<Rightarrow> u64 \<Rightarrow> LRUCache" where
  "SetCapacity c cap = c\<lparr>capacity := cap\<rparr>"

definition LRU_Remove :: "heap \<Rightarrow> ptr \<Rightarrow> heap option" where
  "LRU_Remove m e =
     do {h \<leftarrow> m e;
         n \<leftarrow> m (lh_next h);
         let m1 = m(lh_next h \<mapsto> n\<lparr>lh_prev := lh_prev h\<rparr>);
         h1 \<leftarrow> m1 e;
         p \<leftarrow> m1 (lh_prev h1);
         Some (m1(lh_prev h1 \<mapsto> p\<lparr>lh_next := lh_next h1\<rparr>))}"

definition LRU_Append :: "heap \<Rightarrow> ptr \<Rightarrow> ptr \<Rightarrow> heap option" where
  "LRU_Append m list e =
     do {h \<leftarrow> m e;
         let m1 = m(e \<mapsto> h\<lparr>lh_next := list\<rparr>);
         l \<leftarrow> m1 list;
         h1 \<leftarrow> m1 e;
         let m2 = m1(e \<mapsto> h1\<lparr>lh_prev := lh_prev l\<rparr>);
         h2 \<leftarrow> m2 e;
         p \<leftarrow> m2 (lh_prev h2);
         let m3 = m2(lh_prev h2 \<mapsto> p\<lparr>lh_next := e\<rparr>);
         h3 \<leftarrow> m3 e;
         n \<leftarrow> m3 (lh_next h3);
         Some (m3(lh_next h3 \<mapsto> n\<lparr>lh_prev := e\<rparr>))}"

definition LRU_Ref :: "LRUCache \<Rightarrow> ptr \<Rightarrow> LRUCache option" where
  "LRU_Ref c e =
     do {h \<leftarrow> mem c e;
         m \<leftarrow> (if refs h = 1 \<and> in_cache h
               then do {m1 \<leftarrow> LRU_Remove (mem c) e; LRU_Append m1 in_use_head e}
               else Some (mem c));
         h1 \<leftarrow> m e;
         Some (c\<lparr>mem := m(e \<mapsto> h1\<lparr>refs := refs h1 + 1\<rparr>)\<rparr>)}"

definition LRU_Unref :: "LRUCache \<Rightarrow> ptr \<Rightarrow> LRUCache option" where
  "LRU_Unref c e =
     do {h \<leftarrow> mem c e;
         if refs h = 0 then None
         else
           let h1 = h\<lparr>refs := refs h - 1\<rparr>; m1 = (mem c)(e \<mapsto> h1)
           in if refs h1 = 0 then
                if in_cache h1 then None
                else do {
                  k \<leftarrow> lh_key m1 e;
                  Some (c\<lparr>mem := m1(e := None), deleted := deleted c @ [(lh_deleter h1, k, lh_value h1)]\<rparr>)}
              else if in_cache h1 \<and> refs h1 = 1 then
                do {m2 \<leftarrow> LRU_Remove m1 e;
                    m3 \<leftarrow> LRU_Append m2 lru_head e;
                    Some (c\<lparr>mem := m3\<rparr>)}
              else Some (c\<lparr>mem := m1\<rparr>)}"

definition LRU_Lookup :: "LRUCache \<Rightarrow> bytes \<Rightarrow> u32 \<Rightarrow> (ptr \<times> LRUCache) option" where
  "LRU_Lookup c key hash =
     do {e \<leftarrow> ht_Lookup (mem c) (handles c) key hash;
         if e \<noteq> 0 then do {c1 \<leftarrow> LRU_Ref c e; Some (e, c1)} else Some (e, c)}"

definition LRU_Release :: "LRUCache \<Rightarrow> ptr \<Rightarrow> LRUCache option" where
  "LRU_Release c handle = LRU_Unref c handle"

definition FinishErase :: "LRUCache \<Rightarrow> ptr \<Rightarrow> (bool \<times> LRUCache) option" where
  "FinishErase c e =
     (if e \<noteq> 0 then
        do {h \<leftarrow> mem c e;
            if \<not> in_cache h then None
            else do {
              m1 \<leftarrow> LRU_Remove (mem c) e;
              h1 \<leftarrow> m1 e;
              let c1 = c\<lparr>mem := m1(e \<mapsto> h1\<lparr>in_cache := False\<rparr>), usage := usage c - charge h1\<rparr>;
              c2 \<leftarrow> LRU_Unref c1 e;
              Some (True, c2)}}
      else Some (False, c))"

definition erase_entry :: "LRUCache \<Rightarrow> bytes \<Rightarrow> u32 \<Rightarrow> (bool \<times> LRUCache) option" where
  "erase_entry c key hash =
     do {(e, m, t) \<leftarrow> ht_Remove (mem c) (handles c) key hash;
         FinishErase (c\<lparr>mem := m, handles := t\<rparr>) e}"

text \<open>One round of the loops of \<open>Insert\<close> and \<open>Prune\<close>: the oldest entry of the list is erased.\<close>

definition evict_oldest :: "LRUCache \<Rightarrow> ptr \<Rightarrow> LRUCache option" where
  "evict_oldest c old =
     do {h \<leftarrow> mem c old;
         if refs h \<noteq> 1 then None
         else do {
           k \<leftarrow> lh_key (mem c) old;
           (erased, c1) \<leftarrow> erase_entry c k (lh_hash h);
           if \<not> erased then None else Some c1}}"

partial_function (option) Insert_evict :: "LRUCache \<Rightarrow> LRUCache option" where
  "Insert_evict c =
     do {l \<leftarrow> mem c lru_head;
         if usage c > capacity c \<and> lh_next l \<noteq> lru_head
         then do {c1 \<leftarrow> evict_oldest c (lh_next l); Insert_evict c1}
         else Some c}"

text \<open>The links of a new entry are uninitialised; they are written before they are read.\<close>

definition LRU_Insert ::
  "LRUCache \<Rightarrow> ptr \<Rightarrow> bytes \<Rightarrow> u32 \<Rightarrow> ptr \<Rightarrow> u64 \<Rightarrow> ptr \<Rightarrow> (ptr \<times> LRUCache) option" where
  "LRU_Insert c e key hash v chg del =
     (let h = \<lparr>lh_value = v, lh_deleter = del, next_hash = 0, lh_next = 0, lh_prev = 0, charge = chg,
               in_cache = False, refs = 1, lh_hash = hash, key_data = key\<rparr>
      in do {
        c1 \<leftarrow> (if capacity c > 0
               then do {
                 m1 \<leftarrow> LRU_Append ((mem c)(e \<mapsto> h\<lparr>refs := refs h + 1, in_cache := True\<rparr>)) in_use_head e;
                 (old, m2, t) \<leftarrow> ht_Insert m1 (handles c) e;
                 (erased, c1) \<leftarrow> FinishErase (c\<lparr>mem := m2, handles := t, usage := usage c + chg\<rparr>) old;
                 Some c1}
               else Some (c\<lparr>mem := (mem c)(e \<mapsto> h\<lparr>lh_next := 0\<rparr>)\<rparr>));
        c2 \<leftarrow> Insert_evict c1;
        Some (e, c2)})"

definition LRU_Erase :: "LRUCache \<Rightarrow> bytes \<Rightarrow> u32 \<Rightarrow> LRUCache option" where
  "LRU_Erase c key hash = do {(erased, c1) \<leftarrow> erase_entry c key hash; Some c1}"

partial_function (option) LRU_Prune :: "LRUCache \<Rightarrow> LRUCache option" where
  "LRU_Prune c =
     do {l \<leftarrow> mem c lru_head;
         if lh_next l \<noteq> lru_head
         then do {c1 \<leftarrow> evict_oldest c (lh_next l); LRU_Prune c1}
         else Some c}"

definition LRU_TotalCharge :: "LRUCache \<Rightarrow> u64" where
  "LRU_TotalCharge c = usage c"

text \<open>The destructor fails its assertion when a handle is still in use.\<close>

partial_function (option) destroy_loop :: "LRUCache \<Rightarrow> ptr \<Rightarrow> LRUCache option" where
  "destroy_loop c e =
     (if e \<noteq> lru_head
      then do {
        h \<leftarrow> mem c e;
        if \<not> in_cache h \<or> refs h \<noteq> 1 then None
        else do {
          c1 \<leftarrow> LRU_Unref (c\<lparr>mem := (mem c)(e \<mapsto> h\<lparr>in_cache := False\<rparr>)\<rparr>) e;
          destroy_loop c1 (lh_next h)}}
      else Some c)"

definition destroy_LRUCache :: "LRUCache \<Rightarrow> LRUCache option" where
  "destroy_LRUCache c =
     do {u \<leftarrow> mem c in_use_head;
         if lh_next u \<noteq> in_use_head then None
         else do {l \<leftarrow> mem c lru_head; destroy_loop c (lh_next l)}}"

section \<open>Circular lists\<close>

definition link :: "heap \<Rightarrow> ptr \<Rightarrow> ptr \<Rightarrow> bool" where
  "link m a b \<longleftrightarrow> m a \<noteq> None \<and> m b \<noteq> None \<and> lh_next (the (m a)) = b \<and> lh_prev (the (m b)) = a"

definition ring :: "heap \<Rightarrow> ptr \<Rightarrow> ptr list \<Rightarrow> bool" where
  "ring m h xs \<longleftrightarrow> successively (link m) (h # xs @ [h]) \<and> distinct (h # xs)"

definition links :: "heap \<Rightarrow> ptr \<Rightarrow> (ptr \<times> ptr) option" where
  "links m a = map_option (\<lambda>h. (lh_next h, lh_prev h)) (m a)"

text \<open>The heap but for the links of the lists.\<close>

definition unlink :: "heap \<Rightarrow> heap" where
  "unlink m a = map_option (\<lambda>h. h\<lparr>lh_next := 0, lh_prev := 0\<rparr>) (m a)"

definition rings :: "heap \<Rightarrow> ptr list \<Rightarrow> ptr list \<Rightarrow> bool" where
  "rings m U L \<longleftrightarrow>
     ring m in_use_head U \<and> ring m lru_head L \<and> distinct (in_use_head # lru_head # U @ L)"

section \<open>The state of a shard\<close>

text \<open>
  \<open>U\<close> and \<open>L\<close> are the entries of the two lists in order, \<open>T\<close> the entries of the table and \<open>cl\<close> the number
  of references clients hold on an entry. An entry is in the cache when it is in a list: in \<open>in_use_\<close> when
  a client holds it, else in \<open>lru_\<close>; an entry that is not in the cache is held by a client.
\<close>

definition cell_ok :: "ptr \<Rightarrow> LRUHandle \<Rightarrow> ptr list \<Rightarrow> ptr list \<Rightarrow> nat \<Rightarrow> bool" where
  "cell_ok a h U L n \<longleftrightarrow>
     lh_next h \<noteq> a \<and> refs h = of_nat (n + of_bool (in_cache h)) \<and> n + of_bool (in_cache h) < 2 ^ 32
     \<and> (in_cache h \<longleftrightarrow> a \<in> set U \<union> set L) \<and> (a \<in> set U \<longrightarrow> 0 < n) \<and> (a \<in> set L \<longrightarrow> n = 0)
     \<and> (\<not> in_cache h \<longrightarrow> 0 < n)"

definition charge_of :: "heap \<Rightarrow> ptr \<Rightarrow> u64" where
  "charge_of m a = charge (the (m a))"

definition entries :: "LRUCache \<Rightarrow> ptr set" where
  "entries c = dom (mem c) - {lru_head, in_use_head}"

definition cache_rep ::
  "LRUCache \<Rightarrow> ptr list \<Rightarrow> ptr list \<Rightarrow> ptr set \<Rightarrow> (ptr \<Rightarrow> nat) \<Rightarrow> bool" where
  "cache_rep c U L T cl \<longleftrightarrow>
     rings (mem c) U L \<and> ht_rep (mem c) (handles c) T \<and> T \<subseteq> set U \<union> set L
     \<and> (\<forall>a\<in>entries c. cell_ok a (the (mem c a)) U L (cl a)) \<and> (\<forall>a. a \<notin> entries c \<longrightarrow> cl a = 0)
     \<and> 0 \<notin> dom (mem c) \<and> finite (dom (mem c)) \<and> usage c = (\<Sum>a\<leftarrow>U @ L. charge_of (mem c) a)"

abbreviation cache_ok :: "LRUCache \<Rightarrow> ptr list \<Rightarrow> ptr list \<Rightarrow> (ptr \<Rightarrow> nat) \<Rightarrow> bool" where
  "cache_ok c U L cl \<equiv> cache_rep c U L (set U \<union> set L) cl"

text \<open>What never changes of an entry: its value, deleter, key, hash and charge.\<close>

definition fixed :: "LRUHandle \<Rightarrow> ptr \<times> ptr \<times> bytes \<times> u32 \<times> u64" where
  "fixed h = (lh_value h, lh_deleter h, key_data h, lh_hash h, charge h)"

definition fixed_at :: "LRUCache \<Rightarrow> ptr \<Rightarrow> ptr \<times> ptr \<times> bytes \<times> u32 \<times> u64" where
  "fixed_at c a = fixed (the (mem c a))"

definition info :: "LRUHandle \<Rightarrow> ptr \<times> bytes \<times> ptr" where
  "info h = (lh_deleter h, key_data h, lh_value h)"

text \<open>The entries passed to their deleter and those that still exist.\<close>

definition ledger :: "LRUCache \<Rightarrow> (ptr \<times> bytes \<times> ptr) multiset" where
  "ledger c = mset (deleted c) + image_mset (\<lambda>a. info (the (mem c a))) (mset_set (entries c))"

text \<open>One shard is another with fewer entries, each unchanged but for its references and links.\<close>

definition keeps :: "LRUCache \<Rightarrow> LRUCache \<Rightarrow> bool" where
  "keeps c c' \<longleftrightarrow> entries c' \<subseteq> entries c \<and> (\<forall>a\<in>entries c'. fixed_at c' a = fixed_at c a)
     \<and> capacity c' = capacity c \<and> ledger c' = ledger c"

definition adds :: "LRUCache \<Rightarrow> LRUCache \<Rightarrow> ptr \<Rightarrow> LRUHandle \<Rightarrow> bool" where
  "adds c c' e h \<longleftrightarrow> entries c' \<subseteq> insert e (entries c) \<and> (\<forall>a\<in>entries c'. fixed_at c' a = (if a = e then fixed h else fixed_at c a))
     \<and> capacity c' = capacity c \<and> ledger c' = add_mset (info h) (ledger c)"

text \<open>The entries of the list that stay when the oldest are evicted while the usage is over the capacity.\<close>

fun evict :: "u64 \<Rightarrow> (ptr \<Rightarrow> u64) \<Rightarrow> u64 \<Rightarrow> ptr list \<Rightarrow> ptr list" where
  "evict cap chg us [] = []"
| "evict cap chg us (a # L) = (if us > cap then evict cap chg (us - chg a) L else a # L)"

lemma unlink_upd [simp]:
  "m a = Some h \<Longrightarrow> unlink (m(a \<mapsto> h\<lparr>lh_next := x\<rparr>)) = unlink m"
  "m a = Some h \<Longrightarrow> unlink (m(a \<mapsto> h\<lparr>lh_prev := x\<rparr>)) = unlink m"
  by (auto simp: unlink_def fun_eq_iff)

lemma LRU_Remove_links:
  assumes "link m p e" and "link m e n" and "e \<noteq> p" and "e \<noteq> n"
  shows "\<exists>m'. LRU_Remove m e = Some m' \<and> link m' p n \<and> (\<forall>a b. link m a b \<and> a \<noteq> p \<and> b \<noteq> n \<longrightarrow> link m' a b)
    \<and> unlink m' = unlink m \<and> (\<forall>a. a \<noteq> p \<and> a \<noteq> n \<longrightarrow> m' a = m a)"
proof -
  obtain he hp hn where "m e = Some he" "m p = Some hp" "m n = Some hn" using assms(1,2) by (auto simp: link_def)
  with assms(1,2) have h: "m e = Some he" "m p = Some hp" "m n = Some hn" "lh_next he = n" "lh_prev he = p"
    by (simp_all add: link_def)
  let ?m1 = "m(n \<mapsto> hn\<lparr>lh_prev := p\<rparr>)"
  define hp1 where "hp1 = (if p = n then hn\<lparr>lh_prev := p\<rparr> else hp)"
  have hp1: "?m1 p = Some hp1" "lh_prev hp1 = (if p = n then p else lh_prev hp)" "lh_next hp1 = lh_next hp"
    using h by (auto simp: hp1_def)
  let ?m2 = "?m1(p \<mapsto> hp1\<lparr>lh_next := n\<rparr>)"
  have "LRU_Remove m e = Some ?m2" using h hp1(1) assms(3,4) by (auto simp: LRU_Remove_def Let_def split: if_splits)
  moreover have "unlink ?m2 = unlink m"
  proof -
    have "unlink ?m2 = unlink ?m1" by (rule unlink_upd(1)) (rule hp1(1))
    also have "\<dots> = unlink m" by (rule unlink_upd(2)) (rule h(3))
    finally show ?thesis .
  qed
  moreover have "link ?m2 p n" using h hp1 by (auto simp: link_def)
  moreover have "link ?m2 a b" if "link m a b" "a \<noteq> p" "b \<noteq> n" for a b
    using that h hp1 by (auto simp: link_def)
  moreover have "\<forall>a. a \<noteq> p \<and> a \<noteq> n \<longrightarrow> ?m2 a = m a" by simp
  ultimately show ?thesis by blast
qed

lemma LRU_Append_links:
  assumes "link m p l" and "m e = Some he" and "e \<noteq> l" and "e \<noteq> p"
  shows "\<exists>m'. LRU_Append m l e = Some m' \<and> link m' p e \<and> link m' e l
    \<and> (\<forall>a b. link m a b \<and> a \<noteq> p \<and> a \<noteq> e \<and> b \<noteq> l \<and> b \<noteq> e \<longrightarrow> link m' a b)
    \<and> unlink m' = unlink m \<and> (\<forall>a. a \<noteq> p \<and> a \<noteq> e \<and> a \<noteq> l \<longrightarrow> m' a = m a)"
proof -
  obtain hp hl where "m p = Some hp" "m l = Some hl" using assms(1) by (auto simp: link_def)
  with assms(1) have h: "m p = Some hp" "m l = Some hl" "lh_next hp = l" "lh_prev hl = p"
    by (simp_all add: link_def)
  let ?m1 = "m(e \<mapsto> he\<lparr>lh_next := l\<rparr>)"
  let ?m2 = "?m1(e \<mapsto> he\<lparr>lh_next := l, lh_prev := p\<rparr>)"
  let ?m3 = "?m2(p \<mapsto> hp\<lparr>lh_next := e\<rparr>)"
  define hn where "hn = (if p = l then hp\<lparr>lh_next := e\<rparr> else hl)"
  have hn: "?m3 l = Some hn" "lh_next hn = (if p = l then e else lh_next hl)"
    using h assms(3) by (simp_all add: hn_def)
  let ?m4 = "?m3(l \<mapsto> hn\<lparr>lh_prev := e\<rparr>)"
  have "LRU_Append m l e = Some ?m4" using h hn(1) assms by (auto simp: LRU_Append_def Let_def split: if_splits)
  moreover have "unlink ?m4 = unlink m"
  proof -
    have "unlink ?m4 = unlink ?m3" by (rule unlink_upd(2)) (rule hn(1))
    also have "\<dots> = unlink ?m2" by (rule unlink_upd(1)) (use h assms(4) in simp)
    also have "\<dots> = unlink ?m1" by (rule unlink_upd(2)) simp
    also have "\<dots> = unlink m" by (rule unlink_upd(1)) (rule assms(2))
    finally show ?thesis .
  qed
  moreover have "link ?m4 p e" "link ?m4 e l" using h hn assms by (auto simp: link_def)
  moreover have "link ?m4 a b" if ab: "link m a b" "a \<noteq> p" "a \<noteq> e" "b \<noteq> l" "b \<noteq> e" for a b
  proof -
    have "lh_next (the (?m4 a)) = lh_next (the (m a))" using ab(2,3) h hn(2) by (cases "a = l") simp_all
    moreover have "lh_prev (the (?m4 b)) = lh_prev (the (m b))" using ab(4,5) h by (cases "b = p") simp_all
    moreover have "?m4 x \<noteq> None" if "m x \<noteq> None" for x using that by simp
    ultimately show ?thesis using ab(1) unfolding link_def by metis
  qed
  moreover have "\<forall>a. a \<noteq> p \<and> a \<noteq> e \<and> a \<noteq> l \<longrightarrow> ?m4 a = m a" by simp
  ultimately show ?thesis by blast
qed

lemma successively_weaken:
  "successively P xs \<Longrightarrow> (\<And>a b. a \<in> set (butlast xs) \<Longrightarrow> b \<in> set (tl xs) \<Longrightarrow> P a b \<Longrightarrow> Q a b) \<Longrightarrow> successively Q xs"
proof (induction xs rule: induct_list012)
  case (3 x y zs)
  have "Q x y" using 3(3) by (intro 3(4)) auto
  moreover have "successively Q (y # zs)" using 3(3) by (intro 3(2)) (auto intro: 3(4))
  ultimately show ?case by simp
qed simp_all

lemma ring_cong:
  assumes "ring m h xs" and "\<And>a. a \<in> set (h # xs) \<Longrightarrow> links m' a = links m a"
  shows "ring m' h xs"
proof -
  have "successively (link m') (h # xs @ [h])"
  proof (rule successively_weaken)
    show "successively (link m) (h # xs @ [h])" using assms(1) by (simp add: ring_def)
    fix a b assume ab: "a \<in> set (butlast (h # xs @ [h]))" "b \<in> set (tl (h # xs @ [h]))" "link m a b"
    then have "links m' a = links m a" "links m' b = links m b"
      using assms(2) [of a] assms(2) [of b] by (simp_all add: butlast_append)
    then show "link m' a b" using ab(3) by (auto simp: link_def links_def)
  qed
  then show ?thesis using assms(1) by (simp add: ring_def)
qed

lemma ring_around:
  assumes "ring m h (ys @ e # zs)"
  shows "link m (last (h # ys)) e" and "link m e (hd (zs @ [h]))" and "successively (link m) (h # ys)"
    and "successively (link m) (zs @ [h])" and "distinct (h # ys @ e # zs)"
proof -
  have "successively (link m) ((h # ys) @ (e # zs @ [h]))" using assms by (simp add: ring_def)
  then show "link m (last (h # ys)) e" and "link m e (hd (zs @ [h]))" and "successively (link m) (h # ys)"
    and "successively (link m) (zs @ [h])"
    by (simp_all only: successively_append_iff successively_Cons list.sel) (auto simp: successively_Cons)
  show "distinct (h # ys @ e # zs)" using assms by (simp add: ring_def)
qed

lemma butlast_last_notin: "distinct xs \<Longrightarrow> last xs \<notin> set (butlast xs)"
  by (induction xs) (auto dest: in_set_butlastD)

lemma LRU_Remove_ring:
  assumes "ring m h (ys @ e # zs)"
  shows "\<exists>m'. LRU_Remove m e = Some m' \<and> ring m' h (ys @ zs) \<and> unlink m' = unlink m
    \<and> (\<forall>a. a \<notin> insert h (set ys \<union> set zs) \<longrightarrow> m' a = m a)"
proof -
  let ?p = "last (h # ys)" and ?n = "hd (zs @ [h])"
  note R = ring_around [OF assms]
  have p: "?p \<in> set (h # ys)" by (rule last_in_set) simp
  have n: "?n \<in> insert h (set zs)" by (cases zs) auto
  have en: "e \<noteq> ?p" "e \<noteq> ?n" using p n R(5) by auto
  obtain m' where m': "LRU_Remove m e = Some m'" "link m' ?p ?n"
      "\<forall>a b. link m a b \<and> a \<noteq> ?p \<and> b \<noteq> ?n \<longrightarrow> link m' a b" "unlink m' = unlink m"
      "\<forall>a. a \<noteq> ?p \<and> a \<noteq> ?n \<longrightarrow> m' a = m a"
    using LRU_Remove_links [OF R(1,2) en] by blast
  have pre: "successively (link m') (h # ys)"
  proof (rule successively_weaken [OF R(3)])
    fix a b assume ab: "a \<in> set (butlast (h # ys))" "b \<in> set (tl (h # ys))" "link m a b"
    have "a \<noteq> ?p" using butlast_last_notin [of "h # ys"] R(5) ab(1) by auto
    moreover have "b \<noteq> ?n" using n ab(2) R(5) by auto
    ultimately show "link m' a b" using m'(3) ab(3) by blast
  qed
  have post: "successively (link m') (zs @ [h])"
  proof (rule successively_weaken [OF R(4)])
    fix a b assume ab: "a \<in> set (butlast (zs @ [h]))" "b \<in> set (tl (zs @ [h]))" "link m a b"
    have "a \<in> set zs" using ab(1) by simp
    then have "a \<noteq> ?p" using p R(5) by auto
    moreover have "b \<noteq> ?n" using ab(2) R(5) by (cases zs) auto
    ultimately show "link m' a b" using m'(3) ab(3) by blast
  qed
  have "successively (link m') ((h # ys) @ zs @ [h])"
    using pre post m'(2) by (simp only: successively_append_iff [of _ "h # ys"]) simp
  then have "ring m' h (ys @ zs)" using R(5) by (simp add: ring_def)
  moreover have "m' a = m a" if "a \<notin> insert h (set ys \<union> set zs)" for a
  proof -
    have "a \<notin> set (h # ys)" "a \<notin> insert h (set zs)" using that by auto
    then have "a \<noteq> ?p" "a \<noteq> ?n" using p n by metis+
    then show ?thesis using m'(5) by blast
  qed
  ultimately show ?thesis using m'(1,4) by blast
qed

lemma LRU_Append_ring:
  assumes "ring m h xs" and "m e = Some he" and "e \<notin> set (h # xs)"
  shows "\<exists>m'. LRU_Append m h e = Some m' \<and> ring m' h (xs @ [e]) \<and> unlink m' = unlink m
    \<and> (\<forall>a. a \<notin> set (e # h # xs) \<longrightarrow> m' a = m a)"
proof -
  let ?p = "last (h # xs)"
  have "successively (link m) ((h # xs) @ [h])" using assms(1) by (simp add: ring_def)
  then have R: "link m ?p h" "successively (link m) (h # xs)" "distinct (h # xs)"
    using assms(1) by (simp_all only: successively_append_iff ring_def) simp_all
  have p: "?p \<in> set (h # xs)" by (rule last_in_set) simp
  obtain m' where m': "LRU_Append m h e = Some m'" "link m' ?p e" "link m' e h"
      "\<forall>a b. link m a b \<and> a \<noteq> ?p \<and> a \<noteq> e \<and> b \<noteq> h \<and> b \<noteq> e \<longrightarrow> link m' a b" "unlink m' = unlink m"
      "\<forall>a. a \<noteq> ?p \<and> a \<noteq> e \<and> a \<noteq> h \<longrightarrow> m' a = m a"
    using LRU_Append_links [OF R(1) assms(2)] assms(3) p by (metis list.set_intros(1))
  have pre: "successively (link m') (h # xs)"
  proof (rule successively_weaken [OF R(2)])
    fix a b assume ab: "a \<in> set (butlast (h # xs))" "b \<in> set (tl (h # xs))" "link m a b"
    have "a \<noteq> ?p" using butlast_last_notin [OF R(3)] ab(1) by auto
    moreover have "a \<in> set (h # xs)" using ab(1) by (rule in_set_butlastD)
    moreover have "b \<noteq> h" "b \<in> set (h # xs)" using ab(2) R(3) by auto
    ultimately show "link m' a b" using m'(4) ab(3) assms(3) by metis
  qed
  have "successively (link m') ((h # xs) @ [e, h])"
    using pre m'(2,3) by (simp only: successively_append_iff [of _ "h # xs"]) simp
  then have "ring m' h (xs @ [e])" using R(3) assms(3) by (simp add: ring_def)
  moreover have "m' a = m a" if "a \<notin> set (e # h # xs)" for a
  proof -
    have "a \<notin> set (h # xs)" using that by auto
    then have "a \<noteq> ?p" using p by metis
    then show ?thesis using m'(6) that by auto
  qed
  ultimately show ?thesis using m'(1,5) by blast
qed

lemma ring_head: "ring m h xs \<Longrightarrow> \<exists>hh. m h = Some hh \<and> lh_next hh = hd (xs @ [h])"
  by (cases xs) (auto simp: ring_def link_def)

lemma ring_readable: "ring m h xs \<Longrightarrow> a \<in> set xs \<Longrightarrow> readable m a"
proof -
  assume r: "ring m h xs" and "a \<in> set xs"
  then obtain ys zs where xs: "xs = ys @ a # zs" by (meson split_list)
  note R = ring_around [OF r [unfolded xs]]
  have "hd (zs @ [h]) \<noteq> a" using R(5) by (cases zs) auto
  then show ?thesis using R(2) by (auto simp: link_def readable_def)
qed

lemma unlink_eqD:
  assumes "unlink m = unlink m'" and "m a = Some h"
  shows "\<exists>x y. m' a = Some (h\<lparr>lh_next := x, lh_prev := y\<rparr>)"
proof -
  have "map_option (\<lambda>h. h\<lparr>lh_next := 0, lh_prev := 0\<rparr>) (m' a) = Some (h\<lparr>lh_next := 0, lh_prev := 0\<rparr>)"
    using assms(2) fun_cong [OF assms(1), of a] by (simp add: unlink_def)
  then obtain h' where h': "m' a = Some h'" "h'\<lparr>lh_next := 0, lh_prev := 0\<rparr> = h\<lparr>lh_next := 0, lh_prev := 0\<rparr>" by auto
  then have "h' = h\<lparr>lh_next := lh_next h', lh_prev := lh_prev h'\<rparr>" by (cases h; cases h') simp
  then show ?thesis using h'(1) by metis
qed

lemma unlink_dom: "unlink m = unlink m' \<Longrightarrow> dom m = dom m'"
  by (metis (no_types, lifting) domIff map_option_is_None subsetI subset_antisym unlink_def)

lemma rings_remove:
  assumes "rings m U L" and "e \<in> set U \<union> set L"
  shows "\<exists>m'. LRU_Remove m e = Some m' \<and> rings m' (remove1 e U) (remove1 e L) \<and> unlink m' = unlink m \<and> m' e = m e
    \<and> (\<forall>a. a \<notin> {in_use_head, lru_head} \<union> set U \<union> set L \<longrightarrow> m' a = m a)"
proof (cases "e \<in> set U")
  case True
  then obtain ys zs where U: "U = ys @ e # zs" by (meson split_list)
  have d: "distinct (in_use_head # lru_head # U @ L)" and R: "ring m in_use_head (ys @ e # zs)" "ring m lru_head L"
    using assms(1) U by (auto simp: rings_def)
  obtain m' where m': "LRU_Remove m e = Some m'" "ring m' in_use_head (ys @ zs)" "unlink m' = unlink m"
      "\<forall>a. a \<notin> insert in_use_head (set ys \<union> set zs) \<longrightarrow> m' a = m a"
    using LRU_Remove_ring [OF R(1)] by blast
  have "a \<notin> insert in_use_head (set ys \<union> set zs)" if "a \<in> set (lru_head # L)" for a using that d U by auto
  then have "ring m' lru_head L" using m'(4) by (intro ring_cong [OF R(2)]) (simp add: links_def)
  moreover have "remove1 e U = ys @ zs" "remove1 e L = L" using d U by (simp_all add: remove1_append remove1_idem)
  ultimately have "rings m' (remove1 e U) (remove1 e L)" using m'(2) d U by (auto simp: rings_def)
  moreover have "m' e = m e" using m'(4) d U by auto
  ultimately show ?thesis using m'(1,3,4) U by auto
next
  case False
  then obtain ys zs where L: "L = ys @ e # zs" using assms(2) by (meson UnE split_list)
  have d: "distinct (in_use_head # lru_head # U @ L)" and R: "ring m lru_head (ys @ e # zs)" "ring m in_use_head U"
    using assms(1) L by (auto simp: rings_def)
  obtain m' where m': "LRU_Remove m e = Some m'" "ring m' lru_head (ys @ zs)" "unlink m' = unlink m"
      "\<forall>a. a \<notin> insert lru_head (set ys \<union> set zs) \<longrightarrow> m' a = m a"
    using LRU_Remove_ring [OF R(1)] by blast
  have "a \<notin> insert lru_head (set ys \<union> set zs)" if "a \<in> set (in_use_head # U)" for a using that d L by auto
  then have "ring m' in_use_head U" using m'(4) by (intro ring_cong [OF R(2)]) (simp add: links_def)
  moreover have "remove1 e L = ys @ zs" "remove1 e U = U" using d L by (simp_all add: remove1_append remove1_idem)
  ultimately have "rings m' (remove1 e U) (remove1 e L)" using m'(2) d L by (auto simp: rings_def)
  moreover have "m' e = m e" using m'(4) d L by auto
  ultimately show ?thesis using m'(1,3,4) L by auto
qed

lemma rings_append:
  assumes "rings m U L" and "m e = Some h" and "e \<notin> {in_use_head, lru_head} \<union> set U \<union> set L"
  shows "\<exists>m'. LRU_Append m in_use_head e = Some m' \<and> rings m' (U @ [e]) L \<and> unlink m' = unlink m
      \<and> (\<forall>a. a \<notin> {e, in_use_head} \<union> set U \<longrightarrow> m' a = m a)"
    and "\<exists>m'. LRU_Append m lru_head e = Some m' \<and> rings m' U (L @ [e]) \<and> unlink m' = unlink m
      \<and> (\<forall>a. a \<notin> {e, lru_head} \<union> set L \<longrightarrow> m' a = m a)"
proof -
  have d: "distinct (in_use_head # lru_head # U @ L)" and R: "ring m in_use_head U" "ring m lru_head L"
    using assms(1) by (auto simp: rings_def)
  have eU: "e \<notin> set (in_use_head # U)" and eL: "e \<notin> set (lru_head # L)" using assms(3) by auto
  obtain m' where m': "LRU_Append m in_use_head e = Some m'" "ring m' in_use_head (U @ [e])" "unlink m' = unlink m"
      "\<forall>a. a \<notin> set (e # in_use_head # U) \<longrightarrow> m' a = m a"
    using LRU_Append_ring [OF R(1) assms(2) eU] by blast
  have "ring m' lru_head L" by (rule ring_cong [OF R(2)]) (use m'(4) d assms(3) in \<open>auto simp: links_def\<close>)
  then have "rings m' (U @ [e]) L" using m'(2) d assms(3) by (auto simp: rings_def)
  then show "\<exists>m'. LRU_Append m in_use_head e = Some m' \<and> rings m' (U @ [e]) L \<and> unlink m' = unlink m
      \<and> (\<forall>a. a \<notin> {e, in_use_head} \<union> set U \<longrightarrow> m' a = m a)" using m' by auto
  obtain m' where m': "LRU_Append m lru_head e = Some m'" "ring m' lru_head (L @ [e])" "unlink m' = unlink m"
      "\<forall>a. a \<notin> set (e # lru_head # L) \<longrightarrow> m' a = m a"
    using LRU_Append_ring [OF R(2) assms(2) eL] by blast
  have "ring m' in_use_head U" by (rule ring_cong [OF R(1)]) (use m'(4) d assms(3) in \<open>auto simp: links_def\<close>)
  then have "rings m' U (L @ [e])" using m'(2) d assms(3) by (auto simp: rings_def)
  then show "\<exists>m'. LRU_Append m lru_head e = Some m' \<and> rings m' U (L @ [e]) \<and> unlink m' = unlink m
      \<and> (\<forall>a. a \<notin> {e, lru_head} \<union> set L \<longrightarrow> m' a = m a)" using m' by auto
qed

section \<open>References\<close>

lemmas head_defs = lru_head_def in_use_head_def

lemma cache_repD:
  assumes "cache_rep c U L T cl"
  shows "rings (mem c) U L" "ht_rep (mem c) (handles c) T" "T \<subseteq> set U \<union> set L"
    "\<And>a. a \<in> entries c \<Longrightarrow> cell_ok a (the (mem c a)) U L (cl a)" "\<And>a. a \<notin> entries c \<Longrightarrow> cl a = 0"
    "0 \<notin> dom (mem c)" "finite (dom (mem c))" "usage c = (\<Sum>a\<leftarrow>U @ L. charge_of (mem c) a)"
    "distinct (in_use_head # lru_head # U @ L)"
  using assms by (auto simp: cache_rep_def rings_def)

lemma rings_dom: "rings m U L \<Longrightarrow> set U \<union> set L \<subseteq> dom m - {lru_head, in_use_head}"
proof -
  assume r: "rings m U L"
  have "a \<in> dom m" if "a \<in> set U \<union> set L" for a
    using that r ring_readable [of m in_use_head U a] ring_readable [of m lru_head L a]
    by (auto simp: rings_def readable_def)
  then show ?thesis using r by (auto simp: rings_def)
qed

lemma rep_entries:
  assumes "cache_rep c U L T cl" and "a \<in> set U \<union> set L"
  shows "a \<in> entries c"
  using rings_dom [OF cache_repD(1) [OF assms(1)]] assms(2) by (auto simp: entries_def)

lemma unlink_views:
  assumes "unlink m' = unlink m" and "m a = Some h"
  shows "\<exists>h'. m' a = Some h' \<and> refs h' = refs h \<and> in_cache h' = in_cache h \<and> fixed h' = fixed h
    \<and> next_hash h' = next_hash h"
  using unlink_eqD [OF assms(1) [symmetric] assms(2)] by (auto simp: fixed_def)

lemma hash_view_ident: "hash_view m a = hash_view m' a \<Longrightarrow> ident m a = ident m' a"
  by (cases "m a"; cases "m' a") (auto simp: hash_view_def ident_def)

lemma unlink_hash_view: "unlink m' = unlink m \<Longrightarrow> hash_view m' a = hash_view m a"
  using unlink_eqD [of m m' a] unlink_dom [of m m'] by (cases "m a") (auto simp: hash_view_def)

lemma cell_ok_next_hash [simp]: "cell_ok a (h\<lparr>next_hash := x\<rparr>) U L n = cell_ok a h U L n"
  by (simp add: cell_ok_def)

lemma cell_okD:
  assumes "cell_ok a h U L n"
  shows "refs h = of_nat (n + of_bool (a \<in> set U \<union> set L))" and "n + of_bool (a \<in> set U \<union> set L) < 2 ^ 32"
proof -
  have "in_cache h \<longleftrightarrow> a \<in> set U \<union> set L" using assms by (simp add: cell_ok_def)
  then show "refs h = of_nat (n + of_bool (a \<in> set U \<union> set L))" and "n + of_bool (a \<in> set U \<union> set L) < 2 ^ 32"
    using assms unfolding cell_ok_def by auto
qed

lemma fixed_info: "fixed h = fixed h' \<Longrightarrow> info h = info h'"
  by (simp add: fixed_def info_def)

text \<open>
  A heap in which only references, links and membership differ represents the new reference counts and
  lists when every entry agrees with them.
\<close>

lemma cache_rep_update:
  assumes rep: "cache_rep c U L T cl" and R: "rings (mem c') U' L'"
    and lists: "set U' \<union> set L' \<subseteq> set U \<union> set L" "T \<subseteq> set U' \<union> set L'"
    and us: "usage c' = (\<Sum>a\<leftarrow>U' @ L'. charge_of (mem c) a)"
    and dom: "dom (mem c') = dom (mem c)"
    and c': "handles c' = handles c" "capacity c' = capacity c" "deleted c' = deleted c"
    and same: "\<And>a. a \<in> entries c \<Longrightarrow> fixed (the (mem c' a)) = fixed (the (mem c a))
      \<and> next_hash (the (mem c' a)) = next_hash (the (mem c a)) \<and> (in_cache (the (mem c' a)) \<longleftrightarrow> a \<in> set U' \<union> set L')"
    and detached: "\<And>a. a \<in> entries c - set U' - set L' \<Longrightarrow> lh_next (the (mem c' a)) \<noteq> a \<and> 0 < cl' a"
    and count: "\<And>a. a \<in> entries c \<Longrightarrow>
      refs (the (mem c' a)) = of_nat (cl' a + of_bool (a \<in> set U' \<union> set L')) \<and> cl' a + of_bool (a \<in> set U' \<union> set L') < 2 ^ 32"
    and pos: "\<And>a. a \<in> set U' \<Longrightarrow> 0 < cl' a" "\<And>a. a \<in> set L' \<Longrightarrow> cl' a = 0" "\<And>a. a \<notin> entries c \<Longrightarrow> cl' a = 0"
  shows "cache_rep c' U' L' T cl' \<and> keeps c c' \<and> entries c' = entries c"
proof -
  note D = cache_repD [OF rep]
  have ent: "entries c' = entries c" using dom by (simp add: entries_def)
  have sub: "set U' \<union> set L' \<subseteq> entries c" "T \<subseteq> entries c" using lists rep_entries [OF rep] by blast+
  have some: "\<exists>h h'. mem c a = Some h \<and> mem c' a = Some h'" if "a \<in> entries c" for a
    using that dom by (auto simp: entries_def dom_def set_eq_iff)
  have "hash_view (mem c) a = hash_view (mem c') a" if "a \<in> T" for a
  proof -
    have "a \<in> entries c" using sub that by blast
    then show ?thesis using some [of a] same [of a] by (auto simp: hash_view_def fixed_def)
  qed
  then have ht: "ht_rep (mem c') (handles c) T" using ht_rep_readable_cong [OF D(2)] by blast
  have "charge_of (mem c') a = charge_of (mem c) a" if "a \<in> set (U' @ L')" for a
    using same [of a] that sub by (auto simp: charge_of_def fixed_def)
  then have us': "usage c' = (\<Sum>a\<leftarrow>U' @ L'. charge_of (mem c') a)" using us
    by (simp cong: map_cong)
  have "cell_ok a (the (mem c' a)) U' L' (cl' a)" if a: "a \<in> entries c" for a
  proof -
    have "lh_next (the (mem c' a)) \<noteq> a"
    proof (cases "a \<in> set U' \<union> set L'")
      case True
      then have "readable (mem c') a" using R ring_readable by (auto simp: rings_def)
      then show ?thesis by (auto simp: readable_def)
    next
      case False
      then show ?thesis using detached [of a] a by blast
    qed
    then show ?thesis
      using same [OF a] count [OF a] pos [of a] detached [of a] a by (auto simp: cell_ok_def)
  qed
  then have "cache_rep c' U' L' T cl'"
    using R ht D(6,7) us' pos(3) lists(2) dom ent c' by (simp add: cache_rep_def)
  moreover have "keeps c c'"
    unfolding keeps_def fixed_at_def ledger_def ent
  proof (intro conjI)
    have "info (the (mem c' a)) = info (the (mem c a))" if "a \<in># mset_set (entries c)" for a
      using same [of a] that D(7) by (intro fixed_info) (simp add: entries_def)
    then show "mset (deleted c') + image_mset (\<lambda>a. info (the (mem c' a))) (mset_set (entries c)) =
      mset (deleted c) + image_mset (\<lambda>a. info (the (mem c a))) (mset_set (entries c))"
      using c'(3) by (simp cong: image_mset_cong)
  qed (use same c' in simp_all)
  ultimately show ?thesis using ent by blast
qed

lemma of_nat_u32_eq: "x < 2 ^ 32 \<Longrightarrow> y < 2 ^ 32 \<Longrightarrow> (of_nat x :: u32) = of_nat y \<longleftrightarrow> x = y"
proof -
  have "unat (of_nat z :: u32) = z" if "z < 2 ^ 32" for z
    using that by (simp add: unsigned_of_nat take_bit_nat_eq_self)
  then show "x < 2 ^ 32 \<Longrightarrow> y < 2 ^ 32 \<Longrightarrow> (of_nat x :: u32) = of_nat y \<longleftrightarrow> x = y" by metis
qed

lemma rings_cong: "rings m U L \<Longrightarrow> (\<And>a. links m' a = links m a) \<Longrightarrow> rings m' U L"
  unfolding rings_def by (auto intro: ring_cong)

lemma links_upd [simp]: "m a = Some h \<Longrightarrow> links (m(a \<mapsto> h\<lparr>refs := r\<rparr>)) b = links m b"
  by (simp add: links_def)

lemma unlink_fun_upd: "unlink (m(a \<mapsto> h)) = (unlink m)(a \<mapsto> h\<lparr>lh_next := 0, lh_prev := 0\<rparr>)"
  by (auto simp: unlink_def)

lemma unlink_upd_refs:
  assumes "unlink m = unlink m'" and "m a = Some h" and "m' a = Some h'"
  shows "unlink (m(a \<mapsto> h\<lparr>refs := r\<rparr>)) = unlink (m'(a \<mapsto> h'\<lparr>refs := r\<rparr>))"
proof -
  obtain x y where "h' = h\<lparr>lh_next := x, lh_prev := y\<rparr>" using unlink_eqD [OF assms(1,2)] assms(3) by auto
  then show ?thesis using assms(1) by (simp add: unlink_fun_upd)
qed

text \<open>The same for one entry with a new number of clients, moved to the list it then belongs to.\<close>

lemma cache_rep_relink:
  assumes rep: "cache_rep c U L T cl" and e: "e \<in> entries c" "mem c e = Some h" and n: "n + of_bool (in_cache h) < 2 ^ 32"
    and un: "unlink m' = unlink ((mem c)(e \<mapsto> h\<lparr>refs := of_nat (n + of_bool (in_cache h))\<rparr>))"
    and R: "rings m' U' L'" and lists: "mset (U' @ L') = mset (U @ L)"
    and frame: "\<And>a. a \<in> entries c - set U - set L \<Longrightarrow> lh_next (the (m' a)) \<noteq> a"
    and pos: "\<And>a. a \<in> set U' \<Longrightarrow> 0 < (cl(e := n)) a" "\<And>a. a \<in> set L' \<Longrightarrow> (cl(e := n)) a = 0"
      "e \<notin> set U \<union> set L \<Longrightarrow> 0 < n"
  shows "cache_rep (c\<lparr>mem := m'\<rparr>) U' L' T (cl(e := n)) \<and> keeps c (c\<lparr>mem := m'\<rparr>)
    \<and> entries (c\<lparr>mem := m'\<rparr>) = entries c"
proof -
  note D = cache_repD [OF rep]
  have set: "set U' \<union> set L' = set U \<union> set L" using mset_eq_setD [OF lists] by auto
  let ?m = "(mem c)(e \<mapsto> h\<lparr>refs := of_nat (n + of_bool (in_cache h))\<rparr>)"
  have v: "refs (the (m' a)) = refs (the (?m a)) \<and> in_cache (the (m' a)) = in_cache (the (mem c a))
      \<and> fixed (the (m' a)) = fixed (the (mem c a)) \<and> next_hash (the (m' a)) = next_hash (the (mem c a))"
    if a: "a \<in> entries c" for a
  proof -
    obtain x where x: "?m a = Some x" using a by (cases "a = e") (auto simp: entries_def)
    then have "in_cache x = in_cache (the (mem c a)) \<and> fixed x = fixed (the (mem c a))
        \<and> next_hash x = next_hash (the (mem c a))"
      using e(2) by (cases "a = e") (auto simp: fixed_def)
    then show ?thesis using unlink_views [OF un x] x by auto
  qed
  have i: "in_cache (the (mem c a)) \<longleftrightarrow> a \<in> set U \<union> set L" if "a \<in> entries c" for a
    using D(4) [OF that] by (simp add: cell_ok_def)
  show ?thesis
  proof (rule cache_rep_update [OF rep])
    show "dom (mem (c\<lparr>mem := m'\<rparr>)) = dom (mem c)" using unlink_dom [OF un] e(2) by auto
    show "fixed (the (mem (c\<lparr>mem := m'\<rparr>) a)) = fixed (the (mem c a))
        \<and> next_hash (the (mem (c\<lparr>mem := m'\<rparr>) a)) = next_hash (the (mem c a))
        \<and> (in_cache (the (mem (c\<lparr>mem := m'\<rparr>) a)) \<longleftrightarrow> a \<in> set U' \<union> set L')" if "a \<in> entries c" for a
      using v [OF that] i [OF that] set by simp
    show "lh_next (the (mem (c\<lparr>mem := m'\<rparr>) a)) \<noteq> a \<and> 0 < (cl(e := n)) a" if "a \<in> entries c - set U' - set L'" for a
      using frame [of a] pos(3) D(4) [of a] that set by (auto simp: cell_ok_def)
    show "refs (the (mem (c\<lparr>mem := m'\<rparr>) a)) = of_nat ((cl(e := n)) a + of_bool (a \<in> set U' \<union> set L'))
        \<and> (cl(e := n)) a + of_bool (a \<in> set U' \<union> set L') < 2 ^ 32" if "a \<in> entries c" for a
    proof -
      have "cl a + of_bool (a \<in> set U \<union> set L) < 2 ^ 32" "refs (the (mem c a)) = of_nat (cl a + of_bool (a \<in> set U \<union> set L))"
        using cell_okD [OF D(4) [OF that]] by blast+
      then show ?thesis unfolding set using v [OF that] n e i [of e] by (cases "a = e") (simp_all del: Un_iff)
    qed
    show "(cl(e := n)) a = 0" if "a \<notin> entries c" for a using that e(1) D(5) [of a] by auto
    show "usage (c\<lparr>mem := m'\<rparr>) = (\<Sum>a\<leftarrow>U' @ L'. charge_of (mem c) a)"
      using D(8) lists by (metis (no_types, lifting) LRUCache.select_convs(2) LRUCache.surjective LRUCache.update_convs(3) mset_map sum_mset_sum_list)
  qed (use R set D(3) pos in auto)
qed

lemma LRU_Ref_rep:
  assumes rep: "cache_rep c U L T cl" and e: "e \<in> set U \<union> set L" and room: "cl e + 2 < 2 ^ 32"
  shows "\<exists>c'. LRU_Ref c e = Some c' \<and> keeps c c' \<and> entries c' = entries c
    \<and> cache_rep c' (if cl e = 0 then U @ [e] else U) (remove1 e L) T (cl(e := cl e + 1))"
proof -
  note D = cache_repD [OF rep]
  have ent: "e \<in> entries c" by (rule rep_entries [OF rep e])
  then obtain h where h: "mem c e = Some h" by (auto simp: entries_def)
  have ok: "cell_ok e h U L (cl e)" using D(4) [OF ent] h by simp
  then have inc: "in_cache h" and r: "refs h = of_nat (cl e + 1)" using e by (auto simp: cell_ok_def)
  have r1: "refs h = 1 \<longleftrightarrow> cl e = 0" using of_nat_u32_eq [of "cl e + 1" 1] room unfolding r by simp
  define U' where "U' = (if cl e = 0 then U @ [e] else U)"
  have heads: "e \<notin> {in_use_head, lru_head}" using ent by (auto simp: entries_def)
  obtain m where m: "(if refs h = 1 \<and> in_cache h then do {m1 \<leftarrow> LRU_Remove (mem c) e; LRU_Append m1 in_use_head e}
        else Some (mem c)) = Some m" "rings m U' (remove1 e L)" "unlink m = unlink (mem c)"
      "\<forall>a. a \<notin> {in_use_head, lru_head} \<union> set U \<union> set L \<longrightarrow> m a = mem c a" "mset (U' @ remove1 e L) = mset (U @ L)"
  proof (cases "cl e = 0")
    case True
    then have L: "e \<in> set L" "e \<notin> set U" using ok e by (auto simp: cell_ok_def)
    obtain m1 where m1: "LRU_Remove (mem c) e = Some m1" "rings m1 U (remove1 e L)" "unlink m1 = unlink (mem c)"
        "m1 e = mem c e" "\<forall>a. a \<notin> {in_use_head, lru_head} \<union> set U \<union> set L \<longrightarrow> m1 a = mem c a"
      using rings_remove [OF D(1) e] L(2) by (auto simp: remove1_idem)
    have "e \<notin> {in_use_head, lru_head} \<union> set U \<union> set (remove1 e L)" using heads L D(9) by auto
    then obtain m where m: "LRU_Append m1 in_use_head e = Some m" "rings m (U @ [e]) (remove1 e L)" "unlink m = unlink m1"
        "\<forall>a. a \<notin> {e, in_use_head} \<union> set U \<longrightarrow> m a = m1 a"
      using rings_append(1) [OF m1(2)] m1(4) h by metis
    have "m a = mem c a" if "a \<notin> {in_use_head, lru_head} \<union> set U \<union> set L" for a
    proof -
      have "a \<notin> {e, in_use_head} \<union> set U" using that L(1) by auto
      then show ?thesis using m(4) m1(5) that by metis
    qed
    then show ?thesis using that [of m] m m1(1,3) True L r1 inc by (simp add: U'_def)
  next
    case False
    then have "e \<in> set U" "e \<notin> set L" using ok e by (auto simp: cell_ok_def)
    then show ?thesis using that [of "mem c"] False r1 D(1) by (simp add: U'_def remove1_idem)
  qed
  obtain h1 where h1: "m e = Some h1" "refs h1 = refs h" using unlink_views [OF m(3) h] by blast
  let ?m = "m(e \<mapsto> h1\<lparr>refs := refs h1 + 1\<rparr>)"
  have "cache_rep (c\<lparr>mem := ?m\<rparr>) U' (remove1 e L) T (cl(e := cl e + 1)) \<and> keeps c (c\<lparr>mem := ?m\<rparr>)
      \<and> entries (c\<lparr>mem := ?m\<rparr>) = entries c"
  proof (rule cache_rep_relink [OF rep ent h])
    show "rings ?m U' (remove1 e L)" by (rule rings_cong [OF m(2)]) (rule links_upd, rule h1(1))
    show "unlink ?m = unlink ((mem c)(e \<mapsto> h\<lparr>refs := of_nat (cl e + 1 + of_bool (in_cache h))\<rparr>))"
      using unlink_upd_refs [OF m(3) h1(1) h] h1(2) r inc by (simp add: ac_simps)
    show "lh_next (the (?m a)) \<noteq> a" if a: "a \<in> entries c - set U - set L" for a
    proof -
      have "?m a = mem c a" using m(4) a e by (auto simp: entries_def)
      then show ?thesis using D(4) [of a] a by (simp add: cell_ok_def)
    qed
    have le: "cl a = 0" if "a \<in> set L" for a using D(4) [of a] rep_entries [OF rep, of a] that by (simp add: cell_ok_def)
    have ue: "0 < cl a" if "a \<in> set U" for a using D(4) [of a] rep_entries [OF rep, of a] that by (simp add: cell_ok_def)
    show "0 < (cl(e := cl e + 1)) a" if "a \<in> set U'" for a using that ue by (auto simp: U'_def split: if_splits)
    show "(cl(e := cl e + 1)) a = 0" if "a \<in> set (remove1 e L)" for a using that le D(9) by auto
  qed (use m(5) room e in auto)
  then show ?thesis using h h1 m(1) by (auto simp: LRU_Ref_def U'_def)
qed

lemma keeps_trans: "keeps c c' \<Longrightarrow> keeps c' c'' \<Longrightarrow> keeps c c''"
  unfolding keeps_def by (metis subset_iff)

text \<open>The last reference of an entry outside the cache: the deleter is called and the cell freed.\<close>

lemma cache_rep_free:
  assumes rep: "cache_rep c U L T cl" and e: "e \<in> entries c - set U - set L" and h: "mem c e = Some h"
  shows "let c' = c\<lparr>mem := (mem c)(e := None), deleted := deleted c @ [info h]\<rparr>
    in cache_rep c' U L T (cl(e := 0)) \<and> keeps c c' \<and> entries c' = entries c - {e}"
proof -
  note D = cache_repD [OF rep]
  let ?c = "c\<lparr>mem := (mem c)(e := None), deleted := deleted c @ [info h]\<rparr>"
  have ent: "entries ?c = entries c - {e}" by (auto simp: entries_def)
  have ne: "e \<notin> {in_use_head, lru_head} \<union> set U \<union> set L" using e by (auto simp: entries_def)
  have "ring (mem ?c) in_use_head U" "ring (mem ?c) lru_head L"
    using D(1) ne by (auto simp: rings_def links_def intro!: ring_cong [where m = "mem c"])
  then have R: "rings (mem ?c) U L" using D(9) by (simp add: rings_def)
  have "ht_rep (mem ?c) (handles c) T"
    by (rule ht_rep_readable_cong [OF D(2)]) (use D(3) e in \<open>auto simp: hash_view_def\<close>)
  moreover have "(\<Sum>a\<leftarrow>U @ L. charge_of (mem ?c) a) = (\<Sum>a\<leftarrow>U @ L. charge_of (mem c) a)"
    using e by (intro arg_cong [where f = sum_list] map_cong) (auto simp: charge_of_def)
  ultimately have "cache_rep ?c U L T (cl(e := 0))"
    using R D(3-8) ent by (auto simp: cache_rep_def)
  moreover have "ledger ?c = ledger c"
  proof -
    have "finite (entries c)" using D(7) by (simp add: entries_def)
    then have "mset_set (entries c) = add_mset e (mset_set (entries c - {e}))" using e by (simp add: mset_set.remove)
    moreover have "image_mset (\<lambda>a. info (the (mem ?c a))) (mset_set (entries c - {e})) =
        image_mset (\<lambda>a. info (the (mem c a))) (mset_set (entries c - {e}))"
      using \<open>finite (entries c)\<close> by (intro image_mset_cong) auto
    ultimately show ?thesis using h unfolding ledger_def ent by simp
  qed
  ultimately show ?thesis using ent by (auto simp: keeps_def fixed_at_def Let_def)
qed

lemma LRU_Unref_rep:
  assumes rep: "cache_rep c U L T cl" and e: "0 < cl e"
  shows "\<exists>c'. LRU_Unref c e = Some c' \<and> keeps c c'
    \<and> cache_rep c' (if cl e = 1 then remove1 e U else U) (if cl e = 1 \<and> e \<in> set U then L @ [e] else L) T (cl(e := cl e - 1))
    \<and> entries c' = entries c - (if cl e = 1 \<and> e \<notin> set U then {e} else {})"
proof -
  note D = cache_repD [OF rep]
  have ent: "e \<in> entries c" using D(5) [of e] e by auto
  then obtain h where h: "mem c e = Some h" by (auto simp: entries_def)
  have ok: "cell_ok e h U L (cl e)" using D(4) [OF ent] h by simp
  have eL: "e \<notin> set L" using ok e by (auto simp: cell_ok_def)
  have inc: "in_cache h \<longleftrightarrow> e \<in> set U" and r: "refs h = of_nat (cl e + of_bool (in_cache h))"
      and lim: "cl e + of_bool (in_cache h) < 2 ^ 32" and nx: "lh_next h \<noteq> e"
    using ok eL by (auto simp: cell_ok_def)
  have r0: "refs h \<noteq> 0" using of_nat_u32_eq [of "cl e + of_bool (in_cache h)" 0] lim e unfolding r by simp
  have r': "refs h - 1 = of_nat (cl e - 1 + of_bool (in_cache h))" using e unfolding r by (simp add: of_nat_diff)
  define h1 where "h1 = h\<lparr>refs := refs h - 1\<rparr>"
  define m1 where "m1 = (mem c)(e \<mapsto> h1)"
  have h1: "refs h1 = of_nat (cl e - 1 + of_bool (in_cache h))" "in_cache h1 = in_cache h" "info h1 = info h"
    using r' by (simp_all add: h1_def info_def)
  have c0: "refs h1 = 0 \<longleftrightarrow> cl e = 1 \<and> \<not> in_cache h" and c1: "refs h1 = 1 \<and> in_cache h \<longleftrightarrow> cl e = 1 \<and> in_cache h"
    using of_nat_u32_eq [of "cl e - 1 + of_bool (in_cache h)" 0] of_nat_u32_eq [of "cl e - 1 + of_bool (in_cache h)" 1] lim e
    unfolding h1(1) by auto
  have R1: "rings m1 U L" unfolding m1_def h1_def by (rule rings_cong [OF D(1)]) (rule links_upd, rule h)
  consider (free) "cl e = 1" "\<not> in_cache h" | (move) "cl e = 1" "in_cache h" | (stay) "cl e \<noteq> 1" by blast
  then show ?thesis
  proof cases
    case free
    have k: "lh_key m1 e = Some (key_data h)" using nx by (simp add: m1_def lh_key_def h1_def)
    have "LRU_Unref c e = Some (c\<lparr>mem := (mem c)(e := None), deleted := deleted c @ [info h]\<rparr>)"
      using h r0 c0 free h1(2) k by (simp add: LRU_Unref_def Let_def m1_def info_def flip: h1_def) (simp add: h1_def)
    moreover have "e \<in> entries c - set U - set L" using ent eL free inc by auto
    ultimately show ?thesis using cache_rep_free [OF rep _ h] free inc by (auto simp: Let_def remove1_idem)
  next
    case move
    then have U: "e \<in> set U" using inc by simp
    obtain m2 where m2: "LRU_Remove m1 e = Some m2" "rings m2 (remove1 e U) L" "unlink m2 = unlink m1" "m2 e = m1 e"
        "\<forall>a. a \<notin> {in_use_head, lru_head} \<union> set U \<union> set L \<longrightarrow> m2 a = m1 a"
      using rings_remove [OF R1, of e] U eL by (auto simp: remove1_idem)
    have "e \<notin> {in_use_head, lru_head} \<union> set (remove1 e U) \<union> set L" using ent eL D(9) by (auto simp: entries_def)
    then obtain m3 where m3: "LRU_Append m2 lru_head e = Some m3" "rings m3 (remove1 e U) (L @ [e])" "unlink m3 = unlink m2"
        "\<forall>a. a \<notin> {e, lru_head} \<union> set L \<longrightarrow> m3 a = m2 a"
      using rings_append(2) [OF m2(2)] m2(4) by (metis fun_upd_same m1_def)
    have run: "LRU_Unref c e = Some (c\<lparr>mem := m3\<rparr>)"
      using h r0 c0 c1 move h1(2) m2(1) m3(1) by (simp add: LRU_Unref_def Let_def flip: h1_def m1_def)
    have "cache_rep (c\<lparr>mem := m3\<rparr>) (remove1 e U) (L @ [e]) T (cl(e := cl e - 1)) \<and> keeps c (c\<lparr>mem := m3\<rparr>)
        \<and> entries (c\<lparr>mem := m3\<rparr>) = entries c"
    proof (rule cache_rep_relink [OF rep ent h])
      show "unlink m3 = unlink ((mem c)(e \<mapsto> h\<lparr>refs := of_nat (cl e - 1 + of_bool (in_cache h))\<rparr>))"
        using m3(3) m2(3) r' by (simp add: m1_def h1_def)
      show "lh_next (the (m3 a)) \<noteq> a" if a: "a \<in> entries c - set U - set L" for a
      proof -
        have "m3 a = mem c a" using m3(4) m2(5) a U by (auto simp: entries_def m1_def)
        then show ?thesis using D(4) [of a] a by (simp add: cell_ok_def)
      qed
      have le: "cl a = 0" if "a \<in> set L" for a using D(4) [of a] rep_entries [OF rep, of a] that by (simp add: cell_ok_def)
      have ue: "0 < cl a" if "a \<in> set U" for a using D(4) [of a] rep_entries [OF rep, of a] that by (simp add: cell_ok_def)
      show "0 < (cl(e := cl e - 1)) a" if "a \<in> set (remove1 e U)" for a using that ue D(9) by auto
      show "(cl(e := cl e - 1)) a = 0" if "a \<in> set (L @ [e])" for a using that le move by auto
    qed (use m3(2) U lim move in auto)
    then show ?thesis using run U move by auto
  next
    case stay
    have run: "LRU_Unref c e = Some (c\<lparr>mem := m1\<rparr>)"
      using h r0 c0 c1 stay h1(2) by (auto simp: LRU_Unref_def Let_def simp flip: h1_def m1_def)
    have "cache_rep (c\<lparr>mem := m1\<rparr>) U L T (cl(e := cl e - 1)) \<and> keeps c (c\<lparr>mem := m1\<rparr>)
        \<and> entries (c\<lparr>mem := m1\<rparr>) = entries c"
    proof (rule cache_rep_relink [OF rep ent h])
      show "unlink m1 = unlink ((mem c)(e \<mapsto> h\<lparr>refs := of_nat (cl e - 1 + of_bool (in_cache h))\<rparr>))"
        using r' by (simp add: m1_def h1_def)
      show "lh_next (the (m1 a)) \<noteq> a" if "a \<in> entries c - set U - set L" for a
        using D(4) [of a] that h by (auto simp: cell_ok_def m1_def h1_def)
      show "0 < (cl(e := cl e - 1)) a" if "a \<in> set U" for a
        using D(4) [of a] rep_entries [OF rep, of a] that stay e by (auto simp: cell_ok_def)
      show "(cl(e := cl e - 1)) a = 0" if "a \<in> set L" for a
        using D(4) [of a] rep_entries [OF rep, of a] that eL by (auto simp: cell_ok_def)
    qed (use R1 lim stay e in auto)
    then show ?thesis using run stay by auto
  qed
qed

section \<open>Erasing\<close>

lemma sum_list_remove1:
  fixes f :: "'a \<Rightarrow> u64"
  shows "x \<in> set xs \<Longrightarrow> sum_list (map f (remove1 x xs)) = sum_list (map f xs) - f x"
  by (induction xs) auto

lemma detach_rep:
  assumes rep: "cache_rep c U L T cl" and e: "e \<in> set U \<union> set L" "e \<notin> T"
  shows "\<exists>m1 h. LRU_Remove (mem c) e = Some m1 \<and> mem c e = Some h \<and> m1 e = Some h \<and> in_cache h
    \<and> (let c1 = c\<lparr>mem := m1(e \<mapsto> h\<lparr>in_cache := False\<rparr>), usage := usage c - charge h\<rparr>
       in cache_rep c1 (remove1 e U) (remove1 e L) T (cl(e := cl e + 1)) \<and> keeps c c1 \<and> entries c1 = entries c)"
proof -
  note D = cache_repD [OF rep]
  have ent: "e \<in> entries c" by (rule rep_entries [OF rep e(1)])
  then obtain h where h: "mem c e = Some h" by (auto simp: entries_def)
  have ok: "cell_ok e h U L (cl e)" using D(4) [OF ent] h by simp
  then have inc: "in_cache h" and r: "refs h = of_nat (cl e + 1)" and lim: "cl e + 1 < 2 ^ 32" and nx: "lh_next h \<noteq> e"
    using e by (auto simp: cell_ok_def)
  obtain m1 where m1: "LRU_Remove (mem c) e = Some m1" "rings m1 (remove1 e U) (remove1 e L)" "unlink m1 = unlink (mem c)"
      "m1 e = mem c e" "\<forall>a. a \<notin> {in_use_head, lru_head} \<union> set U \<union> set L \<longrightarrow> m1 a = mem c a"
    using rings_remove [OF D(1) e(1)] by blast
  let ?m = "m1(e \<mapsto> h\<lparr>in_cache := False\<rparr>)" and ?c = "c\<lparr>mem := m1(e \<mapsto> h\<lparr>in_cache := False\<rparr>), usage := usage c - charge h\<rparr>"
  have set: "set (remove1 e U) \<union> set (remove1 e L) = set U \<union> set L - {e}" using D(9) by auto
  have v: "refs (the (?m a)) = refs (the (mem c a)) \<and> in_cache (the (?m a)) = (a \<noteq> e \<and> in_cache (the (mem c a)))
      \<and> fixed (the (?m a)) = fixed (the (mem c a)) \<and> next_hash (the (?m a)) = next_hash (the (mem c a))"
    if a: "a \<in> entries c" for a
  proof -
    obtain x where x: "mem c a = Some x" using a by (auto simp: entries_def)
    then show ?thesis using unlink_views [OF m1(3) x] h by (cases "a = e") (auto simp: fixed_def)
  qed
  have "cache_rep ?c (remove1 e U) (remove1 e L) T (cl(e := cl e + 1)) \<and> keeps c ?c \<and> entries ?c = entries c"
  proof (rule cache_rep_update [OF rep])
    show "rings (mem ?c) (remove1 e U) (remove1 e L)"
      using rings_cong [OF m1(2), of "mem ?c"] m1(4) h by (simp add: links_def)
    show "set (remove1 e U) \<union> set (remove1 e L) \<subseteq> set U \<union> set L" "T \<subseteq> set (remove1 e U) \<union> set (remove1 e L)"
      unfolding set using D(3) e(2) by auto
    show "usage ?c = (\<Sum>a\<leftarrow>remove1 e U @ remove1 e L. charge_of (mem c) a)"
    proof -
      have "remove1 e U @ remove1 e L = remove1 e (U @ L)"
      proof (cases "e \<in> set U")
        case True
        then have "e \<notin> set L" using D(9) by auto
        then show ?thesis using True by (simp add: remove1_append remove1_idem)
      qed (simp add: remove1_append remove1_idem)
      then show ?thesis using D(8) e(1) h by (simp only: sum_list_remove1) (simp add: sum_list_remove1 charge_of_def)
    qed
    show "dom (mem ?c) = dom (mem c)" using unlink_dom [OF m1(3)] h by auto
    show "fixed (the (mem ?c a)) = fixed (the (mem c a)) \<and> next_hash (the (mem ?c a)) = next_hash (the (mem c a))
      \<and> (in_cache (the (mem ?c a)) \<longleftrightarrow> a \<in> set (remove1 e U) \<union> set (remove1 e L))" if "a \<in> entries c" for a
      using v [OF that] D(4) [OF that] unfolding set cell_ok_def by auto
    show "lh_next (the (mem ?c a)) \<noteq> a \<and> 0 < (cl(e := cl e + 1)) a"
      if "a \<in> entries c - set (remove1 e U) - set (remove1 e L)" for a
    proof (cases "a = e")
      case True
      then show ?thesis using nx by simp
    next
      case False
      then have a: "a \<in> entries c - set U - set L" using that set by auto
      then have "m1 a = mem c a" using m1(5) by (auto simp: entries_def)
      then show ?thesis using D(4) [of a] a False by (auto simp: cell_ok_def)
    qed
    show "refs (the (mem ?c a)) = of_nat ((cl(e := cl e + 1)) a + of_bool (a \<in> set (remove1 e U) \<union> set (remove1 e L)))
      \<and> (cl(e := cl e + 1)) a + of_bool (a \<in> set (remove1 e U) \<union> set (remove1 e L)) < 2 ^ 32" if a: "a \<in> entries c" for a
    proof (cases "a = e")
      case True
      then show ?thesis unfolding set using r lim v [OF a] h by simp
    next
      case False
      have "cl a + of_bool (a \<in> set U \<union> set L) < 2 ^ 32" "refs (the (mem c a)) = of_nat (cl a + of_bool (a \<in> set U \<union> set L))"
        using cell_okD [OF D(4) [OF a]] by blast+
      then show ?thesis unfolding set using v [OF a] False by (simp del: Un_iff)
    qed
    show "0 < (cl(e := cl e + 1)) a" if "a \<in> set (remove1 e U)" for a
      using that D(4) [of a] rep_entries [OF rep, of a] notin_set_remove1 [of a U e] by (auto simp: cell_ok_def)
    show "(cl(e := cl e + 1)) a = 0" if "a \<in> set (remove1 e L)" for a
      using that D(4) [of a] rep_entries [OF rep, of a] notin_set_remove1 [of a L e] D(9) by (auto simp: cell_ok_def)
    show "(cl(e := cl e + 1)) a = 0" if "a \<notin> entries c" for a using that D(5) ent by auto
  qed simp_all
  then show ?thesis using m1(1,4) h inc by (simp add: Let_def)
qed

lemma FinishErase_rep:
  assumes rep: "cache_rep c U L T cl" and e: "e \<in> set U \<union> set L" "e \<notin> T"
  shows "\<exists>c'. FinishErase c e = Some (True, c') \<and> keeps c c' \<and> cache_rep c' (remove1 e U) (remove1 e L) T cl
    \<and> entries c' = entries c - (if cl e = 0 then {e} else {})"
proof -
  note D = cache_repD [OF rep]
  obtain m1 h where d: "LRU_Remove (mem c) e = Some m1" "mem c e = Some h" "m1 e = Some h" "in_cache h"
    and c1: "cache_rep (c\<lparr>mem := m1(e \<mapsto> h\<lparr>in_cache := False\<rparr>), usage := usage c - charge h\<rparr>)
        (remove1 e U) (remove1 e L) T (cl(e := cl e + 1))"
      "keeps c (c\<lparr>mem := m1(e \<mapsto> h\<lparr>in_cache := False\<rparr>), usage := usage c - charge h\<rparr>)"
      "entries (c\<lparr>mem := m1(e \<mapsto> h\<lparr>in_cache := False\<rparr>), usage := usage c - charge h\<rparr>) = entries c"
    using detach_rep [OF rep e] by (auto simp: Let_def)
  have eU: "e \<notin> set (remove1 e U)" using D(9) by auto
  have e0: "e \<noteq> 0" using rep_entries [OF rep e(1)] D(6) by (auto simp: entries_def)
  obtain c' where "LRU_Unref (c\<lparr>mem := m1(e \<mapsto> h\<lparr>in_cache := False\<rparr>), usage := usage c - charge h\<rparr>) e = Some c'"
      "keeps (c\<lparr>mem := m1(e \<mapsto> h\<lparr>in_cache := False\<rparr>), usage := usage c - charge h\<rparr>) c'"
      "cache_rep c' (remove1 e U) (remove1 e L) T cl" "entries c' = entries c - (if cl e = 0 then {e} else {})"
    using LRU_Unref_rep [OF c1(1), of e] c1(3) eU remove1_idem [OF eU] by (auto split: if_splits)
  then show ?thesis using d e0 keeps_trans [OF c1(2)] by (auto simp: FinishErase_def Let_def)
qed

text \<open>The table's operations change \<open>next_hash\<close> pointers only.\<close>

lemma erase_views:
  assumes "erase m = erase m'" and "m' a = Some h"
  shows "\<exists>x. m a = Some (h\<lparr>next_hash := x\<rparr>)"
proof -
  have "map_option (\<lambda>h. h\<lparr>next_hash := 0\<rparr>) (m a) = Some (h\<lparr>next_hash := 0\<rparr>)"
    using assms(2) fun_cong [OF assms(1), of a] by (simp add: erase_def)
  then obtain h' where h': "m a = Some h'" "h'\<lparr>next_hash := 0\<rparr> = h\<lparr>next_hash := 0\<rparr>" by auto
  then have "h' = h\<lparr>next_hash := next_hash h'\<rparr>" by (cases h; cases h') simp
  then show ?thesis using h'(1) by metis
qed

lemma cache_rep_table:
  assumes rep: "cache_rep c U L T cl" and er: "erase m = erase (mem c)" and ht: "ht_rep m t T'" "T' \<subseteq> set U \<union> set L"
  shows "let c' = c\<lparr>mem := m, handles := t\<rparr> in cache_rep c' U L T' cl \<and> keeps c c' \<and> entries c' = entries c"
proof -
  note D = cache_repD [OF rep]
  let ?c = "c\<lparr>mem := m, handles := t\<rparr>"
  have dom: "dom m = dom (mem c)" by (rule erase_eqD(3) [OF er])
  then have ent: "entries ?c = entries c" by (simp add: entries_def)
  have v: "\<exists>h x. mem c a = Some h \<and> m a = Some (h\<lparr>next_hash := x\<rparr>)" if "a \<in> dom (mem c)" for a
    using that erase_views [OF er] by auto
  have "links m a = links (mem c) a" for a
    using v [of a] dom by (cases "a \<in> dom (mem c)") (auto simp: links_def domIff)
  then have R: "rings m U L" by (rule rings_cong [OF D(1)])
  have cell: "cell_ok a (the (m a)) U L (cl a) \<and> fixed (the (m a)) = fixed (the (mem c a)) \<and> charge_of m a = charge_of (mem c) a"
    if "a \<in> entries c" for a
  proof -
    obtain h x where "mem c a = Some h" "m a = Some (h\<lparr>next_hash := x\<rparr>)" using v [of a] \<open>a \<in> entries c\<close> by (auto simp: entries_def)
    then show ?thesis using D(4) [OF \<open>a \<in> entries c\<close>] by (simp add: fixed_def charge_of_def)
  qed
  have "(\<Sum>a\<leftarrow>U @ L. charge_of m a) = (\<Sum>a\<leftarrow>U @ L. charge_of (mem c) a)"
    using cell rep_entries [OF rep] by (intro arg_cong [where f = sum_list] map_cong) auto
  then have "cache_rep ?c U L T' cl" using R ht cell D(5-8) ent dom by (simp add: cache_rep_def)
  moreover have "ledger ?c = ledger c"
  proof -
    have "info (the (m a)) = info (the (mem c a))" if "a \<in># mset_set (entries c)" for a
      using cell [of a] that D(7) by (intro fixed_info) (simp add: entries_def)
    then show ?thesis unfolding ledger_def ent by (simp cong: image_mset_cong)
  qed
  ultimately show ?thesis using cell ent by (simp add: keeps_def fixed_at_def Let_def)
qed

lemma rep_readable: "cache_rep c U L T cl \<Longrightarrow> \<forall>a\<in>set U \<union> set L. readable (mem c) a"
  using ring_readable by (auto simp: cache_rep_def rings_def)

lemma erase_entry_rep:
  assumes rep: "cache_ok c U L cl"
  shows "\<exists>p c'. erase_entry c key hash = Some (p \<noteq> 0, c') \<and> entry_of (mem c) (set U \<union> set L) hash key p \<and> keeps c c'
    \<and> cache_ok c' (remove1 p U) (remove1 p L) cl \<and> entries c' = entries c - (if p \<noteq> 0 \<and> cl p = 0 then {p} else {})"
proof -
  note D = cache_repD [OF rep]
  obtain p m t where R: "ht_Remove (mem c) (handles c) key hash = Some (p, m, t)"
      "entry_of (mem c) (set U \<union> set L) hash key p" "ht_rep m t (set U \<union> set L - {p})" "erase m = erase (mem c)"
    using ht_Remove_rep [OF D(2) rep_readable [OF rep]] by blast
  let ?c = "c\<lparr>mem := m, handles := t\<rparr>"
  have c1: "cache_rep ?c U L (set U \<union> set L - {p}) cl" "keeps c ?c" "entries ?c = entries c"
    using cache_rep_table [OF rep R(4,3)] by (auto simp: Let_def)
  have 0: "0 \<notin> set U \<union> set L" using rep_entries [OF rep] D(6) by (auto simp: entries_def)
  show ?thesis
  proof (cases "p = 0")
    case True
    then have "FinishErase ?c p = Some (False, ?c)" by (simp add: FinishErase_def)
    moreover have "remove1 p U = U" "remove1 p L = L" "set U \<union> set L - {p} = set U \<union> set L"
      using True 0 by (auto simp: remove1_idem)
    ultimately show ?thesis using True R(1,2) c1
      by (intro exI [of _ p] exI [of _ ?c]) (simp add: erase_entry_def)
  next
    case False
    then have p: "p \<in> set U \<union> set L" using R(2) by (auto simp: entry_of_def split: if_splits)
    obtain c' where F: "FinishErase ?c p = Some (True, c')" "keeps ?c c'"
        "cache_rep c' (remove1 p U) (remove1 p L) (set U \<union> set L - {p}) cl" "entries c' = entries ?c - (if cl p = 0 then {p} else {})"
      using FinishErase_rep [OF c1(1) p] by blast
    have "set (remove1 p U) \<union> set (remove1 p L) = set U \<union> set L - {p}" using D(9) by auto
    then show ?thesis using False R(1,2) c1(3) F keeps_trans [OF c1(2) F(2)]
      by (intro exI [of _ p] exI [of _ c']) (simp add: erase_entry_def)
  qed
qed

section \<open>Eviction\<close>

lemma evict_oldest_rep:
  assumes rep: "cache_ok c U (a # L) cl"
  shows "\<exists>c'. evict_oldest c a = Some c' \<and> keeps c c' \<and> cache_ok c' U L cl \<and> entries c' = entries c - {a}
    \<and> usage c' = usage c - charge_of (mem c) a"
proof -
  note D = cache_repD [OF rep]
  have ent: "a \<in> entries c" by (rule rep_entries [OF rep]) simp
  then obtain h where h: "mem c a = Some h" by (auto simp: entries_def)
  have r: "refs h = 1" and cl: "cl a = 0" using D(4) [OF ent] h by (auto simp: cell_ok_def)
  have k: "lh_key (mem c) a = Some (key_data h)" using readable_key [of "mem c" a] rep_readable [OF rep] h by (simp add: ident_def)
  obtain p c' where E: "erase_entry c (key_data h) (lh_hash h) = Some (p \<noteq> 0, c')"
      "entry_of (mem c) (set U \<union> set (a # L)) (lh_hash h) (key_data h) p" "keeps c c'"
      "cache_ok c' (remove1 p U) (remove1 p (a # L)) cl" "entries c' = entries c - (if p \<noteq> 0 \<and> cl p = 0 then {p} else {})"
    using erase_entry_rep [OF rep, of "key_data h" "lh_hash h"] by blast
  have id: "ident (mem c) a = (lh_hash h, key_data h)" using h by (simp add: ident_def)
  then have "\<exists>x\<in>set U \<union> set (a # L). ident (mem c) x = (lh_hash h, key_data h)" by auto
  then have p: "p \<in> set U \<union> set (a # L)" "ident (mem c) p = ident (mem c) a" using E(2) id by (auto simp: entry_of_def)
  then have "p = a" using D(2) inj_onD [of "ident (mem c)" "set U \<union> set (a # L)" p a] by (simp add: ht_rep_def)
  moreover have "a \<noteq> 0" "a \<notin> set U" using ent D(6,9) by (auto simp: entries_def)
  ultimately have c': "cache_ok c' U L cl" "entries c' = entries c - {a}" using E(4,5) cl by (simp_all add: remove1_idem)
  have "charge_of (mem c') x = charge_of (mem c) x" if "x \<in> set (U @ L)" for x
    using E(3) rep_entries [OF c'(1), of x] that by (simp add: keeps_def fixed_at_def charge_of_def fixed_def)
  then have "(\<Sum>x\<leftarrow>U @ L. charge_of (mem c') x) = (\<Sum>x\<leftarrow>U @ L. charge_of (mem c) x)" by (intro arg_cong [where f = sum_list] map_cong) auto
  then have "usage c' = usage c - charge_of (mem c) a" using D(8) cache_repD(8) [OF c'(1)] by (simp add: algebra_simps)
  then show ?thesis using E(1,3) c' h r k \<open>p = a\<close> \<open>a \<noteq> 0\<close> by (auto simp: evict_oldest_def)
qed

lemma keeps_refl [simp]: "keeps c c"
  by (simp add: keeps_def)

lemma evict_cong: "(\<And>a. a \<in> set L \<Longrightarrow> f a = g a) \<Longrightarrow> evict cap f us L = evict cap g us L"
  by (induction L arbitrary: us) auto

lemma keeps_charge: "keeps c c' \<Longrightarrow> a \<in> entries c' \<Longrightarrow> charge_of (mem c') a = charge_of (mem c) a"
  by (auto simp: keeps_def fixed_at_def fixed_def charge_of_def)

lemma lru_next:
  assumes "cache_ok c U L cl"
  obtains l where "mem c lru_head = Some l" and "lh_next l = hd (L @ [lru_head])"
  using ring_head [of "mem c" lru_head L] assms by (auto simp: cache_rep_def rings_def)

lemma Insert_evict_rep:
  "cache_ok c U L cl \<Longrightarrow> \<exists>c'. Insert_evict c = Some c' \<and> keeps c c'
     \<and> cache_ok c' U (evict (capacity c) (charge_of (mem c)) (usage c) L) cl
     \<and> (usage c' \<le> capacity c \<or> evict (capacity c) (charge_of (mem c)) (usage c) L = [])"
proof (induction L arbitrary: c)
  case Nil
  obtain l where "mem c lru_head = Some l" "lh_next l = lru_head" using lru_next [OF Nil] by auto
  then have "Insert_evict c = Some c" by (subst Insert_evict.simps) simp
  then show ?case using Nil by simp
next
  case (Cons a L)
  obtain l where l: "mem c lru_head = Some l" "lh_next l = a" using lru_next [OF Cons.prems] by auto
  have a: "a \<noteq> lru_head" using cache_repD(9) [OF Cons.prems] by auto
  obtain c1 where c1: "evict_oldest c a = Some c1" "keeps c c1" "cache_ok c1 U L cl" "usage c1 = usage c - charge_of (mem c) a"
    using evict_oldest_rep [OF Cons.prems] by blast
  show ?case
  proof (cases "usage c > capacity c")
    case True
    obtain c' where c': "Insert_evict c1 = Some c'" "keeps c1 c'"
        "cache_ok c' U (evict (capacity c1) (charge_of (mem c1)) (usage c1) L) cl"
        "usage c' \<le> capacity c1 \<or> evict (capacity c1) (charge_of (mem c1)) (usage c1) L = []" using Cons.IH [OF c1(3)] by blast
    have "evict (capacity c1) (charge_of (mem c1)) (usage c1) L = evict (capacity c) (charge_of (mem c)) (usage c - charge_of (mem c) a) L"
      using c1(2,4) keeps_charge [OF c1(2)] rep_entries [OF c1(3)] by (auto simp: keeps_def intro: evict_cong)
    moreover have "Insert_evict c = Some c'" using l a True c1(1) c'(1) by (subst Insert_evict.simps) simp
    moreover have "capacity c1 = capacity c" using c1(2) by (simp add: keeps_def)
    ultimately show ?thesis using c' keeps_trans [OF c1(2)] True by auto
  next
    case False
    then have "Insert_evict c = Some c" using l by (subst Insert_evict.simps) simp
    then show ?thesis using Cons.prems False by simp
  qed
qed

lemma LRU_Prune_rep:
  "cache_ok c U L cl \<Longrightarrow> \<exists>c'. LRU_Prune c = Some c' \<and> keeps c c' \<and> cache_ok c' U [] cl"
proof (induction L arbitrary: c)
  case Nil
  obtain l where "mem c lru_head = Some l" "lh_next l = lru_head" using lru_next [OF Nil] by auto
  then have "LRU_Prune c = Some c" by (subst LRU_Prune.simps) simp
  then show ?case using Nil by simp
next
  case (Cons a L)
  obtain l where l: "mem c lru_head = Some l" "lh_next l = a" using lru_next [OF Cons.prems] by auto
  have a: "a \<noteq> lru_head" using cache_repD(9) [OF Cons.prems] by auto
  obtain c1 where c1: "evict_oldest c a = Some c1" "keeps c c1" "cache_ok c1 U L cl"
    using evict_oldest_rep [OF Cons.prems] by blast
  obtain c' where c': "LRU_Prune c1 = Some c'" "keeps c1 c'" "cache_ok c' U [] cl" using Cons.IH [OF c1(3)] by blast
  moreover have "LRU_Prune c = Some c'" using l a c1(1) c'(1) by (subst LRU_Prune.simps) simp
  ultimately show ?case using keeps_trans [OF c1(2)] by blast
qed

section \<open>Insertion\<close>

lemma adds_keeps: "adds c c' e h \<Longrightarrow> keeps c' c'' \<Longrightarrow> adds c c'' e h"
  unfolding adds_def keeps_def by (metis (no_types, lifting) subset_iff)

lemma cache_rep_add:
  assumes rep: "cache_rep c U L T cl" and e: "e \<notin> dom (mem c)" "e \<noteq> 0"
    and un: "unlink (mem c') = unlink ((mem c)(e \<mapsto> h))" and R: "rings (mem c') U' L" "U' = (if in_cache h then U @ [e] else U)"
    and frame: "\<And>a. a \<in> entries c - set U - set L \<Longrightarrow> mem c' a = mem c a" "\<not> in_cache h \<Longrightarrow> lh_next (the (mem c' e)) \<noteq> e"
    and h: "refs h = of_nat (1 + of_bool (in_cache h))"
    and c': "usage c' = usage c + (if in_cache h then charge h else 0)" "handles c' = handles c" "deleted c' = deleted c"
      "capacity c' = capacity c"
  shows "cache_rep c' U' L T (cl(e := 1)) \<and> adds c c' e h \<and> entries c' = insert e (entries c)"
proof -
  note D = cache_repD [OF rep]
  have heads: "e \<notin> {lru_head, in_use_head}" using e(1) D(1) ring_head by (force simp: rings_def)
  have dom: "dom (mem c') = insert e (dom (mem c))" using unlink_dom [OF un] by simp
  then have ent: "entries c' = insert e (entries c)" using heads by (auto simp: entries_def)
  have eUL: "e \<notin> set U \<union> set L" using rep_entries [OF rep, of e] e(1) by (auto simp: entries_def)
  have v: "refs (the (mem c' a)) = refs (the (((mem c)(e \<mapsto> h)) a)) \<and> in_cache (the (mem c' a)) = in_cache (the (((mem c)(e \<mapsto> h)) a))
      \<and> fixed (the (mem c' a)) = fixed (the (((mem c)(e \<mapsto> h)) a)) \<and> next_hash (the (mem c' a)) = next_hash (the (((mem c)(e \<mapsto> h)) a))
      \<and> hash_view (mem c') a = hash_view ((mem c)(e \<mapsto> h)) a"
    if a: "a \<in> insert e (entries c)" for a
  proof -
    obtain x where x: "((mem c)(e \<mapsto> h)) a = Some x" using a by (cases "a = e") (auto simp: entries_def)
    then show ?thesis using unlink_views [OF un x] unlink_hash_view [OF un, of a] by auto
  qed
  have ht: "ht_rep (mem c') (handles c) T"
  proof (rule ht_rep_readable_cong [OF D(2)])
    fix a assume "a \<in> T"
    then have "a \<in> entries c" "a \<noteq> e" using D(3) rep_entries [OF rep, of a] eUL by auto
    then show "hash_view (mem c) a = hash_view (mem c') a" using v [of a] by (simp add: hash_view_def)
  qed
  have chg: "charge_of (mem c') a = (if a = e then charge h else charge_of (mem c) a)" if "a \<in> set (U' @ L)" for a
    using v [of a] that R(2) rep_entries [OF rep, of a] by (auto simp: charge_of_def fixed_def split: if_splits)
  have us: "usage c' = (\<Sum>a\<leftarrow>U' @ L. charge_of (mem c') a)"
  proof -
    have "(\<Sum>a\<leftarrow>U @ L. charge_of (mem c') a) = (\<Sum>a\<leftarrow>U @ L. charge_of (mem c) a)"
      using chg eUL R(2) by (intro arg_cong [where f = sum_list] map_cong) (auto split: if_splits)
    then show ?thesis using c'(1) D(8) R(2) chg [of e] by (cases "in_cache h") (simp_all add: algebra_simps)
  qed
  have cell: "cell_ok a (the (mem c' a)) U' L ((cl(e := 1)) a)" if a: "a \<in> insert e (entries c)" for a
  proof (cases "a = e")
    case True
    have "lh_next (the (mem c' e)) \<noteq> e"
    proof (cases "in_cache h")
      case True
      then have "readable (mem c') e" using R ring_readable [of "mem c'" in_use_head U' e] by (simp add: rings_def)
      then show ?thesis by (auto simp: readable_def)
    qed (rule frame(2))
    then show ?thesis using True v [of e] h eUL R(2) by (auto simp: cell_ok_def)
  next
    case False
    have "lh_next (the (mem c' a)) \<noteq> a"
    proof (cases "a \<in> set U \<union> set L")
      case True
      then have "readable (mem c') a" using R ring_readable [of "mem c'" in_use_head U' a] ring_readable [of "mem c'" lru_head L a]
        by (auto simp: rings_def)
      then show ?thesis by (auto simp: readable_def)
    next
      case out: False
      then show ?thesis using frame(1) [of a] a False D(4) [of a] by (simp add: cell_ok_def)
    qed
    then show ?thesis using False a v [OF a] D(4) [of a] R(2) by (auto simp: cell_ok_def)
  qed
  have "cache_rep c' U' L T (cl(e := 1))"
    unfolding cache_rep_def
  proof (intro conjI)
    show "rings (mem c') U' L" by (rule R(1))
    show "T \<subseteq> set U' \<union> set L" using D(3) R(2) by auto
    show "\<forall>a\<in>entries c'. cell_ok a (the (mem c' a)) U' L ((cl(e := 1)) a)" using cell ent by simp
    show "\<forall>a. a \<notin> entries c' \<longrightarrow> (cl(e := 1)) a = 0" using D(5) ent by simp
  qed (use ht c'(2) dom e(2) D(6,7) us in simp_all)
  moreover have "ledger c' = add_mset (info h) (ledger c)"
  proof -
    have fin: "finite (entries c)" "e \<notin> entries c" using D(7) e(1) by (auto simp: entries_def)
    have "info (the (mem c' a)) = info (the (mem c a))" if "a \<in># mset_set (entries c)" for a
      using v [of a] that fin by (intro fixed_info) auto
    moreover have "info (the (mem c' e)) = info h" using v [of e] by (intro fixed_info) simp
    moreover have "image_mset (\<lambda>a. info (the (mem c' a))) (mset_set (entries c)) =
        image_mset (\<lambda>a. info (the (mem c a))) (mset_set (entries c))"
      by (rule image_mset_cong) (rule calculation(1))
    ultimately show ?thesis unfolding ledger_def ent mset_set.insert [OF fin] using c'(3) by simp
  qed
  moreover have "e \<notin> entries c" using e(1) by (auto simp: entries_def)
  ultimately show ?thesis using ent v c'(4) by (auto simp: adds_def fixed_at_def)
qed

lemma adds_refine: "adds c c' e h \<Longrightarrow> fixed h = fixed h' \<Longrightarrow> adds c c' e h'"
  by (auto simp: adds_def fixed_def info_def)

text \<open>\<open>Insert\<close> into a shard that caches: the entry of the same key leaves the cache, and the oldest unused ones.\<close>

lemma LRU_Insert_cached:
  assumes rep: "cache_ok c U L cl" and e: "e \<notin> dom (mem c)" "e \<noteq> 0" and room: "card (set U \<union> set L) + 1 < 2 ^ 31"
    and cap: "capacity c > 0"
    and h: "h = \<lparr>lh_value = v, lh_deleter = del, next_hash = 0, lh_next = 0, lh_prev = 0, charge = chg,
               in_cache = True, refs = 2, lh_hash = hash, key_data = key\<rparr>"
  shows "\<exists>c1 old. (do {m1 \<leftarrow> LRU_Append ((mem c)(e \<mapsto> h)) in_use_head e;
                 (old, m2, t) \<leftarrow> ht_Insert m1 (handles c) e;
                 (erased, c1) \<leftarrow> FinishErase (c\<lparr>mem := m2, handles := t, usage := usage c + chg\<rparr>) old;
                 Some c1}) = Some c1
    \<and> entry_of (mem c) (set U \<union> set L) hash key old \<and> adds c c1 e h
    \<and> cache_ok c1 (remove1 old (U @ [e])) (remove1 old L) (cl(e := 1))"
proof -
  note D = cache_repD [OF rep]
  let ?m0 = "(mem c)(e \<mapsto> h)"
  have heads: "e \<notin> {in_use_head, lru_head}" using e(1) D(1) ring_head by (force simp: rings_def)
  have eUL: "e \<notin> set U \<union> set L" using rep_entries [OF rep, of e] e(1) by (auto simp: entries_def)
  have "ring ?m0 in_use_head U" "ring ?m0 lru_head L"
    using D(1) heads eUL by (auto simp: rings_def links_def intro!: ring_cong [where m = "mem c"])
  then have R0: "rings ?m0 U L" using D(9) by (simp add: rings_def)
  obtain m1 where m1: "LRU_Append ?m0 in_use_head e = Some m1" "rings m1 (U @ [e]) L" "unlink m1 = unlink ?m0"
      "\<forall>a. a \<notin> {e, in_use_head} \<union> set U \<longrightarrow> m1 a = ?m0 a"
    using rings_append(1) [OF R0, of e h] heads eUL by auto
  let ?c1 = "c\<lparr>mem := m1, usage := usage c + chg\<rparr>"
  have "cache_rep ?c1 (U @ [e]) L (set U \<union> set L) (cl(e := 1)) \<and> adds c ?c1 e h \<and> entries ?c1 = insert e (entries c)"
    by (rule cache_rep_add [OF rep e])
      (use m1 e(1) in \<open>auto simp: h entries_def\<close>)
  then have A: "cache_rep ?c1 (U @ [e]) L (set U \<union> set L) (cl(e := 1))" "adds c ?c1 e h" by blast+
  have id: "ident m1 e = (hash, key)" "\<And>a. a \<in> set U \<union> set L \<Longrightarrow> ident m1 a = ident (mem c) a"
    using hash_view_ident [OF unlink_hash_view [OF m1(3)]] eUL by (auto simp: ident_def h)
  have rd: "\<forall>a\<in>set U \<union> set L. readable m1 a" "readable m1 e" using rep_readable [OF A(1)] by auto
  have ht1: "ht_rep m1 (handles c) (set U \<union> set L)" using cache_repD(2) [OF A(1)] by simp
  obtain old m2 t where I: "ht_Insert m1 (handles c) e = Some (old, m2, t)" "entry_of m1 (set U \<union> set L) hash key old"
      "ht_rep m2 t (insert e (set U \<union> set L - {old}))" "erase m2 = erase m1"
    using ht_Insert_rep [OF ht1 rd(1) eUL e(2) rd(2) room id(1)] by blast
  let ?c2 = "c\<lparr>mem := m2, handles := t, usage := usage c + chg\<rparr>"
  have eq: "?c1\<lparr>mem := m2, handles := t\<rparr> = ?c2" by simp
  have "erase m2 = erase (mem ?c1)" "insert e (set U \<union> set L - {old}) \<subseteq> set (U @ [e]) \<union> set L" using I(4) by auto
  then have B: "cache_rep ?c2 (U @ [e]) L (insert e (set U \<union> set L - {old})) (cl(e := 1))" "keeps ?c1 ?c2"
    using cache_rep_table [OF A(1) _ I(3)] unfolding Let_def eq by blast+
  have ent: "entry_of (mem c) (set U \<union> set L) hash key old" using I(2) id(2) by (auto simp: entry_of_def split: if_splits)
  have z: "0 \<notin> set U \<union> set L" using rep_entries [OF rep] D(6) by (auto simp: entries_def)
  obtain b c' where F: "FinishErase ?c2 old = Some (b, c')" "keeps ?c2 c'"
      "cache_rep c' (remove1 old (U @ [e])) (remove1 old L) (insert e (set U \<union> set L - {old})) (cl(e := 1))"
  proof (cases "old = 0")
    case True
    then have "remove1 old (U @ [e]) = U @ [e]" "remove1 old L = L" using z e(2) by (auto simp: remove1_idem)
    then show ?thesis using that [of False ?c2] True B(1) by (simp add: FinishErase_def)
  next
    case False
    then have "old \<in> set U \<union> set L" using ent by (auto simp: entry_of_def split: if_splits)
    then have "old \<in> set (U @ [e]) \<union> set L" "old \<notin> insert e (set U \<union> set L - {old})" using eUL by auto
    then show ?thesis using FinishErase_rep [OF B(1)] that by blast
  qed
  have "set (remove1 old (U @ [e])) \<union> set (remove1 old L) = insert e (set U \<union> set L - {old})"
  proof -
    have "old \<noteq> e" using ent eUL e(2) by (auto simp: entry_of_def split: if_splits)
    then show ?thesis using D(9) by (auto simp: remove1_append)
  qed
  then have "cache_ok c' (remove1 old (U @ [e])) (remove1 old L) (cl(e := 1))" using F(3) by simp
  moreover have "adds c c' e h" using adds_keeps [OF adds_keeps [OF A(2) B(2)] F(2)] .
  ultimately show ?thesis using m1(1) I(1) F(1) ent by (intro exI [of _ c'] exI [of _ old]) simp
qed

lemma LRU_Insert_uncached:
  assumes rep: "cache_ok c U L cl" and e: "e \<notin> dom (mem c)" "e \<noteq> 0"
    and h: "h = \<lparr>lh_value = v, lh_deleter = del, next_hash = 0, lh_next = 0, lh_prev = 0, charge = chg,
               in_cache = False, refs = 1, lh_hash = hash, key_data = key\<rparr>"
  shows "cache_ok (c\<lparr>mem := (mem c)(e \<mapsto> h)\<rparr>) U L (cl(e := 1)) \<and> adds c (c\<lparr>mem := (mem c)(e \<mapsto> h)\<rparr>) e h"
proof -
  note D = cache_repD [OF rep]
  have heads: "e \<notin> {in_use_head, lru_head}" using e(1) D(1) ring_head by (force simp: rings_def)
  have eUL: "e \<notin> set U \<union> set L" using rep_entries [OF rep, of e] e(1) by (auto simp: entries_def)
  have "ring ((mem c)(e \<mapsto> h)) in_use_head U" "ring ((mem c)(e \<mapsto> h)) lru_head L"
    using D(1) heads eUL by (auto simp: rings_def links_def intro!: ring_cong [where m = "mem c"])
  then have R0: "rings ((mem c)(e \<mapsto> h)) U L" using D(9) by (simp add: rings_def)
  have "cache_ok (c\<lparr>mem := (mem c)(e \<mapsto> h)\<rparr>) U L (cl(e := 1)) \<and> adds c (c\<lparr>mem := (mem c)(e \<mapsto> h)\<rparr>) e h
      \<and> entries (c\<lparr>mem := (mem c)(e \<mapsto> h)\<rparr>) = insert e (entries c)"
    by (rule cache_rep_add [OF rep e]) (use R0 e in \<open>auto simp: h entries_def\<close>)
  then show ?thesis by blast
qed

text \<open>The lists after \<open>Insert\<close>.\<close>

lemma LRU_Insert_rep:
  assumes rep: "cache_ok c U L cl" and e: "e \<notin> dom (mem c)" "e \<noteq> 0" and room: "card (set U \<union> set L) + 1 < 2 ^ 31"
  shows "\<exists>c' U' L' old h. LRU_Insert c e key hash v chg del = Some (e, c') \<and> adds c c' e h
    \<and> fixed h = (v, del, key, hash, chg) \<and> cache_ok c' U' L' (cl(e := 1)) \<and> (usage c' \<le> capacity c \<or> L' = [])
    \<and> entry_of (mem c) (set U \<union> set L) hash key old
    \<and> U' = (if capacity c > 0 then remove1 old (U @ [e]) else U)
    \<and> (\<exists>us. L' = evict (capacity c) (charge_of (mem c)) us (if capacity c > 0 then remove1 old L else L))"
proof -
  define h where "h b = \<lparr>lh_value = v, lh_deleter = del, next_hash = 0, lh_next = 0, lh_prev = 0, charge = chg,
               in_cache = b, refs = (if b then 2 else 1), lh_hash = hash, key_data = key\<rparr>" for b
  obtain old where old: "entry_of (mem c) (set U \<union> set L) hash key old" unfolding entry_of_def by metis
  define L0 where "L0 = (if capacity c > 0 then remove1 old L else L)"
  define U0 where "U0 = (if capacity c > 0 then remove1 old (U @ [e]) else U)"
  have uniq: "old' = old" if "entry_of (mem c) (set U \<union> set L) hash key old'" for old'
    using that old cache_repD(2) [OF rep] by (auto simp: entry_of_def ht_rep_def inj_on_def split: if_splits)
  obtain c1 where c1: "LRU_Insert c e key hash v chg del = do {c2 \<leftarrow> Insert_evict c1; Some (e, c2)}"
      "adds c c1 e (h (capacity c > 0))" "cache_ok c1 U0 L0 (cl(e := 1))"
  proof (cases "capacity c > 0")
    case True
    have eq: "LRU_Insert c e key hash v chg del =
        do {c1 \<leftarrow> do {m1 \<leftarrow> LRU_Append ((mem c)(e \<mapsto> h True)) in_use_head e;
                 (old, m2, t) \<leftarrow> ht_Insert m1 (handles c) e;
                 (erased, c1) \<leftarrow> FinishErase (c\<lparr>mem := m2, handles := t, usage := usage c + chg\<rparr>) old;
                 Some c1};
            c2 \<leftarrow> Insert_evict c1; Some (e, c2)}"
      using True by (simp add: LRU_Insert_def Let_def h_def del: Option.bind_assoc)
    obtain c1 old' where "do {m1 \<leftarrow> LRU_Append ((mem c)(e \<mapsto> h True)) in_use_head e;
                 (old, m2, t) \<leftarrow> ht_Insert m1 (handles c) e;
                 (erased, c1) \<leftarrow> FinishErase (c\<lparr>mem := m2, handles := t, usage := usage c + chg\<rparr>) old;
                 Some c1} = Some c1" "entry_of (mem c) (set U \<union> set L) hash key old'" "adds c c1 e (h True)"
        "cache_ok c1 (remove1 old' (U @ [e])) (remove1 old' L) (cl(e := 1))"
      using LRU_Insert_cached [OF rep e room True, of "h True" v del chg hash key] by (auto simp: h_def)
    then show ?thesis using that [of c1] True uniq [of old']
      by (simp add: eq U0_def L0_def del: Option.bind_assoc)
  next
    case False
    then show ?thesis
      using that [of "c\<lparr>mem := (mem c)(e \<mapsto> h False)\<rparr>"] LRU_Insert_uncached [OF rep e, of "h False" v del chg hash key]
      by (auto simp: LRU_Insert_def Let_def U0_def L0_def h_def)
  qed
  let ?L = "evict (capacity c1) (charge_of (mem c1)) (usage c1) L0"
  obtain c' where c': "Insert_evict c1 = Some c'" "keeps c1 c'" "cache_ok c' U0 ?L (cl(e := 1))" "usage c' \<le> capacity c1 \<or> ?L = []"
    using Insert_evict_rep [OF c1(3)] by blast
  have eUL: "e \<notin> set U \<union> set L" using rep_entries [OF rep, of e] e(1) by (auto simp: entries_def)
  have "charge_of (mem c1) a = charge_of (mem c) a" if "a \<in> set L0" for a
  proof -
    have "a \<in> entries c1" using rep_entries [OF c1(3)] that by blast
    moreover have "a \<noteq> e" using that eUL by (auto simp: L0_def split: if_splits dest: notin_set_remove1)
    ultimately have "fixed_at c1 a = fixed_at c a" using c1(2) by (simp add: adds_def)
    then show ?thesis by (simp add: fixed_at_def fixed_def charge_of_def)
  qed
  then have "?L = evict (capacity c) (charge_of (mem c)) (usage c1) L0"
    using c1(2) by (auto simp: adds_def intro: evict_cong)
  moreover have "fixed (h b) = (v, del, key, hash, chg)" for b by (simp add: h_def fixed_def)
  moreover have "capacity c1 = capacity c" using c1(2) by (simp add: adds_def)
  ultimately show ?thesis
    using c' c1(1) adds_keeps [OF c1(2) c'(2)] old
    by (intro exI [of _ c'] exI [of _ U0] exI [of _ ?L] exI [of _ old] exI [of _ "h (capacity c > 0)"])
      (auto simp: U0_def L0_def)
qed

lemma LRU_Lookup_rep:
  assumes rep: "cache_ok c U L cl" and room: "\<And>a. cl a + 2 < 2 ^ 32"
  shows "\<exists>p c' U' L'. LRU_Lookup c key hash = Some (p, c') \<and> entry_of (mem c) (set U \<union> set L) hash key p \<and> keeps c c'
    \<and> entries c' = entries c \<and> cache_ok c' U' L' (if p = 0 then cl else cl(p := cl p + 1))"
proof -
  note D = cache_repD [OF rep]
  obtain p where p: "ht_Lookup (mem c) (handles c) key hash = Some p" "entry_of (mem c) (set U \<union> set L) hash key p"
    using ht_Lookup_rep [OF D(2) rep_readable [OF rep]] by blast
  show ?thesis
  proof (cases "p = 0")
    case True
    then show ?thesis using p rep by (auto simp: LRU_Lookup_def)
  next
    case False
    then have e: "p \<in> set U \<union> set L" using p(2) by (auto simp: entry_of_def split: if_splits)
    let ?U = "if cl p = 0 then U @ [p] else U"
    obtain c' where c': "LRU_Ref c p = Some c'" "keeps c c'" "entries c' = entries c"
        "cache_rep c' ?U (remove1 p L) (set U \<union> set L) (cl(p := cl p + 1))"
      using LRU_Ref_rep [OF rep e room] by blast
    have ent: "p \<in> entries c" by (rule rep_entries [OF rep e])
    have "set ?U \<union> set (remove1 p L) = set U \<union> set L"
    proof (cases "cl p = 0")
      case True
      then have "p \<in> set L" using D(4) [OF ent] e by (auto simp: cell_ok_def)
      then show ?thesis using True D(9) by auto
    next
      case False
      then have "p \<notin> set L" using D(4) [OF ent] by (auto simp: cell_ok_def)
      then show ?thesis using False by (simp add: remove1_idem)
    qed
    then show ?thesis using False p c'
      by (intro exI [of _ p] exI [of _ c'] exI [of _ ?U] exI [of _ "remove1 p L"]) (simp add: LRU_Lookup_def)
  qed
qed

lemma LRU_Release_rep:
  assumes rep: "cache_ok c U L cl" and e: "0 < cl e"
  shows "\<exists>c' U' L'. LRU_Release c e = Some c' \<and> keeps c c' \<and> cache_ok c' U' L' (cl(e := cl e - 1))
    \<and> entries c - {e} \<subseteq> entries c' \<and> (e \<notin> entries c' \<longrightarrow> cl e = 1)"
proof -
  let ?U = "if cl e = 1 then remove1 e U else U" and ?L = "if cl e = 1 \<and> e \<in> set U then L @ [e] else L"
  obtain c' where c': "LRU_Unref c e = Some c'" "keeps c c'" "cache_rep c' ?U ?L (set U \<union> set L) (cl(e := cl e - 1))"
      "entries c' = entries c - (if cl e = 1 \<and> e \<notin> set U then {e} else {})"
    using LRU_Unref_rep [OF rep e] by blast
  have "set ?U \<union> set ?L = set U \<union> set L"
    using cache_repD(9) [OF rep] by (cases "e \<in> set U") (auto simp: remove1_idem)
  moreover have "e \<in> entries c" using cache_repD(5) [OF rep, of e] e by auto
  ultimately show ?thesis using c'
    by (intro exI [of _ c'] exI [of _ ?U] exI [of _ ?L]) (auto simp: LRU_Release_def split: if_splits)
qed

lemma LRU_Erase_rep:
  assumes rep: "cache_ok c U L cl"
  shows "\<exists>c' U' L'. LRU_Erase c key hash = Some c' \<and> keeps c c' \<and> cache_ok c' U' L' cl"
proof -
  obtain p c' where "erase_entry c key hash = Some (p \<noteq> 0, c')" "keeps c c'" "cache_ok c' (remove1 p U) (remove1 p L) cl"
    using erase_entry_rep [OF rep, of key hash] by blast
  then show ?thesis
    by (intro exI [of _ c'] exI [of _ "remove1 p U"] exI [of _ "remove1 p L"]) (simp add: LRU_Erase_def)
qed

lemma rep_positive: "cache_ok c U L cl \<Longrightarrow> 0 < cl a \<Longrightarrow> a \<in> entries c"
  using cache_repD(5) by fastforce

lemma rep_elems: "cache_ok c U L cl \<Longrightarrow> unat (ht_elems (handles c)) = card (set U \<union> set L)"
proof -
  assume "cache_ok c U L cl"
  then have "ht_elems (handles c) = of_nat (card (set U \<union> set L)) \<and> card (set U \<union> set L) < 2 ^ 31"
    by (auto simp: cache_rep_def ht_rep_def)
  then show ?thesis by (simp add: unsigned_of_nat take_bit_nat_eq_self)
qed

lemma new_LRUCache_rep:
  "\<exists>c. new_LRUCache = Some c \<and> cache_ok (SetCapacity c cap) [] [] (\<lambda>a. 0) \<and> entries (SetCapacity c cap) = {}
     \<and> ledger (SetCapacity c cap) = {#} \<and> capacity (SetCapacity c cap) = cap \<and> usage (SetCapacity c cap) = 0"
proof -
  let ?m = "[lru_head \<mapsto> head_handle lru_head, in_use_head \<mapsto> head_handle in_use_head]"
  obtain t where t: "new_HandleTable = Some t" "ht_rep ?m t {}" using new_HandleTable_rep by blast
  let ?c = "\<lparr>capacity = 0, usage = 0, mem = ?m, handles = t, deleted = []\<rparr>"
  have ent: "entries (SetCapacity ?c cap) = {}" by (auto simp: entries_def SetCapacity_def)
  have "rings ?m [] []" by (simp add: rings_def ring_def link_def head_handle_def head_defs)
  then have "cache_ok (SetCapacity ?c cap) [] [] (\<lambda>a. 0)"
    using t(2) ent by (simp add: cache_rep_def SetCapacity_def head_defs)
  moreover have "ledger (SetCapacity ?c cap) = {#}" unfolding ledger_def ent by (simp add: SetCapacity_def)
  moreover have "new_LRUCache = Some ?c" unfolding new_LRUCache_def t(1) by simp
  ultimately show ?thesis using ent by (intro exI [of _ ?c]) (simp add: SetCapacity_def)
qed

end
