(* ===== verification/Cache.thy ===== *)
theory Cache
  imports LruCache
begin

text \<open>
  The sharded cache (\<open>util/cache.cc\<close>, \<open>include/leveldb/cache.h\<close>) and its clients: what a client sees of the
  handles it holds, and that every entry is passed to its deleter once.
\<close>

section \<open>The sharded cache\<close>

definition kNumShardBits :: nat where "kNumShardBits = 4"
definition kNumShards :: nat where "kNumShards = 2 ^ kNumShardBits"

record ShardedLRUCache =
  shard :: "LRUCache list"
  last_id :: u64

definition HashSlice :: "bytes \<Rightarrow> u32" where
  "HashSlice s = Hash s 0"

definition Shard :: "u32 \<Rightarrow> nat" where
  "Shard hash = unat (drop_bit (32 - kNumShardBits) hash)"

definition NewLRUCache :: "u64 \<Rightarrow> ShardedLRUCache option" where
  "NewLRUCache cap =
     do {c \<leftarrow> new_LRUCache;
         let per_shard = (cap + of_nat (kNumShards - 1)) div of_nat kNumShards;
         Some \<lparr>shard = map (\<lambda>s. SetCapacity c per_shard) [0..<kNumShards], last_id = 0\<rparr>}"

definition cache_Insert ::
  "ShardedLRUCache \<Rightarrow> ptr \<Rightarrow> bytes \<Rightarrow> ptr \<Rightarrow> u64 \<Rightarrow> ptr \<Rightarrow> (ptr \<times> ShardedLRUCache) option" where
  "cache_Insert s e key v chg del =
     (let hash = HashSlice key
      in do {(h, c) \<leftarrow> LRU_Insert (shard s ! Shard hash) e key hash v chg del;
             Some (h, s\<lparr>shard := (shard s)[Shard hash := c]\<rparr>)})"

definition cache_Lookup :: "ShardedLRUCache \<Rightarrow> bytes \<Rightarrow> (ptr \<times> ShardedLRUCache) option" where
  "cache_Lookup s key =
     (let hash = HashSlice key
      in do {(h, c) \<leftarrow> LRU_Lookup (shard s ! Shard hash) key hash;
             Some (h, s\<lparr>shard := (shard s)[Shard hash := c]\<rparr>)})"

text \<open>A handle is a pointer into the heap that all shards share: it is looked up in the shards' parts.\<close>

definition cache_cell :: "ShardedLRUCache \<Rightarrow> ptr \<Rightarrow> LRUHandle option" where
  "cache_cell s h = foldr (\<lambda>c r. case mem c h of None \<Rightarrow> r | Some x \<Rightarrow> Some x) (shard s) None"

definition cache_Release :: "ShardedLRUCache \<Rightarrow> ptr \<Rightarrow> ShardedLRUCache option" where
  "cache_Release s handle =
     do {h \<leftarrow> cache_cell s handle;
         c \<leftarrow> LRU_Release (shard s ! Shard (lh_hash h)) handle;
         Some (s\<lparr>shard := (shard s)[Shard (lh_hash h) := c]\<rparr>)}"

definition cache_Erase :: "ShardedLRUCache \<Rightarrow> bytes \<Rightarrow> ShardedLRUCache option" where
  "cache_Erase s key =
     (let hash = HashSlice key
      in do {c \<leftarrow> LRU_Erase (shard s ! Shard hash) key hash;
             Some (s\<lparr>shard := (shard s)[Shard hash := c]\<rparr>)})"

definition cache_Value :: "ShardedLRUCache \<Rightarrow> ptr \<Rightarrow> ptr option" where
  "cache_Value s handle = map_option lh_value (cache_cell s handle)"

definition cache_NewId :: "ShardedLRUCache \<Rightarrow> u64 \<times> ShardedLRUCache" where
  "cache_NewId s = (let i = last_id s + 1 in (i, s\<lparr>last_id := i\<rparr>))"

definition cache_Prune :: "ShardedLRUCache \<Rightarrow> ShardedLRUCache option" where
  "cache_Prune s =
     foldl (\<lambda>r i. do {s1 \<leftarrow> r; c \<leftarrow> LRU_Prune (shard s1 ! i); Some (s1\<lparr>shard := (shard s1)[i := c]\<rparr>)})
       (Some s) [0..<kNumShards]"

definition cache_TotalCharge :: "ShardedLRUCache \<Rightarrow> u64" where
  "cache_TotalCharge s = foldl (\<lambda>total c. total + LRU_TotalCharge c) 0 (shard s)"

section \<open>Clients\<close>

text \<open>
  A client's calls. \<open>held\<close> counts the references the client holds on each handle, \<open>made\<close> is the key, value
  and deleter given to the last \<open>Insert\<close> that returned the handle, and \<open>inserted\<close> lists all of them.
\<close>

datatype cache_op =
    Insert_op ptr bytes ptr u64 ptr
  | Lookup_op bytes
  | Release_op ptr
  | Erase_op bytes
  | Prune_op
  | NewId_op

record client =
  cache :: ShardedLRUCache
  held :: "ptr \<Rightarrow> nat"
  made :: "ptr \<rightharpoonup> bytes \<times> ptr"
  inserted :: "(ptr \<times> bytes \<times> ptr) list"

fun cache_exec :: "client \<Rightarrow> cache_op \<Rightarrow> client option" where
  "cache_exec s (Insert_op e key v chg del) =
     do {(h, c) \<leftarrow> cache_Insert (cache s) e key v chg del;
         Some (s\<lparr>cache := c, held := (held s)(h := held s h + 1), made := (made s)(h \<mapsto> (key, v)),
                inserted := inserted s @ [(del, key, v)]\<rparr>)}"
| "cache_exec s (Lookup_op key) =
     do {(h, c) \<leftarrow> cache_Lookup (cache s) key;
         Some (s\<lparr>cache := c, held := (if h = 0 then held s else (held s)(h := held s h + 1))\<rparr>)}"
| "cache_exec s (Release_op h) =
     do {c \<leftarrow> cache_Release (cache s) h; Some (s\<lparr>cache := c, held := (held s)(h := held s h - 1)\<rparr>)}"
| "cache_exec s (Erase_op key) = do {c \<leftarrow> cache_Erase (cache s) key; Some (s\<lparr>cache := c\<rparr>)}"
| "cache_exec s Prune_op = do {c \<leftarrow> cache_Prune (cache s); Some (s\<lparr>cache := c\<rparr>)}"
| "cache_exec s NewId_op = Some (s\<lparr>cache := snd (cache_NewId (cache s))\<rparr>)"

text \<open>
  What a client must keep to: a handle is released as often as it was returned. \<open>malloc\<close> returns memory
  that is not in use, the reference counts stay below their width, and so do the tables.
\<close>

fun cache_legal :: "client \<Rightarrow> cache_op \<Rightarrow> bool" where
  "cache_legal s (Insert_op e key v chg del) \<longleftrightarrow>
     e \<noteq> 0 \<and> cache_cell (cache s) e = None
     \<and> unat (ht_elems (handles (shard (cache s) ! Shard (HashSlice key)))) + 1 < 2 ^ 31"
| "cache_legal s (Lookup_op key) \<longleftrightarrow> (\<forall>h. held s h + 2 < 2 ^ 32)"
| "cache_legal s (Release_op h) \<longleftrightarrow> 0 < held s h"
| "cache_legal s op \<longleftrightarrow> True"

inductive cache_run :: "u64 \<Rightarrow> client \<Rightarrow> bool" for cap where
  start: "NewLRUCache cap = Some c \<Longrightarrow>
    cache_run cap \<lparr>cache = c, held = (\<lambda>h. 0), made = Map.empty, inserted = []\<rparr>"
| call: "cache_run cap s \<Longrightarrow> cache_legal s op \<Longrightarrow> cache_exec s op = Some s' \<Longrightarrow> cache_run cap s'"

definition shard_refs :: "(ptr \<Rightarrow> nat) \<Rightarrow> LRUCache \<Rightarrow> ptr \<Rightarrow> nat" where
  "shard_refs hold c a = (if a \<in> entries c then hold a else 0)"

text \<open>Every shard is well formed, a cell belongs to the shard of its hash only, and held handles exist.\<close>

definition shards_ok :: "ShardedLRUCache \<Rightarrow> (ptr \<Rightarrow> nat) \<Rightarrow> bool" where
  "shards_ok s hold \<longleftrightarrow>
     length (shard s) = kNumShards
     \<and> (\<forall>i<kNumShards. \<exists>U L. cache_ok (shard s ! i) U L (shard_refs hold (shard s ! i)))
     \<and> (\<forall>i<kNumShards. \<forall>a\<in>entries (shard s ! i).
          Shard (lh_hash (the (mem (shard s ! i) a))) = i
          \<and> lh_hash (the (mem (shard s ! i) a)) = HashSlice (key_data (the (mem (shard s ! i) a))))
     \<and> (\<forall>i<kNumShards. \<forall>j<kNumShards. i \<noteq> j \<longrightarrow> entries (shard s ! i) \<inter> entries (shard s ! j) = {})
     \<and> (\<forall>a. 0 < hold a \<longrightarrow> (\<exists>i<kNumShards. a \<in> entries (shard s ! i)))"

text \<open>After pruning no unused entry is left in the shards passed over.\<close>

definition pruned :: "ShardedLRUCache \<Rightarrow> (ptr \<Rightarrow> nat) \<Rightarrow> nat \<Rightarrow> bool" where
  "pruned s hold n \<longleftrightarrow> (\<forall>i<n. \<exists>U. cache_ok (shard s ! i) U [] (shard_refs hold (shard s ! i)))"

definition total_ledger :: "ShardedLRUCache \<Rightarrow> (ptr \<times> bytes \<times> ptr) multiset" where
  "total_ledger s = (\<Sum>c\<leftarrow>shard s. ledger c)"

definition all_deleted :: "ShardedLRUCache \<Rightarrow> (ptr \<times> bytes \<times> ptr) multiset" where
  "all_deleted s = (\<Sum>c\<leftarrow>shard s. mset (deleted c))"

definition client_ok :: "client \<Rightarrow> bool" where
  "client_ok s \<longleftrightarrow>
     shards_ok (cache s) (held s) \<and> total_ledger (cache s) = mset (inserted s)
     \<and> (\<forall>i<kNumShards. \<forall>a\<in>entries (shard (cache s) ! i).
          made s a = Some (key_data (the (mem (shard (cache s) ! i) a)), lh_value (the (mem (shard (cache s) ! i) a))))"

section \<open>Shards\<close>

lemma Shard_less: "Shard hash < kNumShards"
proof -
  have "unat (drop_bit 28 hash) < 2 ^ 4" using unat_less [of hash] by (intro word_below_drop_bit) simp
  then show ?thesis by (simp add: Shard_def kNumShards_def kNumShardBits_def)
qed

lemma shards_okD:
  assumes "shards_ok s hold" and "i < kNumShards"
  shows "\<exists>U L. cache_ok (shard s ! i) U L (shard_refs hold (shard s ! i))" and "length (shard s) = kNumShards"
    and "a \<in> entries (shard s ! i) \<Longrightarrow> Shard (lh_hash (the (mem (shard s ! i) a))) = i
      \<and> lh_hash (the (mem (shard s ! i) a)) = HashSlice (key_data (the (mem (shard s ! i) a)))"
    and "a \<in> entries (shard s ! i) \<Longrightarrow> j < kNumShards \<Longrightarrow> a \<in> entries (shard s ! j) \<Longrightarrow> j = i"
  using assms unfolding shards_ok_def by blast+

text \<open>Replacing a shard by one whose entries are its own, unchanged, or new to all shards.\<close>

lemma shards_update:
  assumes ok: "shards_ok s hold" and i: "i < kNumShards" and c': "cache_ok c' U L (shard_refs hold' c')"
    and ents: "\<And>a. a \<in> entries c' \<Longrightarrow>
      (if a \<in> entries (shard s ! i) then fixed_at c' a = fixed_at (shard s ! i) a
       else (\<forall>j<kNumShards. a \<notin> entries (shard s ! j)) \<and> Shard (lh_hash (the (mem c' a))) = i
         \<and> lh_hash (the (mem c' a)) = HashSlice (key_data (the (mem c' a))))"
    and other: "\<And>a j. j < kNumShards \<Longrightarrow> j \<noteq> i \<Longrightarrow> a \<in> entries (shard s ! j) \<Longrightarrow> hold' a = hold a"
    and pos: "\<And>a. 0 < hold' a \<Longrightarrow> a \<in> entries c' \<or> (\<exists>j<kNumShards. j \<noteq> i \<and> a \<in> entries (shard s ! j))"
  shows "shards_ok (s\<lparr>shard := (shard s)[i := c']\<rparr>) hold'"
proof -
  note D = shards_okD [OF ok]
  let ?s = "s\<lparr>shard := (shard s)[i := c']\<rparr>"
  have nth: "shard ?s ! j = (if j = i then c' else shard s ! j)" if "j < kNumShards" for j
    using D(2) [OF i] that i by (simp add: nth_list_update)
  have "\<exists>U L. cache_ok (shard ?s ! j) U L (shard_refs hold' (shard ?s ! j))" if j: "j < kNumShards" for j
  proof (cases "j = i")
    case True
    then show ?thesis using c' nth [OF j] by auto
  next
    case False
    then have "shard_refs hold' (shard s ! j) = shard_refs hold (shard s ! j)"
      using other [OF j False] by (auto simp: shard_refs_def)
    then show ?thesis using D(1) [OF j] nth [OF j] False by simp
  qed
  moreover have "Shard (lh_hash (the (mem (shard ?s ! j) a))) = j
      \<and> lh_hash (the (mem (shard ?s ! j) a)) = HashSlice (key_data (the (mem (shard ?s ! j) a)))"
    if j: "j < kNumShards" and a: "a \<in> entries (shard ?s ! j)" for j a
    using nth [OF j] a ents [of a] D(3) [OF j, of a] by (cases "j = i") (auto simp: fixed_at_def fixed_def split: if_splits)
  moreover have "entries (shard ?s ! j) \<inter> entries (shard ?s ! k) = {}"
    if jk: "j < kNumShards" "k < kNumShards" "j \<noteq> k" for j k
  proof -
    have disj: "entries c' \<inter> entries (shard s ! l) = {}" if l: "l < kNumShards" "l \<noteq> i" for l
      using ents D(4) [OF l(1)] i l by (fastforce split: if_splits)
    have "entries (shard s ! j) \<inter> entries (shard s ! k) = {}" using D(4) [OF jk(1)] jk by blast
    then show ?thesis using disj [of j] disj [of k] nth [OF jk(1)] nth [OF jk(2)] jk by auto
  qed
  moreover have "\<exists>j<kNumShards. a \<in> entries (shard ?s ! j)" if "0 < hold' a" for a
    using pos [OF that] i nth by metis
  moreover have "length (shard ?s) = kNumShards" using D(2) [OF i] by simp
  ultimately show ?thesis unfolding shards_ok_def by blast
qed

lemma cache_cell_None: "cache_cell s a = None \<longleftrightarrow> (\<forall>c\<in>set (shard s). mem c a = None)"
proof -
  have "foldr (\<lambda>c r. case mem c a of None \<Rightarrow> r | Some x \<Rightarrow> Some x) cs None = None \<longleftrightarrow> (\<forall>c\<in>set cs. mem c a = None)" for cs
    by (induction cs) (auto split: option.splits)
  then show ?thesis by (simp add: cache_cell_def)
qed

lemma cache_cell_Some:
  "\<forall>c\<in>set (shard s). mem c a = None \<or> mem c a = Some h \<Longrightarrow> c \<in> set (shard s) \<Longrightarrow> mem c a = Some h \<Longrightarrow> cache_cell s a = Some h"
proof -
  have "foldr (\<lambda>c r. case mem c a of None \<Rightarrow> r | Some x \<Rightarrow> Some x) cs None = Some h"
    if "\<forall>c\<in>set cs. mem c a = None \<or> mem c a = Some h" "\<exists>c\<in>set cs. mem c a = Some h" for cs
    using that by (induction cs) (auto split: option.splits)
  then show "\<forall>c\<in>set (shard s). mem c a = None \<or> mem c a = Some h \<Longrightarrow> c \<in> set (shard s) \<Longrightarrow> mem c a = Some h \<Longrightarrow> cache_cell s a = Some h"
    by (auto simp: cache_cell_def)
qed

lemma cache_cell_entries:
  assumes ok: "shards_ok s hold" and i: "i < kNumShards" and a: "a \<in> entries (shard s ! i)"
  shows "cache_cell s a = mem (shard s ! i) a"
proof -
  note D = shards_okD [OF ok i]
  obtain h where h: "mem (shard s ! i) a = Some h" using a by (auto simp: entries_def)
  have "mem c a = None \<or> mem c a = Some h" if "c \<in> set (shard s)" for c
  proof -
    obtain j where j: "j < kNumShards" "c = shard s ! j" using \<open>c \<in> set (shard s)\<close> D(2) by (auto simp: in_set_conv_nth)
    then show ?thesis using D(4) [OF a j(1)] h a by (auto simp: entries_def)
  qed
  then show ?thesis using cache_cell_Some [of s a h "shard s ! i"] h i D(2) by simp
qed

lemma sum_list_nth_update:
  fixes f :: "'a \<Rightarrow> 'b multiset"
  assumes "i < length xs"
  shows "(\<Sum>x\<leftarrow>xs[i := y]. f x) + f (xs ! i) = (\<Sum>x\<leftarrow>xs. f x) + f y"
proof -
  have "(\<Sum>x\<leftarrow>xs. f x) = (\<Sum>x\<leftarrow>take i xs @ xs ! i # drop (Suc i) xs. f x)"
    using id_take_nth_drop [OF assms] by simp
  then show ?thesis using assms by (simp add: upd_conv_take_nth_drop)
qed

lemma client_update:
  assumes ok: "client_ok s" and i: "i < kNumShards"
    and c': "cache_ok c' U L (shard_refs hold' c')" and k: "keeps (shard (cache s) ! i) c'"
    and other: "\<And>a j. j < kNumShards \<Longrightarrow> j \<noteq> i \<Longrightarrow> a \<in> entries (shard (cache s) ! j) \<Longrightarrow> hold' a = held s a"
    and pos: "\<And>a. 0 < hold' a \<Longrightarrow> a \<in> entries c' \<or> (\<exists>j<kNumShards. j \<noteq> i \<and> a \<in> entries (shard (cache s) ! j))"
  shows "client_ok (s\<lparr>cache := (cache s)\<lparr>shard := (shard (cache s))[i := c']\<rparr>, held := hold'\<rparr>)"
proof -
  let ?s = "(cache s)\<lparr>shard := (shard (cache s))[i := c']\<rparr>"
  have sh: "shards_ok (cache s) (held s)" using ok by (simp add: client_ok_def)
  note D = shards_okD [OF sh]
  have sub: "entries c' \<subseteq> entries (shard (cache s) ! i)" and fx: "\<And>a. a \<in> entries c' \<Longrightarrow> fixed_at c' a = fixed_at (shard (cache s) ! i) a"
    and led: "ledger c' = ledger (shard (cache s) ! i)" using k by (auto simp: keeps_def)
  have "shards_ok ?s hold'"
    by (rule shards_update [OF sh i c']) (use sub fx other pos in auto)
  moreover have "total_ledger ?s = total_ledger (cache s)"
    using sum_list_nth_update [of i "shard (cache s)" ledger c'] led D(2) [OF i] i by (simp add: total_ledger_def)
  moreover have "made s a = Some (key_data (the (mem (shard ?s ! j) a)), lh_value (the (mem (shard ?s ! j) a)))"
    if j: "j < kNumShards" "a \<in> entries (shard ?s ! j)" for a j
  proof (cases "j = i")
    case True
    then have a: "a \<in> entries c'" using j D(2) [OF i] by simp
    then show ?thesis using ok i sub fx [OF a] True j D(2) [OF i] by (auto simp: client_ok_def fixed_at_def fixed_def)
  next
    case False
    then show ?thesis using ok j by (simp add: client_ok_def)
  qed
  ultimately show ?thesis using ok by (simp add: client_ok_def)
qed

lemma client_ok_shard:
  assumes "client_ok s" and "i < kNumShards"
  obtains U L where "cache_ok (shard (cache s) ! i) U L (shard_refs (held s) (shard (cache s) ! i))"
  using shards_okD(1) [of "cache s" "held s" i] assms by (auto simp: client_ok_def)

lemma client_held:
  assumes "client_ok s" and "0 < held s a"
  obtains i where "i < kNumShards" and "a \<in> entries (shard (cache s) ! i)"
  using assms unfolding client_ok_def shards_ok_def by blast

lemma exec_Lookup:
  assumes ok: "client_ok s" and legal: "\<forall>h. held s h + 2 < 2 ^ 32"
  shows "\<exists>s'. cache_exec s (Lookup_op key) = Some s' \<and> client_ok s'
    \<and> (\<forall>h c. cache_Lookup (cache s) key = Some (h, c) \<longrightarrow> h \<noteq> 0 \<longrightarrow> (\<exists>v. made s h = Some (key, v)))"
proof -
  let ?i = "Shard (HashSlice key)"
  let ?c = "shard (cache s) ! ?i"
  have i: "?i < kNumShards" by (rule Shard_less)
  obtain U L where rep: "cache_ok ?c U L (shard_refs (held s) ?c)" using client_ok_shard [OF ok i] .
  have "shard_refs (held s) ?c a + 2 < 2 ^ 32" for a using legal by (simp add: shard_refs_def)
  then obtain p c' U' L' where l: "LRU_Lookup ?c key (HashSlice key) = Some (p, c')"
      "entry_of (mem ?c) (set U \<union> set L) (HashSlice key) key p" "keeps ?c c'" "entries c' = entries ?c"
      "cache_ok c' U' L' (if p = 0 then shard_refs (held s) ?c else (shard_refs (held s) ?c)(p := shard_refs (held s) ?c p + 1))"
    using LRU_Lookup_rep [OF rep] by metis
  let ?h = "if p = 0 then held s else (held s)(p := held s p + 1)"
  have p: "p \<in> entries ?c \<and> ident (mem ?c) p = (HashSlice key, key)" if "p \<noteq> 0"
    using l(2) that rep_entries [OF rep, of p] by (auto simp: entry_of_def split: if_splits)
  have eq: "(if p = 0 then shard_refs (held s) ?c else (shard_refs (held s) ?c)(p := shard_refs (held s) ?c p + 1)) = shard_refs ?h c'"
    using p l(4) by (auto simp: shard_refs_def fun_eq_iff)
  have rep': "cache_ok c' U' L' (shard_refs ?h c')" using l(5) unfolding eq .
  have sh: "shards_ok (cache s) (held s)" using ok by (simp add: client_ok_def)
  have "client_ok (s\<lparr>cache := (cache s)\<lparr>shard := (shard (cache s))[?i := c']\<rparr>, held := ?h\<rparr>)"
  proof (rule client_update [OF ok i rep' l(3)])
    show "?h a = held s a" if "j < kNumShards" "j \<noteq> ?i" "a \<in> entries (shard (cache s) ! j)" for a j
      using that p shards_okD(4) [OF sh i, of p j] by auto
    show "a \<in> entries c' \<or> (\<exists>j<kNumShards. j \<noteq> ?i \<and> a \<in> entries (shard (cache s) ! j))" if "0 < ?h a" for a
    proof (cases "a = p \<and> p \<noteq> 0")
      case True
      then show ?thesis using p l(4) by simp
    next
      case False
      then have "0 < held s a" using that by (simp split: if_splits)
      then obtain j where "j < kNumShards" "a \<in> entries (shard (cache s) ! j)" by (rule client_held [OF ok])
      then show ?thesis using l(4) by (cases "j = ?i") auto
    qed
  qed
  moreover have "made s p = Some (key, lh_value (the (mem ?c p)))" if "p \<noteq> 0"
    using ok i p [OF that] by (auto simp: client_ok_def ident_def entries_def)
  ultimately show ?thesis using l(1) by (auto simp: cache_Lookup_def Let_def)
qed

lemma exec_Release:
  assumes ok: "client_ok s" and legal: "0 < held s h"
  shows "\<exists>s'. cache_exec s (Release_op h) = Some s' \<and> client_ok s'"
proof -
  have sh: "shards_ok (cache s) (held s)" using ok by (simp add: client_ok_def)
  obtain i where i: "i < kNumShards" "h \<in> entries (shard (cache s) ! i)" by (rule client_held [OF ok legal])
  let ?c = "shard (cache s) ! i"
  obtain x where x: "mem ?c h = Some x" "cache_cell (cache s) h = Some x" "Shard (lh_hash x) = i"
    using cache_cell_entries [OF sh i] shards_okD(3) [OF sh i] i(2) by (auto simp: entries_def)
  obtain U L where rep: "cache_ok ?c U L (shard_refs (held s) ?c)" using client_ok_shard [OF ok i(1)] .
  have pos: "0 < shard_refs (held s) ?c h" using legal i(2) by (simp add: shard_refs_def)
  obtain c' U' L' where r: "LRU_Release ?c h = Some c'" "keeps ?c c'"
      "cache_ok c' U' L' ((shard_refs (held s) ?c)(h := shard_refs (held s) ?c h - 1))"
      "entries ?c - {h} \<subseteq> entries c'" "h \<notin> entries c' \<longrightarrow> shard_refs (held s) ?c h = 1"
    using LRU_Release_rep [OF rep pos] by blast
  let ?h = "(held s)(h := held s h - 1)"
  have eq: "(shard_refs (held s) ?c)(h := shard_refs (held s) ?c h - 1) = shard_refs ?h c'"
    using r(2,4,5) i(2) by (auto simp: shard_refs_def fun_eq_iff keeps_def)
  have rep': "cache_ok c' U' L' (shard_refs ?h c')" using r(3) unfolding eq .
  have "client_ok (s\<lparr>cache := (cache s)\<lparr>shard := (shard (cache s))[i := c']\<rparr>, held := ?h\<rparr>)"
  proof (rule client_update [OF ok i(1) rep' r(2)])
    show "?h a = held s a" if "j < kNumShards" "j \<noteq> i" "a \<in> entries (shard (cache s) ! j)" for a j
      using that shards_okD(4) [OF sh i, of j] by auto
    show "a \<in> entries c' \<or> (\<exists>j<kNumShards. j \<noteq> i \<and> a \<in> entries (shard (cache s) ! j))" if a: "0 < ?h a" for a
    proof -
      have "0 < held s a" using a by (simp split: if_splits)
      then obtain j where j: "j < kNumShards" "a \<in> entries (shard (cache s) ! j)" by (rule client_held [OF ok])
      show ?thesis
      proof (cases "j = i")
        case True
        then have "0 < shard_refs ?h c' a" using j(2) a unfolding eq [symmetric] by (auto simp: shard_refs_def split: if_splits)
        then show ?thesis by (simp add: shard_refs_def split: if_splits)
      qed (use j in blast)
    qed
  qed
  then show ?thesis using r(1) x by (auto simp: cache_Release_def)
qed

text \<open>Operations that change no reference count.\<close>

lemma shard_refs_keeps:
  assumes "cache_ok c' U L (shard_refs hold c)" and "keeps c c'"
  shows "shard_refs hold c = shard_refs hold c'"
proof
  fix a
  show "shard_refs hold c a = shard_refs hold c' a"
  proof (cases "a \<in> entries c'")
    case True
    then show ?thesis using assms(2) by (auto simp: shard_refs_def keeps_def)
  next
    case False
    then show ?thesis using cache_repD(5) [OF assms(1) False] by (simp add: shard_refs_def)
  qed
qed

lemma client_replace:
  assumes ok: "client_ok s" and i: "i < kNumShards"
    and c': "cache_ok c' U' L' (shard_refs (held s) (shard (cache s) ! i))" and k: "keeps (shard (cache s) ! i) c'"
  shows "client_ok (s\<lparr>cache := (cache s)\<lparr>shard := (shard (cache s))[i := c']\<rparr>\<rparr>)"
proof -
  let ?c = "shard (cache s) ! i"
  have eq: "shard_refs (held s) ?c = shard_refs (held s) c'" by (rule shard_refs_keeps [OF c' k])
  have "client_ok (s\<lparr>cache := (cache s)\<lparr>shard := (shard (cache s))[i := c']\<rparr>, held := held s\<rparr>)"
  proof (rule client_update [OF ok i _ k])
    show "cache_ok c' U' L' (shard_refs (held s) c')" using c' unfolding eq .
    show "a \<in> entries c' \<or> (\<exists>j<kNumShards. j \<noteq> i \<and> a \<in> entries (shard (cache s) ! j))" if a: "0 < held s a" for a
    proof -
      obtain j where j: "j < kNumShards" "a \<in> entries (shard (cache s) ! j)" using a by (rule client_held [OF ok])
      then show ?thesis using rep_positive [OF c', of a] a by (cases "j = i") (auto simp: shard_refs_def)
    qed
  qed simp
  then show ?thesis by simp
qed

lemma exec_Erase:
  assumes ok: "client_ok s"
  shows "\<exists>s'. cache_exec s (Erase_op key) = Some s' \<and> client_ok s'"
proof -
  let ?i = "Shard (HashSlice key)"
  have i: "?i < kNumShards" by (rule Shard_less)
  obtain U L where rep: "cache_ok (shard (cache s) ! ?i) U L (shard_refs (held s) (shard (cache s) ! ?i))" using client_ok_shard [OF ok i] .
  obtain c' U' L' where c': "LRU_Erase (shard (cache s) ! ?i) key (HashSlice key) = Some c'" "keeps (shard (cache s) ! ?i) c'"
      "cache_ok c' U' L' (shard_refs (held s) (shard (cache s) ! ?i))" using LRU_Erase_rep [OF rep] by blast
  then show ?thesis using client_replace [OF ok i c'(3,2)] by (simp add: cache_Erase_def Let_def)
qed

lemma Prune_loop:
  assumes ok: "client_ok s" and n: "n \<le> kNumShards"
  shows "\<exists>c. foldl (\<lambda>r i. do {s1 \<leftarrow> r; c \<leftarrow> LRU_Prune (shard s1 ! i); Some (s1\<lparr>shard := (shard s1)[i := c]\<rparr>)}) (Some (cache s)) [0..<n]
    = Some c \<and> client_ok (s\<lparr>cache := c\<rparr>) \<and> pruned c (held s) n"
  using n
proof (induction n)
  case 0
  then show ?case using ok by (simp add: pruned_def)
next
  case (Suc n)
  then obtain c where c: "foldl (\<lambda>r i. do {s1 \<leftarrow> r; c \<leftarrow> LRU_Prune (shard s1 ! i); Some (s1\<lparr>shard := (shard s1)[i := c]\<rparr>)})
      (Some (cache s)) [0..<n] = Some c" "client_ok (s\<lparr>cache := c\<rparr>)" "pruned c (held s) n" by auto
  have i: "n < kNumShards" using Suc.prems by simp
  obtain U L where rep: "cache_ok (shard c ! n) U L (shard_refs (held s) (shard c ! n))"
    using client_ok_shard [OF c(2) i] by auto
  obtain c' where c': "LRU_Prune (shard c ! n) = Some c'" "keeps (shard c ! n) c'" "cache_ok c' U [] (shard_refs (held s) (shard c ! n))"
    using LRU_Prune_rep [OF rep] by blast
  let ?c = "c\<lparr>shard := (shard c)[n := c']\<rparr>"
  have "client_ok (s\<lparr>cache := ?c\<rparr>)" using client_replace [OF c(2) i, of c' U "[]"] c'(2,3) by simp
  moreover have "pruned ?c (held s) (Suc n)"
  proof -
    have len: "length (shard c) = kNumShards" using c(2) by (simp add: client_ok_def shards_ok_def)
    have eq: "shard_refs (held s) (shard c ! n) = shard_refs (held s) c'" by (rule shard_refs_keeps [OF c'(3,2)])
    then have "cache_ok c' U [] (shard_refs (held s) c')" using c'(3) by simp
    then show ?thesis using c(3) len i unfolding pruned_def by (auto simp: less_Suc_eq nth_list_update)
  qed
  ultimately show ?case using c(1) c'(1) by simp
qed

lemma exec_Prune:
  assumes ok: "client_ok s"
  shows "\<exists>c. cache_exec s Prune_op = Some (s\<lparr>cache := c\<rparr>) \<and> client_ok (s\<lparr>cache := c\<rparr>) \<and> pruned c (held s) kNumShards"
  using Prune_loop [OF ok, of kNumShards] by (auto simp: cache_Prune_def)

lemma exec_Insert:
  assumes ok: "client_ok s" and legal: "cache_legal s (Insert_op e key v chg del)"
  shows "\<exists>s' c'. cache_exec s (Insert_op e key v chg del) = Some s' \<and> client_ok s'
    \<and> cache_Insert (cache s) e key v chg del = Some (e, cache s') \<and> c' = shard (cache s') ! Shard (HashSlice key)
    \<and> (\<exists>U L. cache_ok c' U L (shard_refs (held s') c') \<and> (usage c' \<le> capacity c' \<or> L = [])
       \<and> (capacity c' > 0 \<longrightarrow> e \<in> set U))"
proof -
  let ?i = "Shard (HashSlice key)"
  let ?c = "shard (cache s) ! ?i"
  have i: "?i < kNumShards" by (rule Shard_less)
  have sh: "shards_ok (cache s) (held s)" using ok by (simp add: client_ok_def)
  note D = shards_okD [OF sh]
  have e: "e \<noteq> 0" "\<And>j. j < kNumShards \<Longrightarrow> e \<notin> dom (mem (shard (cache s) ! j))"
    using legal D(2) [OF i] by (auto simp: cache_cell_None)
  obtain U L where rep: "cache_ok ?c U L (shard_refs (held s) ?c)" using client_ok_shard [OF ok i] .
  have room: "card (set U \<union> set L) + 1 < 2 ^ 31" using legal rep_elems [OF rep] by simp
  obtain c' U' L' old h where I: "LRU_Insert ?c e key (HashSlice key) v chg del = Some (e, c')" "adds ?c c' e h"
      "fixed h = (v, del, key, HashSlice key, chg)" "cache_ok c' U' L' ((shard_refs (held s) ?c)(e := 1))"
      "usage c' \<le> capacity ?c \<or> L' = []" "entry_of (mem ?c) (set U \<union> set L) (HashSlice key) key old"
      "U' = (if capacity ?c > 0 then remove1 old (U @ [e]) else U)"
    using LRU_Insert_rep [OF rep e(2) [OF i] e(1) room] by metis
  let ?h = "(held s)(e := held s e + 1)" and ?s = "(cache s)\<lparr>shard := (shard (cache s))[?i := c']\<rparr>"
  have he: "held s e = 0" using client_held [OF ok, of e] e(2) by (auto simp: entries_def)
  have ee: "e \<in> entries c'" using rep_positive [OF I(4), of e] by simp
  have sub: "entries c' \<subseteq> insert e (entries ?c)" and fx: "\<And>a. a \<in> entries c' \<Longrightarrow> a \<noteq> e \<Longrightarrow> fixed_at c' a = fixed_at ?c a"
    and fe: "fixed_at c' e = fixed h" and cap: "capacity c' = capacity ?c" and led: "ledger c' = add_mset (info h) (ledger ?c)"
    using I(2) ee by (auto simp: adds_def)
  have eq: "(shard_refs (held s) ?c)(e := 1) = shard_refs ?h c'"
  proof
    fix a
    show "((shard_refs (held s) ?c)(e := 1)) a = shard_refs ?h c' a"
      using cache_repD(5) [OF I(4), of a] sub ee he by (cases "a \<in> entries c'") (auto simp: shard_refs_def)
  qed
  have rep': "cache_ok c' U' L' (shard_refs ?h c')" using I(4) unfolding eq .
  have ne: "e \<notin> entries (shard (cache s) ! j)" if "j < kNumShards" for j using e(2) [OF that] by (auto simp: entries_def)
  have "shards_ok ?s ?h"
  proof (rule shards_update [OF sh i rep'])
    show "if a \<in> entries ?c then fixed_at c' a = fixed_at ?c a
       else (\<forall>j<kNumShards. a \<notin> entries (shard (cache s) ! j)) \<and> Shard (lh_hash (the (mem c' a))) = ?i
         \<and> lh_hash (the (mem c' a)) = HashSlice (key_data (the (mem c' a)))" if "a \<in> entries c'" for a
      using that sub fx [of a] fe ne I(3) i by (cases "a = e") (auto simp: fixed_at_def fixed_def)
    show "?h a = held s a" if "j < kNumShards" "j \<noteq> ?i" "a \<in> entries (shard (cache s) ! j)" for a j
      using that ne by auto
    show "a \<in> entries c' \<or> (\<exists>j<kNumShards. j \<noteq> ?i \<and> a \<in> entries (shard (cache s) ! j))" if a: "0 < ?h a" for a
    proof (cases "a = e")
      case True
      then show ?thesis using ee by simp
    next
      case False
      then have "0 < held s a" using a by simp
      then obtain j where j: "j < kNumShards" "a \<in> entries (shard (cache s) ! j)" by (rule client_held [OF ok])
      then show ?thesis using rep_positive [OF I(4), of a] False \<open>0 < held s a\<close> by (cases "j = ?i") (auto simp: shard_refs_def)
    qed
  qed
  moreover have "total_ledger ?s = add_mset (info h) (total_ledger (cache s))"
    using sum_list_nth_update [of ?i "shard (cache s)" ledger c'] led D(2) [OF i] i by (simp add: total_ledger_def)
  moreover have "((made s)(e \<mapsto> (key, v))) a = Some (key_data (the (mem (shard ?s ! j) a)), lh_value (the (mem (shard ?s ! j) a)))"
    if j: "j < kNumShards" "a \<in> entries (shard ?s ! j)" for a j
  proof (cases "a = e")
    case True
    then have "j = ?i" using j ne by (cases "j = ?i") auto
    then show ?thesis using True fe I(3) D(2) [OF i] i by (simp add: fixed_at_def fixed_def)
  next
    case False
    show ?thesis
    proof (cases "j = ?i")
      case True
      then have a: "a \<in> entries c'" using j D(2) [OF i] by simp
      then show ?thesis using ok i sub fx [OF a False] False True D(2) [OF i] by (auto simp: client_ok_def fixed_at_def fixed_def)
    next
      case neq: False
      then show ?thesis using ok j False by (simp add: client_ok_def)
    qed
  qed
  moreover have "info h = (del, key, v)" using I(3) by (simp add: fixed_def info_def)
  ultimately have "client_ok (s\<lparr>cache := ?s, held := ?h, made := (made s)(e \<mapsto> (key, v)), inserted := inserted s @ [(del, key, v)]\<rparr>)"
    using ok by (simp add: client_ok_def)
  moreover have "capacity c' > 0 \<longrightarrow> e \<in> set U'"
  proof
    assume "capacity c' > 0"
    have "e \<noteq> old" using I(6) e(1) rep_entries [OF rep, of e] ne [OF i] by (auto simp: entry_of_def split: if_splits)
    then show "e \<in> set U'" using I(7) cap \<open>capacity c' > 0\<close> by (simp add: in_set_remove1)
  qed
  ultimately show ?thesis
    using I(1,5) rep' cap D(2) [OF i] i
    by (intro exI [of _ "s\<lparr>cache := ?s, held := ?h, made := (made s)(e \<mapsto> (key, v)), inserted := inserted s @ [(del, key, v)]\<rparr>"]
        exI [of _ c']) (auto simp: cache_Insert_def Let_def)
qed

lemma client_step:
  assumes ok: "client_ok s" and legal: "cache_legal s op"
  shows "\<exists>s'. cache_exec s op = Some s' \<and> client_ok s'"
proof (cases op)
  case (Insert_op e key v chg del)
  then show ?thesis using exec_Insert [OF ok, of e key v chg del] legal by metis
next
  case (Lookup_op key)
  then show ?thesis using exec_Lookup [OF ok, of key] legal by auto
next
  case (Release_op h)
  then show ?thesis using exec_Release [OF ok] legal by simp
next
  case (Erase_op key)
  then show ?thesis using exec_Erase [OF ok] by simp
next
  case Prune_op
  then show ?thesis using exec_Prune [OF ok] by auto
next
  case NewId_op
  have "client_ok (s\<lparr>cache := c\<rparr>) = client_ok s" if "shard c = shard (cache s)" for c
    by (simp add: client_ok_def shards_ok_def total_ledger_def that)
  then show ?thesis using NewId_op ok by (simp add: cache_NewId_def Let_def)
qed

lemma client_start:
  "\<exists>c. NewLRUCache cap = Some c \<and> client_ok \<lparr>cache = c, held = (\<lambda>h. 0), made = Map.empty, inserted = []\<rparr>
     \<and> (\<forall>i<kNumShards. entries (shard c ! i) = {} \<and> ht_elems (handles (shard c ! i)) = 0
         \<and> capacity (shard c ! i) = (cap + of_nat (kNumShards - 1)) div of_nat kNumShards)"
proof -
  let ?p = "(cap + of_nat (kNumShards - 1)) div of_nat kNumShards :: u64"
  obtain c where c: "new_LRUCache = Some c" "cache_ok (SetCapacity c ?p) [] [] (\<lambda>a. 0)" "entries (SetCapacity c ?p) = {}"
      "ledger (SetCapacity c ?p) = {#}" "capacity (SetCapacity c ?p) = ?p"
    using new_LRUCache_rep by blast
  let ?s = "\<lparr>shard = map (\<lambda>s. SetCapacity c ?p) [0..<kNumShards], last_id = 0\<rparr>"
  have new: "NewLRUCache cap = Some ?s" unfolding NewLRUCache_def c(1) by (simp add: Let_def)
  have nth: "shard ?s ! i = SetCapacity c ?p" if "i < kNumShards" for i using that by simp
  have refs: "shard_refs (\<lambda>h. 0) d = (\<lambda>a. 0)" for d by (simp add: shard_refs_def fun_eq_iff)
  have "shards_ok ?s (\<lambda>h. 0)"
    unfolding shards_ok_def
  proof (intro conjI allI impI)
    show "\<exists>U L. cache_ok (shard ?s ! i) U L (shard_refs (\<lambda>h. 0) (shard ?s ! i))" if "i < kNumShards" for i
      using c(2) nth [OF that] refs by metis
  qed (use nth c(3) in auto)
  moreover have "total_ledger ?s = {#}"
  proof -
    have "(\<Sum>x\<leftarrow>xs. ledger (SetCapacity c ?p)) = {#}" for xs :: "nat list" using c(4) by (induction xs) simp_all
    then show ?thesis by (simp add: total_ledger_def comp_def)
  qed
  moreover have "ht_elems (handles (SetCapacity c ?p)) = 0" using rep_elems [OF c(2)] by (simp add: unsigned_eq_0_iff)
  ultimately show ?thesis using new nth c(3,5) by (intro exI [of _ ?s]) (auto simp: client_ok_def)
qed

lemma run_ok: "cache_run cap s \<Longrightarrow> client_ok s"
proof (induction rule: cache_run.induct)
  case (start c)
  then show ?case using client_start [of cap] by auto
next
  case (call s op s')
  then show ?case using client_step [of s op] by auto
qed

lemma total_ledger_deleted:
  assumes "\<And>i. i < length (shard s) \<Longrightarrow> entries (shard s ! i) = {}"
  shows "total_ledger s = all_deleted s"
proof -
  have "ledger c = mset (deleted c)" if "c \<in> set (shard s)" for c
  proof -
    have "entries c = {}" using assms that by (auto simp: in_set_conv_nth)
    then show ?thesis unfolding ledger_def by simp
  qed
  then show ?thesis unfolding total_ledger_def all_deleted_def by (intro arg_cong [where f = sum_list] map_cong) auto
qed

lemma unused_empty:
  assumes "cache_ok c U [] (\<lambda>a. 0)"
  shows "entries c = {}"
proof -
  note D = cache_repD [OF assms]
  have "U = []"
  proof (rule ccontr)
    assume "U \<noteq> []"
    then have "hd U \<in> entries c" "hd U \<in> set U" using rep_entries [OF assms] by auto
    then show False using D(4) [of "hd U"] by (simp add: cell_ok_def)
  qed
  then show ?thesis using D(4) by (auto simp: cell_ok_def)
qed

lemma all_deleted_subset: "all_deleted s \<subseteq># total_ledger s"
proof -
  have "mset (deleted c) \<subseteq># ledger c" for c by (simp add: ledger_def)
  then have "(\<Sum>c\<leftarrow>cs. mset (deleted c)) \<subseteq># (\<Sum>c\<leftarrow>cs. ledger c)" for cs
    by (induction cs) (simp_all add: subset_mset.add_mono)
  then show ?thesis by (simp add: all_deleted_def total_ledger_def)
qed

lemma rep_usage:
  assumes "cache_ok c U L cl"
  shows "usage c = (\<Sum>a | a \<in> entries c \<and> in_cache (the (mem c a)). charge (the (mem c a)))"
proof -
  note D = cache_repD [OF assms]
  have "{a. a \<in> entries c \<and> in_cache (the (mem c a))} = set (U @ L)"
    using D(4) rep_entries [OF assms] by (auto simp: cell_ok_def)
  moreover have "usage c = (\<Sum>a\<in>set (U @ L). charge (the (mem c a)))"
  proof -
    have "distinct (U @ L)" using D(9) by simp
    then have "usage c = (\<Sum>a\<in>set (U @ L). charge_of (mem c) a)"
      using D(8) sum_list_distinct_conv_sum_set [of "U @ L" "charge_of (mem c)"] by (simp only:)
    then show ?thesis by (simp add: charge_of_def)
  qed
  ultimately show ?thesis by simp
qed

lemma lookup_present:
  assumes ok: "cache_ok c U L cl" and e: "e \<in> set U" "ident (mem c) e = (hash, key)" and room: "\<And>a. cl a + 2 < 2 ^ 32"
  shows "\<exists>c'. LRU_Lookup c key hash = Some (e, c')"
proof -
  obtain p c' where l: "LRU_Lookup c key hash = Some (p, c')" "entry_of (mem c) (set U \<union> set L) hash key p"
    using LRU_Lookup_rep [OF ok room] by blast
  have "p \<in> set U \<union> set L" "ident (mem c) p = ident (mem c) e" using l(2) e by (auto simp: entry_of_def split: if_splits)
  then have "p = e" using cache_repD(2) [OF ok] e(1) inj_onD [of "ident (mem c)" "set U \<union> set L" p e] by (simp add: ht_rep_def)
  then show ?thesis using l(1) by blast
qed

section \<open>What a client can rely on\<close>

text \<open>C12.
  In every state a client can reach by calls that release a handle only as often as it was returned, every
  further such call returns: no pointer that is null or freed is followed, no assertion fails, and no loop
  runs forever. A handle the client holds has the value it was inserted with, whatever was evicted or erased
  meanwhile, and a lookup returns the handle of an entry inserted under the key.
\<close>
theorem cache_handles_safe:
  assumes "cache_run cap s"
  shows "(\<forall>op. cache_legal s op \<longrightarrow> cache_exec s op \<noteq> None)
    \<and> (\<forall>h. 0 < held s h \<longrightarrow> made s h \<noteq> None \<and> cache_Value (cache s) h = map_option snd (made s h))
    \<and> (\<forall>key h c. cache_legal s (Lookup_op key) \<longrightarrow> cache_Lookup (cache s) key = Some (h, c) \<longrightarrow> h \<noteq> 0
         \<longrightarrow> (\<exists>v. made s h = Some (key, v)))"
proof -
  have ok: "client_ok s" by (rule run_ok [OF assms])
  have sh: "shards_ok (cache s) (held s)" using ok by (simp add: client_ok_def)
  have "made s h \<noteq> None \<and> cache_Value (cache s) h = map_option snd (made s h)" if h: "0 < held s h" for h
  proof -
    obtain i where i: "i < kNumShards" "h \<in> entries (shard (cache s) ! i)" by (rule client_held [OF ok h])
    have "made s h = Some (key_data (the (mem (shard (cache s) ! i) h)), lh_value (the (mem (shard (cache s) ! i) h)))"
      using ok i by (simp add: client_ok_def)
    moreover have "mem (shard (cache s) ! i) h \<noteq> None" using i(2) by (auto simp: entries_def)
    ultimately show ?thesis using cache_cell_entries [OF sh i] by (auto simp: cache_Value_def)
  qed
  moreover have "cache_exec s op \<noteq> None" if "cache_legal s op" for op using client_step [OF ok that] by auto
  moreover have "\<exists>v. made s h = Some (key, v)"
    if "cache_legal s (Lookup_op key)" "cache_Lookup (cache s) key = Some (h, c)" "h \<noteq> 0" for key h c
    using exec_Lookup [OF ok, of key] that by auto
  ultimately show ?thesis by blast
qed

text \<open>C13.
  Every inserted entry is passed to its deleter at most once, and once the clients have released their
  handles and the cache is pruned, each has been passed to it exactly once: nothing leaks.
\<close>
theorem cache_entries_deleted_once:
  assumes "cache_run cap s"
  shows "all_deleted (cache s) \<subseteq># mset (inserted s)
    \<and> ((\<forall>h. held s h = 0) \<longrightarrow> (\<exists>s'. cache_exec s Prune_op = Some s' \<and> all_deleted (cache s') = mset (inserted s)))"
proof -
  have ok: "client_ok s" by (rule run_ok [OF assms])
  have led: "total_ledger (cache s) = mset (inserted s)" using ok by (simp add: client_ok_def)
  have "\<exists>s'. cache_exec s Prune_op = Some s' \<and> all_deleted (cache s') = mset (inserted s)" if z: "\<forall>h. held s h = 0"
  proof -
    obtain c where c: "cache_exec s Prune_op = Some (s\<lparr>cache := c\<rparr>)" "client_ok (s\<lparr>cache := c\<rparr>)" "pruned c (held s) kNumShards"
      using exec_Prune [OF ok] by blast
    have "shard_refs (held s) d = (\<lambda>a. 0)" for d using z by (simp add: shard_refs_def fun_eq_iff)
    then have "entries (shard c ! i) = {}" if "i < kNumShards" for i
      using c(3) that unused_empty by (auto simp: pruned_def)
    moreover have "length (shard c) = kNumShards" using c(2) by (simp add: client_ok_def shards_ok_def)
    ultimately have "total_ledger c = all_deleted c" by (intro total_ledger_deleted) simp
    then show ?thesis using c(1,2) by (simp add: client_ok_def)
  qed
  then show ?thesis using all_deleted_subset [of "cache s"] led by auto
qed


text \<open>A client that has inserted an entry into an empty cache.\<close>

lemma fresh_cell:
  assumes "client_ok \<lparr>cache = c, held = hold, made = md, inserted = ins\<rparr>"
    and "\<forall>i<kNumShards. entries (shard c ! i) = {} \<and> P i" and "a \<noteq> lru_head" and "a \<noteq> in_use_head"
  shows "cache_cell c a = None"
proof -
  have len: "length (shard c) = kNumShards" using assms(1) by (simp add: client_ok_def shards_ok_def)
  have "mem d a = None" if d: "d \<in> set (shard c)" for d
  proof -
    obtain j where "j < kNumShards" "d = shard c ! j" using d len by (auto simp: in_set_conv_nth)
    then have "a \<notin> entries d" using assms(2) by auto
    then show ?thesis using assms(3,4) by (auto simp: entries_def)
  qed
  then show ?thesis by (simp add: cache_cell_None)
qed

lemma run_example:
  obtains s where "cache_run 100 s" and "held s = (\<lambda>h. 0)(5 := 1)" and "made s 5 = Some ([7], 9)" and "inserted s = [(3, [7], 9)]"
proof -
  obtain c where c: "NewLRUCache 100 = Some c" "client_ok \<lparr>cache = c, held = (\<lambda>h. 0), made = Map.empty, inserted = []\<rparr>"
      "\<forall>i<kNumShards. entries (shard c ! i) = {} \<and> ht_elems (handles (shard c ! i)) = 0
         \<and> capacity (shard c ! i) = (100 + of_nat (kNumShards - 1)) div of_nat kNumShards"
    using client_start [of 100] by blast
  let ?s = "\<lparr>cache = c, held = (\<lambda>h. 0), made = Map.empty, inserted = []\<rparr>"
  have "cache_cell c 5 = None" by (rule fresh_cell [OF c(2,3)]) (simp_all add: head_defs)
  then have legal: "cache_legal ?s (Insert_op 5 [7] 9 2 3)" using c(3) Shard_less by simp
  obtain s' where s': "cache_exec ?s (Insert_op 5 [7] 9 2 3) = Some s'" "cache_Insert c 5 [7] 9 2 3 = Some (5, cache s')"
    using exec_Insert [OF c(2) legal] by auto
  have run: "cache_run 100 s'" by (rule cache_run.call [OF cache_run.start [OF c(1)] legal s'(1)])
  have eq: "s' = ?s\<lparr>cache := cache s', held := (\<lambda>h. 0)(5 := 1), made := [5 \<mapsto> ([7], 9)], inserted := [(3, [7], 9)]\<rparr>"
    using s' by simp
  have "held s' = (\<lambda>h. 0)(5 := 1)" "made s' = [5 \<mapsto> ([7], 9)]" "inserted s' = [(3, [7], 9)]"
    by (subst eq, simp)+
  then show ?thesis using run that [of s'] by simp
qed

theorem cache_handles_safe_witness:
  "\<exists>s. cache_run 100 s \<and> 0 < held s 5 \<and> cache_legal s (Release_op 5) \<and> cache_exec s (Release_op 5) \<noteq> None
     \<and> cache_Value (cache s) 5 = Some 9"
proof -
  obtain s where s: "cache_run 100 s" "held s = (\<lambda>h. 0)(5 := 1)" "made s 5 = Some ([7], 9)" by (rule run_example)
  have "cache_legal s (Release_op 5)" "0 < held s 5" using s(2) by simp_all
  then show ?thesis using cache_handles_safe [OF s(1)] s(1,3) by (intro exI [of _ s]) (metis option.simps(9) snd_conv)
qed

theorem cache_entries_deleted_once_witness:
  "\<exists>s s'. cache_run 100 s \<and> (\<forall>h. held s h = 0) \<and> cache_exec s Prune_op = Some s' \<and> all_deleted (cache s') = {#(3, [7], 9)#}"
proof -
  obtain s where s: "cache_run 100 s" "held s = (\<lambda>h. 0)(5 := 1)" "inserted s = [(3, [7], 9)]" by (rule run_example)
  have legal: "cache_legal s (Release_op 5)" using s(2) by simp
  obtain s1 where s1: "cache_exec s (Release_op 5) = Some s1" using client_step [OF run_ok [OF s(1)] legal] by blast
  have "\<forall>h. held s1 h = 0" "inserted s1 = [(3, [7], 9)]" using s1 s by (auto simp: bind_eq_Some_conv)
  moreover have "cache_run 100 s1" by (rule cache_run.call [OF s(1) legal s1])
  ultimately show ?thesis using cache_entries_deleted_once [of 100 s1] by (metis mset.simps)
qed


end
