(* ===== verification/Options.thy ===== *)
theory Options
  imports Dbformat Bloom
begin

text \<open>
  The objects a client configures a database with: comparators and filter policies
  (\<open>include/leveldb/comparator.h\<close>, \<open>filter_policy.h\<close>), each a record of its virtual methods, the wrappers the
  database puts around them (\<open>db/dbformat.h\<close>), and \<open>Options\<close>, \<open>ReadOptions\<close> and \<open>WriteOptions\<close>
  (\<open>include/leveldb/options.h\<close>). The comparator of an \<open>Options\<close> is compared by address; the field
  \<open>cmp_address\<close> stands for it.
\<close>

section \<open>Comparators and filter policies\<close>

record Comparator =
  cmp_address :: nat
  cmp_Name :: bytes
  cmp_Compare :: "bytes \<Rightarrow> bytes \<Rightarrow> int"
  cmp_FindShortestSeparator :: "bytes \<Rightarrow> bytes \<Rightarrow> bytes"
  cmp_FindShortSuccessor :: "bytes \<Rightarrow> bytes"

definition BytewiseComparator :: "nat \<Rightarrow> Comparator" where
  "BytewiseComparator address =
     \<lparr>cmp_address = address, cmp_Name = lit ''leveldb.BytewiseComparator'', cmp_Compare = slice_compare,
      cmp_FindShortestSeparator = Bytewise_FindShortestSeparator, cmp_FindShortSuccessor = Bytewise_FindShortSuccessor\<rparr>"

definition InternalKeyComparator :: "nat \<Rightarrow> Comparator \<Rightarrow> Comparator" where
  "InternalKeyComparator address c =
     \<lparr>cmp_address = address, cmp_Name = lit ''leveldb.InternalKeyComparator'',
      cmp_Compare = InternalKey_Compare (cmp_Compare c),
      cmp_FindShortestSeparator = InternalKey_FindShortestSeparator (cmp_Compare c) (cmp_FindShortestSeparator c),
      cmp_FindShortSuccessor = InternalKey_FindShortSuccessor (cmp_Compare c) (cmp_FindShortSuccessor c)\<rparr>"

record FilterPolicy =
  fp_Name :: bytes
  fp_CreateFilter :: "bytes list \<Rightarrow> bytes \<Rightarrow> bytes"
  fp_KeyMayMatch :: "bytes \<Rightarrow> bytes \<Rightarrow> bool"

definition BloomPolicy :: "nat \<Rightarrow> FilterPolicy" where
  "BloomPolicy bits =
     \<lparr>fp_Name = lit ''leveldb.BuiltinBloomFilter2'', fp_CreateFilter = CreateFilter (NewBloomFilterPolicy bits),
      fp_KeyMayMatch = Bloom_KeyMayMatch\<rparr>"

definition InternalFilterPolicy :: "FilterPolicy \<Rightarrow> FilterPolicy" where
  "InternalFilterPolicy p =
     \<lparr>fp_Name = fp_Name p, fp_CreateFilter = InternalFilter_CreateFilter (fp_CreateFilter p),
      fp_KeyMayMatch = InternalFilter_KeyMayMatch (fp_KeyMayMatch p)\<rparr>"

section \<open>Options\<close>

datatype CompressionType = kNoCompression | kSnappyCompression

fun compression_byte :: "CompressionType \<Rightarrow> byte" where
  "compression_byte kNoCompression = 0"
| "compression_byte kSnappyCompression = 1"

text \<open>\<open>env\<close>, \<open>info_log\<close> and \<open>block_cache\<close> point to objects with a state; an operation that uses one takes its state.\<close>

record Options =
  opt_comparator :: Comparator
  create_if_missing :: bool
  error_if_exists :: bool
  paranoid_checks :: bool
  write_buffer_size :: nat
  max_open_files :: int
  block_size :: nat
  block_restart_interval :: nat
  max_file_size :: nat
  compression :: CompressionType
  reuse_logs :: bool
  opt_filter_policy :: "FilterPolicy option"

definition new_Options :: "nat \<Rightarrow> Options" where
  "new_Options bytewise_address =
     \<lparr>opt_comparator = BytewiseComparator bytewise_address, create_if_missing = False, error_if_exists = False,
      paranoid_checks = False, write_buffer_size = 4 * 1024 * 1024, max_open_files = 1000, block_size = 4 * 1024,
      block_restart_interval = 16, max_file_size = 2 * 1024 * 1024, compression = kSnappyCompression,
      reuse_logs = False, opt_filter_policy = None\<rparr>"

record ReadOptions =
  verify_checksums :: bool
  fill_cache :: bool
  read_snapshot :: "u64 option"

definition new_ReadOptions :: ReadOptions where
  "new_ReadOptions = \<lparr>verify_checksums = False, fill_cache = True, read_snapshot = None\<rparr>"

record WriteOptions =
  sync :: bool

definition new_WriteOptions :: WriteOptions where
  "new_WriteOptions = \<lparr>sync = False\<rparr>"

section \<open>Options of a database\<close>

text \<open>
  \<open>SanitizeOptions\<close>, but for the info log and the block cache it creates. The bounds are of type \<open>int\<close>, and the option is
  cast to their type: \<open>cast\<close> is that conversion, from \<open>size_t\<close> to the 32 bits of an \<open>int\<close> or the identity.
\<close>

definition size_to_int :: "int \<Rightarrow> int" where
  "size_to_int n = sint (word_of_int n :: 32 word)"

definition ClipToRange :: "(int \<Rightarrow> int) \<Rightarrow> int \<Rightarrow> int \<Rightarrow> int \<Rightarrow> int" where
  "ClipToRange cast ptr minvalue maxvalue =
     (let ptr = (if cast ptr > maxvalue then maxvalue else ptr)
      in if cast ptr < minvalue then minvalue else ptr)"

definition clip_size :: "nat \<Rightarrow> int \<Rightarrow> int \<Rightarrow> nat" where
  "clip_size n minvalue maxvalue = nat (ClipToRange size_to_int (int n) minvalue maxvalue)"

definition kNumNonTableCacheFiles :: int where
  "kNumNonTableCacheFiles = 10"

definition SanitizeOptions :: "Comparator \<Rightarrow> FilterPolicy \<Rightarrow> Options \<Rightarrow> Options" where
  "SanitizeOptions icmp ipolicy src =
     src\<lparr>opt_comparator := icmp,
         opt_filter_policy := (if opt_filter_policy src \<noteq> None then Some ipolicy else None),
         max_open_files := ClipToRange (\<lambda>n. n) (max_open_files src) (64 + kNumNonTableCacheFiles) 50000,
         write_buffer_size := clip_size (write_buffer_size src) (64 * 2 ^ 10) (2 ^ 30),
         max_file_size := clip_size (max_file_size src) (2 ^ 20) (2 ^ 30),
         block_size := clip_size (block_size src) (2 ^ 10) (4 * 2 ^ 20)\<rparr>"

definition TableCacheSize :: "Options \<Rightarrow> int" where
  "TableCacheSize sanitized_options = max_open_files sanitized_options - kNumNonTableCacheFiles"

section \<open>The keys of a table\<close>

text \<open>
  What a table relies on. Keys with the same \<open>part\<close> are those a filter does not tell apart: the key itself, or
  the user key of an internal key. A separator that is not the key it separates has a part of its own: a key
  at or below it and a key at or above the limit differ in their parts. The shortened keys are not longer.
\<close>

locale table_keys = separators cmp sep succ
  for cmp :: "bytes \<Rightarrow> bytes \<Rightarrow> int" and sep succ +
  fixes part :: "bytes \<Rightarrow> bytes"
  assumes sep_part: "cmp a b < 0 \<Longrightarrow> sep a b \<noteq> a \<Longrightarrow> cmp t (sep a b) \<le> 0 \<Longrightarrow> cmp b e \<le> 0 \<Longrightarrow> part t \<noteq> part e"
    and sep_length: "length (sep a b) \<le> length a"
    and succ_length: "length (succ a) \<le> length a"

locale part_filter =
  fixes create :: "bytes list \<Rightarrow> bytes \<Rightarrow> bytes" and may_match :: "bytes \<Rightarrow> bytes \<Rightarrow> bool" and part :: "bytes \<Rightarrow> bytes"
  assumes part_append: "create keys dst = dst @ create keys []"
    and part_match: "k \<in> set keys \<Longrightarrow> part k = part key \<Longrightarrow> may_match key (create keys [])"

text \<open>A policy that tells no key apart from itself is the case of the whole key.\<close>

sublocale part_filter \<subseteq> filter_policy create may_match
  by unfold_locales (rule part_append, rule part_match [OF _ refl])

lemma Bytewise_successor_length: "length (Bytewise_FindShortSuccessor a) \<le> length a"
  by (induction a rule: Bytewise_FindShortSuccessor.induct) auto

interpretation bytewise_keys: table_keys slice_compare Bytewise_FindShortestSeparator Bytewise_FindShortSuccessor "\<lambda>k. k"
proof
  fix a b t e
  assume a: "slice_compare a b < 0" "slice_compare t (Bytewise_FindShortestSeparator a b) \<le> 0" "slice_compare b e \<le> 0"
  show "t \<noteq> e"
    using bytewise.cmp_less_le_trans [OF bytewise.cmp_le_less_trans [OF a(2) bytewise.separator_less [OF a(1)]] a(3)] by auto
qed (rule Bytewise_separator_length Bytewise_successor_length)+

interpretation bloom_part: part_filter "CreateFilter (NewBloomFilterPolicy bits)" Bloom_KeyMayMatch "\<lambda>k. k"
  by unfold_locales (rule bloom.create_append, simp add: bloom.create_match)

text \<open>Internal keys: the part is the user key.\<close>

sublocale user_separators \<subseteq> internal_keys: table_keys "InternalKey_Compare ucmp"
  "InternalKey_FindShortestSeparator ucmp usep" "InternalKey_FindShortSuccessor ucmp usucc" ExtractUserKey
proof -
  have "length (InternalKey_FindShortestSeparator ucmp usep a b) \<le> length a" for a b
    by (auto simp: InternalKey_FindShortestSeparator_def Let_def PutFixed64_def ExtractUserKey_def)
  moreover have "length (InternalKey_FindShortSuccessor ucmp usucc a) \<le> length a" for a
    by (auto simp: InternalKey_FindShortSuccessor_def Let_def PutFixed64_def ExtractUserKey_def)
  moreover have "ExtractUserKey t \<noteq> ExtractUserKey e"
    if "InternalKey_Compare ucmp a b < 0" "InternalKey_FindShortestSeparator ucmp usep a b \<noteq> a"
      "InternalKey_Compare ucmp t (InternalKey_FindShortestSeparator ucmp usep a b) \<le> 0" "InternalKey_Compare ucmp b e \<le> 0"
    for a b t e
  proof -
    let ?tmp = "usep (ExtractUserKey a) (ExtractUserKey b)"
    have s: "InternalKey_FindShortestSeparator ucmp usep a b = ?tmp @ EncodeFixed64 (PackSequenceAndType kMaxSequenceNumber kValueTypeForSeek)"
      "ucmp (ExtractUserKey a) ?tmp < 0"
      using that(2) by (auto simp: InternalKey_FindShortestSeparator_def Let_def PutFixed64_def split: if_splits)
    then have ab: "ucmp (ExtractUserKey a) (ExtractUserKey b) < 0" using separator_idle by fastforce
    have "ucmp (ExtractUserKey t) ?tmp \<le> 0" using that(3) unfolding s(1) ikey_cmp_le by auto
    moreover have "ucmp (ExtractUserKey b) (ExtractUserKey e) \<le> 0" using that(4) unfolding ikey_cmp_le by auto
    ultimately show ?thesis
      using cmp_less_le_trans [OF cmp_le_less_trans [OF _ separator_less [OF ab]]] by force
  qed
  ultimately show "table_keys (InternalKey_Compare ucmp) (InternalKey_FindShortestSeparator ucmp usep)
      (InternalKey_FindShortSuccessor ucmp usucc) ExtractUserKey"
    using ikey_separators by (simp add: table_keys_def table_keys_axioms_def)
qed

text \<open>A filter of user keys, wrapped for internal keys.\<close>

context filter_policy
begin

lemma internal_filter: "part_filter (InternalFilter_CreateFilter create) (InternalFilter_KeyMayMatch may_match) ExtractUserKey"
proof
  show "InternalFilter_CreateFilter create keys dst = dst @ InternalFilter_CreateFilter create keys []" for keys dst
    unfolding InternalFilter_CreateFilter_def by (rule create_append)
  show "InternalFilter_KeyMayMatch may_match key (InternalFilter_CreateFilter create keys [])"
    if "k \<in> set keys" "ExtractUserKey k = ExtractUserKey key" for k keys key
    using create_match [of "ExtractUserKey key" "map ExtractUserKey keys"] that imageI [of k "set keys" ExtractUserKey]
    by (simp add: InternalFilter_CreateFilter_def InternalFilter_KeyMayMatch_def)
qed

end

interpretation bloom_internal: part_filter "InternalFilter_CreateFilter (CreateFilter (NewBloomFilterPolicy bits))"
  "InternalFilter_KeyMayMatch Bloom_KeyMayMatch" ExtractUserKey
  by (rule bloom.internal_filter)

section \<open>Clipping\<close>

lemma clip_size_small:
  assumes n: "n < 2 ^ 31" and "0 \<le> lo" "lo \<le> hi" "hi < 2 ^ 31"
  shows "clip_size n lo hi = (if hi < int n then nat hi else if int n < lo then nat lo else n)"
proof -
  have c: "size_to_int x = x" if "0 \<le> x" "x < 2 ^ 31" for x
    using that by (simp add: size_to_int_def sint_sbintrunc' signed_take_bit_int_eq_self)
  show ?thesis using assms c [of "int n"] c [of hi] by (auto simp: clip_size_def ClipToRange_def)
qed

lemma clip_size_wraps: "clip_size (2 ^ 32 + 2 ^ 16) (64 * 2 ^ 10) (2 ^ 30) = 2 ^ 32 + 2 ^ 16"
  by (simp add: clip_size_def ClipToRange_def size_to_int_def)

section \<open>Properties\<close>

text \<open>
  C25. Sanitized options are within their bounds when each size is below 2 GiB, whatever the user passed: the write buffer, the file
  size and the block size are clipped to their ranges, the file limit leaves room for the table cache, and the database
  compares and filters internal keys. A size of 4 GiB or more may stay as it is: it is cast to an \<open>int\<close> first.
\<close>

theorem sanitize_bounds:
  assumes "write_buffer_size src < 2 ^ 31" and "max_file_size src < 2 ^ 31" and "block_size src < 2 ^ 31"
    and opt: "opt = SanitizeOptions icmp ipolicy src"
  shows "write_buffer_size opt \<in> {2 ^ 16..2 ^ 30} \<and> max_file_size opt \<in> {2 ^ 20..2 ^ 30} \<and> block_size opt \<in> {2 ^ 10..2 ^ 22}
    \<and> max_open_files opt \<in> {74..50000} \<and> TableCacheSize opt \<in> {64..49990} \<and> opt_comparator opt = icmp
    \<and> opt_filter_policy opt = map_option (\<lambda>_. ipolicy) (opt_filter_policy src)
    \<and> write_buffer_size (SanitizeOptions icmp ipolicy (src\<lparr>write_buffer_size := 2 ^ 32 + 2 ^ 16\<rparr>)) = 2 ^ 32 + 2 ^ 16"
  unfolding opt using assms(1-3)
  by (auto simp: SanitizeOptions_def clip_size_small TableCacheSize_def kNumNonTableCacheFiles_def ClipToRange_def Let_def clip_size_wraps [simplified])

theorem sanitize_bounds_witness:
  "write_buffer_size (SanitizeOptions (BytewiseComparator 1) (BloomPolicy 10) ((new_Options 1)\<lparr>write_buffer_size := 3\<rparr>)) \<in> {2 ^ 16..2 ^ 30}"
  using sanitize_bounds [OF _ _ _ refl, of "(new_Options 1)\<lparr>write_buffer_size := 3\<rparr>" "BytewiseComparator 1" "BloomPolicy 10"]
  by (simp add: new_Options_def)

end
