(* ===== verification/TableFormat.thy ===== *)
theory TableFormat
  imports Options Block Crc32c MemEnv
begin

text \<open>
  \<open>table/format.h\<close> and \<open>table/format.cc\<close>: block handles, the footer of a table and the reading of a stored block.
  A \<open>RandomAccessFile\<close> is its \<open>Read\<close> method: the status, the bytes and whether they lie outside the scratch buffer
  the caller passed. Snappy is a library behind \<open>port/port.h\<close>; its three functions are the fields of a record.
  Offsets and sizes keep their 64 bits, where the fields of a corrupt file can make them wrap. \<open>None\<close> stands for
  a read outside a buffer.
\<close>

section \<open>Handles and the footer\<close>

definition kMaxEncodedLength :: nat where "kMaxEncodedLength = 10 + 10"

record BlockHandle =
  bh_offset :: u64
  bh_size :: u64

definition new_BlockHandle :: BlockHandle where
  "new_BlockHandle = \<lparr>bh_offset = - 1, bh_size = - 1\<rparr>"

text \<open>The assertions of \<open>EncodeTo\<close> are the predicate \<open>bh_is_set\<close>.\<close>

definition bh_is_set :: "BlockHandle \<Rightarrow> bool" where
  "bh_is_set h \<longleftrightarrow> bh_offset h \<noteq> - 1 \<and> bh_size h \<noteq> - 1"

definition bh_EncodeTo :: "BlockHandle \<Rightarrow> bytes \<Rightarrow> bytes" where
  "bh_EncodeTo h dst = PutVarint64 (PutVarint64 dst (bh_offset h)) (bh_size h)"

definition bh_DecodeFrom :: "bytes \<Rightarrow> status + BlockHandle \<times> bytes" where
  "bh_DecodeFrom input =
     (case GetVarint64 input of
        None \<Rightarrow> Inl (Corruption ''bad block handle'')
      | Some (pos, input1) \<Rightarrow>
          (case GetVarint64 input1 of
             None \<Rightarrow> Inl (Corruption ''bad block handle'')
           | Some (sz, input2) \<Rightarrow> Inr (\<lparr>bh_offset = pos, bh_size = sz\<rparr>, input2)))"

definition kFooterLength :: nat where "kFooterLength = 2 * kMaxEncodedLength + 8"

definition kTableMagicNumber :: u64 where "kTableMagicNumber = 0xdb4775248b80fb57"

definition kBlockTrailerSize :: nat where "kBlockTrailerSize = 5"

record Footer =
  metaindex_handle :: BlockHandle
  index_handle :: BlockHandle

definition string_resize :: "bytes \<Rightarrow> nat \<Rightarrow> bytes" where
  "string_resize s n = take n s @ replicate (n - length s) 0"

text \<open>The encoding and whether its last assertion holds.\<close>

definition Footer_EncodeTo :: "Footer \<Rightarrow> bytes \<Rightarrow> bytes \<times> bool" where
  "Footer_EncodeTo f dst =
     (let original_size = length dst;
          dst = bh_EncodeTo (metaindex_handle f) dst;
          dst = bh_EncodeTo (index_handle f) dst;
          dst = string_resize dst (2 * kMaxEncodedLength);
          dst = PutFixed32 dst (ucast (kTableMagicNumber AND 0xffffffff));
          dst = PutFixed32 dst (ucast (drop_bit 32 kTableMagicNumber))
      in (dst, length dst = original_size + kFooterLength))"

definition Footer_DecodeFrom :: "bytes \<Rightarrow> (status + Footer \<times> bytes) option" where
  "Footer_DecodeFrom input =
     (if length input < kFooterLength then None
      else
        let magic_ptr = drop (kFooterLength - 8) input;
            magic_lo = DecodeFixed32 magic_ptr;
            magic_hi = DecodeFixed32 (drop 4 magic_ptr);
            magic = push_bit 32 (ucast magic_hi) OR ucast magic_lo
        in Some (if magic \<noteq> kTableMagicNumber then Inl (Corruption ''not an sstable (bad magic number)'')
                 else case bh_DecodeFrom input of
                        Inl s \<Rightarrow> Inl s
                      | Inr (m, input1) \<Rightarrow>
                          (case bh_DecodeFrom input1 of
                             Inl s \<Rightarrow> Inl s
                           | Inr (i, input2) \<Rightarrow>
                               Inr (\<lparr>metaindex_handle = m, index_handle = i\<rparr>, drop kFooterLength input))))"

section \<open>Reading a block\<close>

type_synonym RandomAccessFile = "u64 \<Rightarrow> nat \<Rightarrow> status \<times> bytes \<times> bool"

record Snappy =
  Snappy_Compress :: "bytes \<Rightarrow> bytes option"
  Snappy_GetUncompressedLength :: "bytes \<Rightarrow> nat option"
  Snappy_Uncompress :: "bytes \<Rightarrow> bytes option"

record BlockContents =
  bc_data :: bytes
  cachable :: bool
  heap_allocated :: bool

definition ReadBlock_checksum :: "bytes \<Rightarrow> u64 \<Rightarrow> bool option" where
  "ReadBlock_checksum data n =
     (if length data < unat (n + 1) + 4 then None
      else Some (crc_Value (take (unat (n + 1)) data) = Unmask (DecodeFixed32 (drop (unat (n + 1)) data))))"

definition ReadBlock_contents :: "Snappy \<Rightarrow> bytes \<Rightarrow> u64 \<Rightarrow> bool \<Rightarrow> (status + BlockContents) option" where
  "ReadBlock_contents sn data n outside =
     (if length data \<le> unat n then None
      else Some
        (if data ! unat n = compression_byte kNoCompression then
           Inr \<lparr>bc_data = take (unat n) data, cachable = \<not> outside, heap_allocated = \<not> outside\<rparr>
         else if data ! unat n = compression_byte kSnappyCompression then
           (case Snappy_GetUncompressedLength sn (take (unat n) data) of
              None \<Rightarrow> Inl (Corruption ''corrupted compressed block contents'')
            | Some ulength \<Rightarrow>
                (case Snappy_Uncompress sn (take (unat n) data) of
                   None \<Rightarrow> Inl (Corruption ''corrupted compressed block contents'')
                 | Some ubuf \<Rightarrow> Inr \<lparr>bc_data = take ulength ubuf, cachable = True, heap_allocated = True\<rparr>))
         else Inl (Corruption ''bad block type'')))"

definition ReadBlock :: "Snappy \<Rightarrow> RandomAccessFile \<Rightarrow> ReadOptions \<Rightarrow> BlockHandle \<Rightarrow> (status + BlockContents) option" where
  "ReadBlock sn rd options handle =
     (let n = bh_size handle;
          (s, contents, outside) = rd (bh_offset handle) (unat (n + of_nat kBlockTrailerSize))
      in if \<not> status_ok s then Some (Inl s)
         else if length contents \<noteq> unat (n + of_nat kBlockTrailerSize) then Some (Inl (Corruption ''truncated block read''))
         else if verify_checksums options then
           (case ReadBlock_checksum contents n of
              None \<Rightarrow> None
            | Some False \<Rightarrow> Some (Inl (Corruption ''block checksum mismatch''))
            | Some True \<Rightarrow> ReadBlock_contents sn contents n outside)
         else ReadBlock_contents sn contents n outside)"

section \<open>The interfaces\<close>

text \<open>A file with contents that a reader reads, and a compressor that gives back what was put in.\<close>

definition mem_random_access :: "FileState \<Rightarrow> RandomAccessFile" where
  "mem_random_access f offset n = (case fs_Read f (unat offset) n of (s, r) \<Rightarrow> (s, r, False))"

locale random_access_file =
  fixes rd :: "'f \<Rightarrow> RandomAccessFile" and contents :: "'f \<Rightarrow> bytes" and ra_ok :: "'f \<Rightarrow> bool"
  assumes rd_inside: "ra_ok f \<Longrightarrow> unat pos + n \<le> length (contents f) \<Longrightarrow>
    \<exists>outside. rd f pos n = (OK, take n (drop (unat pos) (contents f)), outside)"

definition snappy_ok :: "Snappy \<Rightarrow> bool" where
  "snappy_ok sn \<longleftrightarrow> (\<forall>raw c. Snappy_Compress sn raw = Some c \<longrightarrow>
     Snappy_GetUncompressedLength sn c = Some (length raw) \<and> Snappy_Uncompress sn c = Some raw)"

text \<open>A build without Snappy.\<close>

definition no_Snappy :: Snappy where
  "no_Snappy = \<lparr>Snappy_Compress = (\<lambda>_. None), Snappy_GetUncompressedLength = (\<lambda>_. None), Snappy_Uncompress = (\<lambda>_. None)\<rparr>"

text \<open>A block stored in a file: its bytes, its type and the masked checksum of both.\<close>

definition block_trailer :: "bytes \<Rightarrow> CompressionType \<Rightarrow> bytes" where
  "block_trailer stored ty = compression_byte ty # EncodeFixed32 (Mask (crc_Value (stored @ [compression_byte ty])))"

definition decompressed :: "Snappy \<Rightarrow> CompressionType \<Rightarrow> bytes \<Rightarrow> bytes \<Rightarrow> bool" where
  "decompressed sn ty stored raw \<longleftrightarrow>
     (case ty of
        kNoCompression \<Rightarrow> stored = raw
      | kSnappyCompression \<Rightarrow> Snappy_GetUncompressedLength sn stored = Some (length raw) \<and> Snappy_Uncompress sn stored = Some raw)"

definition stored_block :: "Snappy \<Rightarrow> bytes \<Rightarrow> BlockHandle \<Rightarrow> bytes \<Rightarrow> bool" where
  "stored_block sn f h raw \<longleftrightarrow>
     (\<exists>pre stored ty post. f = pre @ stored @ block_trailer stored ty @ post \<and> decompressed sn ty stored raw
        \<and> length pre < 2 ^ 63 \<and> length stored < 2 ^ 63
        \<and> h = \<lparr>bh_offset = of_nat (length pre), bh_size = of_nat (length stored)\<rparr>)"

section \<open>Handles and the footer\<close>

lemma bh_round_trip [simp]: "bh_DecodeFrom (bh_EncodeTo h [] @ rest) = Inr (h, rest)"
  by (simp add: bh_DecodeFrom_def bh_EncodeTo_def PutVarint64_def)

lemma bh_EncodeTo_append: "bh_EncodeTo h dst = dst @ bh_EncodeTo h []"
  by (simp add: bh_EncodeTo_def PutVarint64_def)

lemma bh_EncodeTo_length: "length (bh_EncodeTo h []) \<le> kMaxEncodedLength"
  using length_EncodeVarint64_le [of "bh_offset h"] length_EncodeVarint64_le [of "bh_size h"]
  by (simp add: bh_EncodeTo_def PutVarint64_def kMaxEncodedLength_def)

lemma magic_words:
  "push_bit 32 (ucast (ucast (drop_bit 32 kTableMagicNumber) :: u32)) OR ucast (ucast (kTableMagicNumber AND 0xffffffff) :: u32)
     = kTableMagicNumber"
  by (simp add: kTableMagicNumber_def)

lemma footer_bytes:
  "fst (Footer_EncodeTo f []) =
     bh_EncodeTo (metaindex_handle f) [] @ bh_EncodeTo (index_handle f) []
     @ replicate (2 * kMaxEncodedLength - length (bh_EncodeTo (metaindex_handle f) []) - length (bh_EncodeTo (index_handle f) [])) 0
     @ EncodeFixed32 (ucast (kTableMagicNumber AND 0xffffffff)) @ EncodeFixed32 (ucast (drop_bit 32 kTableMagicNumber))"
  using bh_EncodeTo_length [of "metaindex_handle f"] bh_EncodeTo_length [of "index_handle f"]
  by (simp add: Footer_EncodeTo_def Let_def string_resize_def PutFixed32_def bh_EncodeTo_append [of "index_handle f" "bh_EncodeTo _ _"])

lemma footer_length: "length (fst (Footer_EncodeTo f [])) = kFooterLength" "snd (Footer_EncodeTo f [])"
proof -
  show *: "length (fst (Footer_EncodeTo f [])) = kFooterLength"
    using bh_EncodeTo_length [of "metaindex_handle f"] bh_EncodeTo_length [of "index_handle f"]
    unfolding footer_bytes by (simp add: kFooterLength_def kMaxEncodedLength_def)
  show "snd (Footer_EncodeTo f [])" using * by (simp add: Footer_EncodeTo_def Let_def)
qed

lemma footer_round_trip: "Footer_DecodeFrom (fst (Footer_EncodeTo f []) @ rest) = Some (Inr (f, rest))"
proof -
  let ?lo = "EncodeFixed32 (ucast (kTableMagicNumber AND 0xffffffff))" and ?hi = "EncodeFixed32 (ucast (drop_bit 32 kTableMagicNumber))"
  have "length (fst (Footer_EncodeTo f [])) = (kFooterLength - 8) + 8" by (simp add: footer_length kFooterLength_def)
  then have d: "drop (kFooterLength - 8) (fst (Footer_EncodeTo f []) @ rest) = ?lo @ ?hi @ rest"
    unfolding footer_bytes by simp
  have b: "bh_DecodeFrom (fst (Footer_EncodeTo f []) @ rest) = Inr (metaindex_handle f, drop (length (bh_EncodeTo (metaindex_handle f) [])) (fst (Footer_EncodeTo f [])) @ rest)"
    "bh_DecodeFrom (drop (length (bh_EncodeTo (metaindex_handle f) [])) (fst (Footer_EncodeTo f [])) @ rest)
      = Inr (index_handle f, drop (length (bh_EncodeTo (index_handle f) [])) (drop (length (bh_EncodeTo (metaindex_handle f) [])) (fst (Footer_EncodeTo f []))) @ rest)"
    unfolding footer_bytes by simp_all
  have "\<not> length (fst (Footer_EncodeTo f []) @ rest) < kFooterLength" by (simp add: footer_length)
  then show ?thesis
    unfolding Footer_DecodeFrom_def Let_def d by (simp add: magic_words b footer_length)
qed

section \<open>Stored blocks\<close>

lemma block_trailer_length [simp]: "length (block_trailer stored ty) = 5"
  by (simp add: block_trailer_def)

lemma stored_block_append: "stored_block sn f h raw \<Longrightarrow> stored_block sn (f @ rest) h raw"
  unfolding stored_block_def by (metis append.assoc)

lemma stored_block_new:
  "decompressed sn ty stored raw \<Longrightarrow> length f < 2 ^ 63 \<Longrightarrow> length stored < 2 ^ 63 \<Longrightarrow>
     stored_block sn (f @ stored @ block_trailer stored ty) \<lparr>bh_offset = of_nat (length f), bh_size = of_nat (length stored)\<rparr> raw"
  unfolding stored_block_def by (metis append.right_neutral)

lemma unat_of_nat64: "n < 2 ^ 64 \<Longrightarrow> unat (of_nat n :: u64) = n"
  by (simp add: unat_of_nat take_bit_eq_mod)

lemma unat_of_nat64_plus: "n < 2 ^ 63 \<Longrightarrow> k < 10 \<Longrightarrow> unat (of_nat n + of_nat k :: u64) = n + k"
  using unat_of_nat64 [of "n + k"] by simp

text \<open>A block that is accepted with its checksum verified has the checksum its trailer records.\<close>

lemma ReadBlock_verified:
  assumes "ReadBlock sn rd opts h = Some (Inr bc)" and "verify_checksums opts"
  shows "\<exists>data outside. rd (bh_offset h) (unat (bh_size h + 5)) = (OK, data, outside)
    \<and> crc_Value (take (unat (bh_size h + 1)) data) = Unmask (DecodeFixed32 (drop (unat (bh_size h + 1)) data))"
  using assms
  by (auto simp: ReadBlock_def ReadBlock_checksum_def kBlockTrailerSize_def status_ok_def Let_def
      split: prod.splits if_splits option.splits bool.splits)

context random_access_file
begin

lemma ReadBlock_stored:
  assumes ok: "ra_ok d" and st: "stored_block sn (contents d) h raw"
  shows "\<exists>bc. ReadBlock sn (rd d) opts h = Some (Inr bc) \<and> bc_data bc = raw"
proof -
  obtain pre stored ty post where f: "contents d = pre @ stored @ block_trailer stored ty @ post" "decompressed sn ty stored raw"
    and small: "length pre < 2 ^ 63" "length stored < 2 ^ 63"
    and h: "h = \<lparr>bh_offset = of_nat (length pre), bh_size = of_nat (length stored)\<rparr>"
    using st by (auto simp: stored_block_def)
  let ?n = "of_nat (length stored) :: u64" and ?c = "stored @ block_trailer stored ty"
  have n: "unat ?n = length stored" "unat (?n + 1) = length stored + 1" "unat (?n + 5) = length stored + 5"
    using unat_of_nat64_plus [OF small(2), of 1] unat_of_nat64_plus [OF small(2), of 5] small by (simp_all add: unat_of_nat64)
  obtain outside where rd: "rd d (of_nat (length pre)) (length stored + 5) = (OK, ?c, outside)"
    using rd_inside [OF ok, of "of_nat (length pre)" "length stored + 5"] small f by (auto simp: unat_of_nat64)
  have "ReadBlock_checksum ?c ?n = Some True"
    by (simp add: ReadBlock_checksum_def n block_trailer_def Unmask_Mask)
  moreover have "\<exists>bc. ReadBlock_contents sn ?c ?n outside = Some (Inr bc) \<and> bc_data bc = raw"
    using f(2) unfolding ReadBlock_contents_def n by (cases ty) (auto simp: block_trailer_def decompressed_def)
  ultimately show ?thesis
    by (auto simp: ReadBlock_def Let_def h rd n kBlockTrailerSize_def)
qed

end

text \<open>The in-memory file as a file for random access.\<close>

interpretation mem_access: random_access_file mem_random_access fs_contents fs_inv
proof
  fix f :: FileState and pos :: u64 and n
  assume f: "fs_inv f" "unat pos + n \<le> length (fs_contents f)"
  then have "fs_Read f (unat pos) n = (OK, take n (drop (unat pos) (fs_contents f)))"
    by (intro fs_Read_eq) (simp_all add: fs_contents_length)
  then show "\<exists>outside. mem_random_access f pos n = (OK, take n (drop (unat pos) (fs_contents f)), outside)"
    unfolding mem_random_access_def by auto
qed

end
