(* ===== verification/TableBuilder.thy ===== *)
theory TableBuilder
  imports TableFormat FilterBlock
begin

text \<open>
  \<open>table/table_builder.cc\<close>: the writer of a table file. The file is its state with the two methods the builder
  calls. An assertion that fails clears \<open>tb_asserts\<close> and the code goes on, as a build without assertions does;
  that it never clears is a theorem. \<open>uint64_t\<close> offsets are natural numbers until a handle stores them.
\<close>

section \<open>The builder\<close>

record 'd WritableFile =
  file_Append :: "'d \<Rightarrow> bytes \<Rightarrow> status \<times> 'd"
  file_Flush :: "'d \<Rightarrow> status \<times> 'd"

record 'd TableBuilder =
  tb_options :: Options
  tb_vtable :: "'d WritableFile"
  tb_file :: 'd
  tb_offset :: nat
  tb_status :: status
  data_block :: BlockBuilder
  index_block :: BlockBuilder
  tb_last_key :: bytes
  num_entries :: nat
  closed :: bool
  filter_block :: "(FilterPolicy \<times> FilterBlockBuilder) option"
  pending_index_entry :: bool
  pending_handle :: BlockHandle
  tb_asserts :: bool

definition bb_empty :: "BlockBuilder \<Rightarrow> bool" where
  "bb_empty b = (bb_buffer b = [])"

definition tb_assert :: "bool \<Rightarrow> 'd TableBuilder \<Rightarrow> 'd TableBuilder" where
  "tb_assert c r = r\<lparr>tb_asserts := tb_asserts r \<and> c\<rparr>"

text \<open>
  The filter block builder keeps the policy it was made with. Its calls are skipped when there is none. In
  \<open>write_metaindex\<close> a null policy in the options is dereferenced when \<open>ChangeOptions\<close> has removed it.
\<close>

definition filter_StartBlock :: "'d TableBuilder \<Rightarrow> 'd TableBuilder" where
  "filter_StartBlock r =
     r\<lparr>filter_block := map_option (\<lambda>(p, fb). (p, StartBlock (fp_CreateFilter p) fb (tb_offset r))) (filter_block r)\<rparr>"

definition filter_AddKey :: "'d TableBuilder \<Rightarrow> bytes \<Rightarrow> 'd TableBuilder" where
  "filter_AddKey r key = r\<lparr>filter_block := map_option (\<lambda>(p, fb). (p, fb_AddKey fb key)) (filter_block r)\<rparr>"

definition new_TableBuilder :: "Options \<Rightarrow> 'd WritableFile \<Rightarrow> 'd \<Rightarrow> 'd TableBuilder" where
  "new_TableBuilder opt vt f =
     filter_StartBlock
       \<lparr>tb_options = opt, tb_vtable = vt, tb_file = f, tb_offset = 0, tb_status = OK,
        data_block = new_BlockBuilder (block_restart_interval opt), index_block = new_BlockBuilder 1, tb_last_key = [],
        num_entries = 0, closed = False,
        filter_block = map_option (\<lambda>p. (p, new_FilterBlockBuilder)) (opt_filter_policy opt),
        pending_index_entry = False, pending_handle = new_BlockHandle, tb_asserts = True\<rparr>"

text \<open>The block builders refer to the options they were made with, so they see the new restart interval.\<close>

definition ChangeOptions :: "'d TableBuilder \<Rightarrow> Options \<Rightarrow> status \<times> 'd TableBuilder" where
  "ChangeOptions r opt =
     (if cmp_address (opt_comparator opt) \<noteq> cmp_address (opt_comparator (tb_options r))
      then (InvalidArgument (lit ''changing comparator while building table'') [], r)
      else (OK, r\<lparr>tb_options := opt, data_block := (data_block r)\<lparr>bb_interval := block_restart_interval opt\<rparr>,
                  index_block := (index_block r)\<lparr>bb_interval := 1\<rparr>\<rparr>))"

definition tb_ok :: "'d TableBuilder \<Rightarrow> bool" where
  "tb_ok r = status_ok (tb_status r)"

definition file_append :: "'d TableBuilder \<Rightarrow> bytes \<Rightarrow> 'd TableBuilder" where
  "file_append r data =
     (case file_Append (tb_vtable r) (tb_file r) data of (s, f) \<Rightarrow> r\<lparr>tb_status := s, tb_file := f\<rparr>)"

definition WriteRawBlock :: "'d TableBuilder \<Rightarrow> bytes \<Rightarrow> CompressionType \<Rightarrow> BlockHandle \<times> 'd TableBuilder" where
  "WriteRawBlock r block_contents ty =
     (let handle = \<lparr>bh_offset = of_nat (tb_offset r), bh_size = of_nat (length block_contents)\<rparr>;
          r = file_append r block_contents
      in if tb_ok r then
           let crc = crc_Value block_contents;
               crc = crc_Extend crc [compression_byte ty];
               trailer = compression_byte ty # EncodeFixed32 (Mask crc);
               r = file_append r trailer
           in if tb_ok r then (handle, r\<lparr>tb_offset := tb_offset r + length block_contents + kBlockTrailerSize\<rparr>)
              else (handle, r)
         else (handle, r))"

definition compress_block :: "Snappy \<Rightarrow> CompressionType \<Rightarrow> bytes \<Rightarrow> bytes \<times> CompressionType" where
  "compress_block sn ty raw =
     (case ty of
        kNoCompression \<Rightarrow> (raw, ty)
      | kSnappyCompression \<Rightarrow>
          (case Snappy_Compress sn raw of
             Some compressed \<Rightarrow>
               if length compressed < length raw - length raw div 8 then (compressed, ty) else (raw, kNoCompression)
           | None \<Rightarrow> (raw, kNoCompression)))"

definition WriteBlock :: "Snappy \<Rightarrow> 'd TableBuilder \<Rightarrow> BlockBuilder \<Rightarrow> BlockHandle \<times> BlockBuilder \<times> 'd TableBuilder" where
  "WriteBlock sn r block =
     (let r = tb_assert (tb_ok r) r;
          (raw, block) = bb_Finish block;
          (block_contents, ty) = compress_block sn (compression (tb_options r)) raw;
          (handle, r) = WriteRawBlock r block_contents ty
      in (handle, bb_Reset block, r))"

definition tb_Flush :: "Snappy \<Rightarrow> 'd TableBuilder \<Rightarrow> 'd TableBuilder" where
  "tb_Flush sn r =
     (let r = tb_assert (\<not> closed r) r
      in if \<not> tb_ok r then r
         else if bb_empty (data_block r) then r
         else
           let r = tb_assert (\<not> pending_index_entry r) r;
               (handle, block, r) = WriteBlock sn r (data_block r);
               r = r\<lparr>pending_handle := handle, data_block := block\<rparr>;
               r = (if tb_ok r then
                      (case file_Flush (tb_vtable r) (tb_file r) of
                         (s, f) \<Rightarrow> r\<lparr>pending_index_entry := True, tb_status := s, tb_file := f\<rparr>)
                    else r)
           in filter_StartBlock r)"

text \<open>The entry of the last data block in the index, under the key \<open>tb_last_key\<close>.\<close>

definition add_index_entry :: "'d TableBuilder \<Rightarrow> 'd TableBuilder" where
  "add_index_entry r =
     (let r = tb_assert (bh_is_set (pending_handle r)) r
      in r\<lparr>index_block := bb_Add (index_block r) (tb_last_key r) (bh_EncodeTo (pending_handle r) []),
           pending_index_entry := False\<rparr>)"

text \<open>\<open>Add\<close>: the assertion on the order, the index entry owed for the block before, and the entry itself.\<close>

definition check_order :: "'d TableBuilder \<Rightarrow> bytes \<Rightarrow> 'd TableBuilder" where
  "check_order r key =
     (if num_entries r > 0 then tb_assert (cmp_Compare (opt_comparator (tb_options r)) key (tb_last_key r) > 0) r else r)"

definition settle_index :: "'d TableBuilder \<Rightarrow> bytes \<Rightarrow> 'd TableBuilder" where
  "settle_index r key =
     (if pending_index_entry r then
        let r = tb_assert (bb_empty (data_block r)) r
        in add_index_entry
             (r\<lparr>tb_last_key := cmp_FindShortestSeparator (opt_comparator (tb_options r)) (tb_last_key r) key\<rparr>)
      else r)"

definition append_entry :: "'d TableBuilder \<Rightarrow> bytes \<Rightarrow> bytes \<Rightarrow> 'd TableBuilder" where
  "append_entry r key value =
     (let r = filter_AddKey r key
      in r\<lparr>tb_last_key := key, num_entries := num_entries r + 1, data_block := bb_Add (data_block r) key value\<rparr>)"

definition tb_Add :: "Snappy \<Rightarrow> 'd TableBuilder \<Rightarrow> bytes \<Rightarrow> bytes \<Rightarrow> 'd TableBuilder" where
  "tb_Add sn r key value =
     (let r = tb_assert (\<not> closed r) r
      in if \<not> tb_ok r then r
         else
           let r = check_order r key;
               r = settle_index r key;
               r = append_entry r key value
           in if CurrentSizeEstimate (data_block r) \<ge> block_size (tb_options r) then tb_Flush sn r else r)"

definition write_filter :: "'d TableBuilder \<Rightarrow> BlockHandle \<times> 'd TableBuilder" where
  "write_filter r =
     (case (tb_ok r, filter_block r) of
        (True, Some (p, fb)) \<Rightarrow>
          (case fb_Finish (fp_CreateFilter p) fb of
             (contents, fb) \<Rightarrow> WriteRawBlock (r\<lparr>filter_block := Some (p, fb)\<rparr>) contents kNoCompression)
      | _ \<Rightarrow> (new_BlockHandle, r))"

definition meta_key :: "FilterPolicy \<Rightarrow> bytes" where
  "meta_key p = lit ''filter.'' @ fp_Name p"

definition write_metaindex :: "Snappy \<Rightarrow> 'd TableBuilder \<Rightarrow> BlockHandle \<Rightarrow> BlockHandle \<times> 'd TableBuilder" where
  "write_metaindex sn r filter_handle =
     (if tb_ok r then
        let meta = new_BlockBuilder (block_restart_interval (tb_options r));
            (meta, r) =
              (case (filter_block r, opt_filter_policy (tb_options r)) of
                 (None, _) \<Rightarrow> (meta, r)
               | (Some _, None) \<Rightarrow> (meta, tb_assert False r)
               | (Some _, Some p) \<Rightarrow>
                   (bb_Add meta (meta_key p) (bh_EncodeTo filter_handle []), tb_assert (bh_is_set filter_handle) r));
            (handle, meta, r) = WriteBlock sn r meta
        in (handle, r)
      else (new_BlockHandle, r))"

definition write_index :: "Snappy \<Rightarrow> 'd TableBuilder \<Rightarrow> BlockHandle \<times> 'd TableBuilder" where
  "write_index sn r =
     (if tb_ok r then
        let r = (if pending_index_entry r then
                   add_index_entry (r\<lparr>tb_last_key := cmp_FindShortSuccessor (opt_comparator (tb_options r)) (tb_last_key r)\<rparr>)
                 else r);
            (handle, block, r) = WriteBlock sn r (index_block r)
        in (handle, r\<lparr>index_block := block\<rparr>)
      else (new_BlockHandle, r))"

definition write_footer :: "'d TableBuilder \<Rightarrow> BlockHandle \<Rightarrow> BlockHandle \<Rightarrow> 'd TableBuilder" where
  "write_footer r meta_handle idx_handle =
     (if tb_ok r then
        let (encoding, fits) = Footer_EncodeTo \<lparr>metaindex_handle = meta_handle, index_handle = idx_handle\<rparr> [];
            r = tb_assert (bh_is_set meta_handle \<and> bh_is_set idx_handle \<and> fits) r;
            r = file_append r encoding
        in if tb_ok r then r\<lparr>tb_offset := tb_offset r + length encoding\<rparr> else r
      else r)"

definition tb_Finish :: "Snappy \<Rightarrow> 'd TableBuilder \<Rightarrow> status \<times> 'd TableBuilder" where
  "tb_Finish sn r =
     (let r = tb_Flush sn r;
          r = tb_assert (\<not> closed r) r;
          r = r\<lparr>closed := True\<rparr>;
          (filter_handle, r) = write_filter r;
          (meta_handle, r) = write_metaindex sn r filter_handle;
          (idx_handle, r) = write_index sn r;
          r = write_footer r meta_handle idx_handle
      in (tb_status r, r))"

definition Abandon :: "'d TableBuilder \<Rightarrow> 'd TableBuilder" where
  "Abandon r = (tb_assert (\<not> closed r) r)\<lparr>closed := True\<rparr>"

definition NumEntries :: "'d TableBuilder \<Rightarrow> nat" where
  "NumEntries r = num_entries r"

definition FileSize :: "'d TableBuilder \<Rightarrow> nat" where
  "FileSize r = tb_offset r"

text \<open>The destructor's assertion.\<close>

definition delete_TableBuilder :: "'d TableBuilder \<Rightarrow> 'd TableBuilder" where
  "delete_TableBuilder r = tb_assert (closed r) r"

text \<open>A client: a table of the given entries.\<close>

definition build_table :: "Snappy \<Rightarrow> Options \<Rightarrow> 'd WritableFile \<Rightarrow> 'd \<Rightarrow> entry list \<Rightarrow> status \<times> 'd TableBuilder" where
  "build_table sn opt vt f kvs = tb_Finish sn (foldl (\<lambda>r (k, v). tb_Add sn r k v) (new_TableBuilder opt vt f) kvs)"

section \<open>The contract\<close>

text \<open>The bytes of a block with given entries.\<close>

definition is_block :: "bytes \<Rightarrow> entry list \<Rightarrow> bool" where
  "is_block raw kvs \<longleftrightarrow> (\<exists>es ris. block_layout raw es ris \<and> map snd es = kvs)"

definition esize :: "entry list \<Rightarrow> nat" where
  "esize kvs = (\<Sum>(k, v) \<leftarrow> kvs. length k + length v + 64)"

type_synonym written_block = "BlockHandle \<times> entry list"

definition block_offset :: "written_block \<Rightarrow> nat" where
  "block_offset b = unat (bh_offset (fst b))"

definition block_code :: "written_block \<Rightarrow> bytes" where
  "block_code b = bh_EncodeTo (fst b) []"

text \<open>The data blocks in the file, in the order of their offsets.\<close>

definition blocks_stored :: "Snappy \<Rightarrow> bytes \<Rightarrow> written_block list \<Rightarrow> bool" where
  "blocks_stored sn f bs \<longleftrightarrow>
     (\<forall>b \<in> set bs. snd b \<noteq> [] \<and> bh_is_set (fst b) \<and> (\<exists>raw. stored_block sn f (fst b) raw \<and> is_block raw (snd b)))
     \<and> sorted_wrt (<) (map block_offset bs @ [length f])"

text \<open>
  A separator between two blocks. It is the last key of the first block, or a key with a part of its own.
\<close>

definition separates :: "(bytes \<Rightarrow> bytes \<Rightarrow> int) \<Rightarrow> (bytes \<Rightarrow> bytes) \<Rightarrow> bytes \<Rightarrow> bytes \<Rightarrow> bytes \<Rightarrow> bool" where
  "separates cmp part a s b \<longleftrightarrow>
     cmp a s \<le> 0 \<and> cmp s b < 0 \<and> (s = a \<or> (\<forall>t e. cmp t s \<le> 0 \<longrightarrow> cmp b e \<le> 0 \<longrightarrow> part t \<noteq> part e))"

definition seps_ok :: "(bytes \<Rightarrow> bytes \<Rightarrow> int) \<Rightarrow> (bytes \<Rightarrow> bytes) \<Rightarrow> bytes list \<Rightarrow> entry list list \<Rightarrow> bool" where
  "seps_ok cmp part seps gs \<longleftrightarrow>
     (\<forall>i < length seps. Suc i < length gs \<longrightarrow> separates cmp part (fst (last (gs ! i))) (seps ! i) (fst (hd (gs ! Suc i))))"

definition groups :: "written_block list \<Rightarrow> entry list \<Rightarrow> entry list list" where
  "groups bs cur = map snd bs @ (if cur = [] then [] else [cur])"

text \<open>The filter block builder has seen each block at its offset, and the keys of the block being built.\<close>

definition filter_calls :: "written_block list \<Rightarrow> nat \<Rightarrow> entry list \<Rightarrow> (nat \<times> bytes list) list" where
  "filter_calls bs pos cur = map (\<lambda>b. (block_offset b, map fst (snd b))) bs @ [(pos, map fst cur)]"

definition filter_state :: "FilterPolicy option \<Rightarrow> (nat \<times> bytes list) list \<Rightarrow> (FilterPolicy \<times> FilterBlockBuilder) option" where
  "filter_state policy calls =
     map_option (\<lambda>p. (p, foldl (fb_add_block (fp_CreateFilter p)) new_FilterBlockBuilder calls)) policy"

text \<open>
  The state of a builder that has written the blocks \<open>bs\<close> and holds the entries \<open>cur\<close>: its file, its two block
  builders, the index entry it owes, and the last key.
\<close>

definition tb_io :: "('d \<Rightarrow> bytes) \<Rightarrow> ('d \<Rightarrow> bool) \<Rightarrow> Options \<Rightarrow> 'd WritableFile \<Rightarrow> 'd TableBuilder \<Rightarrow> bool" where
  "tb_io written ok opt vt r \<longleftrightarrow>
     tb_status r = OK \<and> tb_asserts r \<and> tb_options r = opt \<and> tb_vtable r = vt \<and> ok (tb_file r)
     \<and> length (written (tb_file r)) = tb_offset r"

definition tb_data :: "'d TableBuilder \<Rightarrow> entry list \<Rightarrow> bool" where
  "tb_data r cur \<longleftrightarrow>
     (\<exists>es ris. bb_rep (data_block r) es ris \<and> map snd es = cur) \<and> CurrentSizeEstimate (data_block r) \<le> 8 + esize cur"

definition tb_index :: "'d TableBuilder \<Rightarrow> written_block list \<Rightarrow> bytes list \<Rightarrow> entry list list \<Rightarrow> bool" where
  "tb_index r bs seps gs \<longleftrightarrow>
     (\<exists>es ris. bb_rep (index_block r) es ris \<and> map snd es = zip seps (map block_code bs))
     \<and> CurrentSizeEstimate (index_block r) \<le> 8 + esize (concat (take (length seps) gs))"

definition tb_pending :: "'d TableBuilder \<Rightarrow> written_block list \<Rightarrow> entry list \<Rightarrow> bool" where
  "tb_pending r bs cur \<longleftrightarrow>
     (pending_index_entry r \<longleftrightarrow> bs \<noteq> [] \<and> cur = []) \<and> (pending_index_entry r \<longrightarrow> pending_handle r = fst (last bs))"

definition tb_last :: "'d TableBuilder \<Rightarrow> entry list list \<Rightarrow> bool" where
  "tb_last r gs \<longleftrightarrow> num_entries r = length (concat gs) \<and> (gs \<noteq> [] \<longrightarrow> tb_last_key r = fst (last (last gs)))"

definition tb_inv ::
  "('d \<Rightarrow> bytes) \<Rightarrow> ('d \<Rightarrow> bool) \<Rightarrow> Snappy \<Rightarrow> (bytes \<Rightarrow> bytes) \<Rightarrow> Options \<Rightarrow> 'd WritableFile \<Rightarrow> 'd TableBuilder \<Rightarrow>
     written_block list \<Rightarrow> bytes list \<Rightarrow> entry list \<Rightarrow> bool" where
  "tb_inv written ok sn part opt vt r bs seps cur \<longleftrightarrow>
     tb_io written ok opt vt r \<and> \<not> closed r \<and> blocks_stored sn (written (tb_file r)) bs \<and> tb_data r cur
     \<and> tb_index r bs seps (groups bs cur) \<and> length seps = length (groups bs cur) - 1
     \<and> seps_ok (cmp_Compare (opt_comparator opt)) part seps (groups bs cur)
     \<and> tb_pending r bs cur \<and> tb_last r (groups bs cur)
     \<and> filter_block r = filter_state (opt_filter_policy opt) (filter_calls bs (tb_offset r) cur)"

lemma tb_invD:
  assumes "tb_inv written ok sn part opt vt r bs seps cur"
  shows "tb_io written ok opt vt r" "\<not> closed r" "blocks_stored sn (written (tb_file r)) bs" "tb_data r cur"
    "tb_index r bs seps (groups bs cur)" "length seps = length (groups bs cur) - 1"
    "seps_ok (cmp_Compare (opt_comparator opt)) part seps (groups bs cur)" "tb_pending r bs cur" "tb_last r (groups bs cur)"
    "filter_block r = filter_state (opt_filter_policy opt) (filter_calls bs (tb_offset r) cur)"
  using assms unfolding tb_inv_def by blast+

lemma tb_ioD:
  assumes "tb_io written ok opt vt r"
  shows "tb_status r = OK" "tb_asserts r" "tb_options r = opt" "tb_vtable r = vt" "ok (tb_file r)"
    "length (written (tb_file r)) = tb_offset r"
  using assms by (simp_all add: tb_io_def)

text \<open>A finished table: its data blocks, the index of them, the meta block with the filter, and the footer.\<close>

definition meta_layout :: "Snappy \<Rightarrow> FilterPolicy option \<Rightarrow> bytes \<Rightarrow> written_block list \<Rightarrow> bytes \<Rightarrow> bool" where
  "meta_layout sn policy f bs mraw \<longleftrightarrow>
     (case policy of
        None \<Rightarrow> is_block mraw []
      | Some p \<Rightarrow>
          (\<exists>fh pos contents. is_block mraw [(meta_key p, bh_EncodeTo fh [])] \<and> stored_block sn f fh contents
             \<and> contents = fst (fb_Finish (fp_CreateFilter p) (foldl (fb_add_block (fp_CreateFilter p)) new_FilterBlockBuilder (filter_calls bs pos [])))
             \<and> length contents < 2 ^ 32 \<and> (\<forall>b \<in> set bs. block_offset b \<le> pos)))"

definition table_layout ::
  "Snappy \<Rightarrow> Options \<Rightarrow> (bytes \<Rightarrow> bytes) \<Rightarrow> bytes \<Rightarrow> written_block list \<Rightarrow> bytes list \<Rightarrow> bool" where
  "table_layout sn opt part f bs seps \<longleftrightarrow>
     (\<exists>pre mh ih mraw iraw. f = pre @ fst (Footer_EncodeTo \<lparr>metaindex_handle = mh, index_handle = ih\<rparr> [])
        \<and> stored_block sn f mh mraw \<and> meta_layout sn (opt_filter_policy opt) f bs mraw
        \<and> stored_block sn f ih iraw \<and> is_block iraw (zip seps (map block_code bs)))
     \<and> blocks_stored sn f bs \<and> length seps = length bs \<and> seps_ok (cmp_Compare (opt_comparator opt)) part seps (map snd bs)
     \<and> (bs \<noteq> [] \<longrightarrow> cmp_Compare (opt_comparator opt) (fst (last (snd (last bs)))) (last seps) \<le> 0)"

text \<open>What the last writes keep of the state.\<close>

definition tb_extends ::
  "('d \<Rightarrow> bytes) \<Rightarrow> ('d \<Rightarrow> bool) \<Rightarrow> Options \<Rightarrow> 'd WritableFile \<Rightarrow> 'd TableBuilder \<Rightarrow> 'd TableBuilder \<Rightarrow> bool" where
  "tb_extends written ok opt vt r r' \<longleftrightarrow>
     tb_io written ok opt vt r' \<and> (\<exists>x. written (tb_file r') = written (tb_file r) @ x)
     \<and> index_block r' = index_block r \<and> pending_index_entry r' = pending_index_entry r \<and> pending_handle r' = pending_handle r
     \<and> tb_last_key r' = tb_last_key r \<and> closed r' = closed r"

section \<open>Writing blocks\<close>

lemma esize_simps [simp]: "esize [] = 0" "esize (kv # kvs) = length (fst kv) + length (snd kv) + 64 + esize kvs"
    "esize (a @ b) = esize a + esize b"
  by (simp_all add: esize_def split: prod.split)

lemma bb_Add_size: "CurrentSizeEstimate (bb_Add b k v) \<le> CurrentSizeEstimate b + length k + length v + 19"
proof -
  have "length (EncodeVarint32 x) \<le> 5" for x by (rule length_EncodeVarint32_le)
  note this [of "of_nat (common_length (bb_last_key b) k)"] this [of "of_nat (length k - common_length (bb_last_key b) k)"]
    this [of "of_nat (length v)"] this [of 0] this [of "of_nat (length k)"]
  then show ?thesis by (auto simp: bb_Add_def CurrentSizeEstimate_def PutVarint32_def Let_def)
qed

lemma compress_block_ok:
  assumes "snappy_ok sn" and "compress_block sn ty raw = (stored, ty')"
  shows "decompressed sn ty' stored raw \<and> length stored \<le> length raw"
  using assms by (auto simp: compress_block_def decompressed_def snappy_ok_def split: CompressionType.splits option.splits if_splits)

lemma is_block_Finish:
  assumes "bb_rep b es ris" and "CurrentSizeEstimate b < 2 ^ 32"
  shows "is_block (fst (bb_Finish b)) (map snd es)"
proof -
  have "block_layout (fst (bb_Finish b)) es ris"
    using assms bb_Finish_eq [OF assms(1)] size_estimate [of b] by (simp add: block_layout_def bb_rep_def)
  then show ?thesis unfolding is_block_def by blast
qed

lemma bb_Reset_Finish: "bb_rep b es ris \<Longrightarrow> bb_rep (bb_Reset (snd (bb_Finish b))) [] [0]" "CurrentSizeEstimate (bb_Reset b') = 8"
  by (auto simp: bb_rep_def bb_Reset_def bb_Finish_def chain_def restarts_ok_def off_def CurrentSizeEstimate_def Let_def)

lemma tb_assert_True [simp]: "c \<Longrightarrow> tb_assert c r = r"
  by (simp add: tb_assert_def)

abbreviation vtable_of :: "('d \<Rightarrow> bytes \<Rightarrow> status \<times> 'd) \<Rightarrow> ('d \<Rightarrow> status \<times> 'd) \<Rightarrow> 'd WritableFile" where
  "vtable_of a f \<equiv> \<lparr>file_Append = a, file_Flush = f\<rparr>"

lemma of_nat_set: "n < 2 ^ 63 \<Longrightarrow> (of_nat n :: u64) \<noteq> - 1"
proof
  assume n: "n < 2 ^ 63" and "(of_nat n :: u64) = - 1"
  then have "n = unat (- 1 :: u64)" using unat_of_nat64 [of n] by simp
  then show False using n by (simp add: unsigned_minus_1_eq_mask mask_eq_exp_minus_1)
qed

lemma body_Nil_iff: "body es = [] \<longleftrightarrow> es = []"
proof -
  have "lentry_bytes e \<noteq> []" for e
    using length_EncodeVarint32_le(2) [of "of_nat (fst e)"] by (cases e) (auto simp: lentry_bytes_def)
  then show ?thesis by (cases es) (auto simp: body_def)
qed

context writable_file
begin

lemma file_append_ok:
  assumes "tb_vtable r = vtable_of app flush" and "wf_ok (tb_file r)"
  shows "\<exists>f. file_append r xs = r\<lparr>tb_status := OK, tb_file := f\<rparr> \<and> written f = written (tb_file r) @ xs \<and> wf_ok f"
proof -
  obtain f where "app (tb_file r) xs = (OK, f)" "written f = written (tb_file r) @ xs" "wf_ok f"
    using app_law [OF assms(2)] by blast
  then show ?thesis using assms(1) by (auto simp: file_append_def)
qed

lemma WriteRawBlock_ok:
  assumes "tb_vtable r = vtable_of app flush" and "wf_ok (tb_file r)"
  shows "\<exists>f. WriteRawBlock r c ty = (\<lparr>bh_offset = of_nat (tb_offset r), bh_size = of_nat (length c)\<rparr>,
      r\<lparr>tb_status := OK, tb_file := f, tb_offset := tb_offset r + length c + 5\<rparr>)
    \<and> written f = written (tb_file r) @ c @ block_trailer c ty \<and> wf_ok f"
proof -
  obtain f1 where f1: "file_append r c = r\<lparr>tb_status := OK, tb_file := f1\<rparr>" "written f1 = written (tb_file r) @ c" "wf_ok f1"
    using file_append_ok [OF assms] by blast
  let ?r = "r\<lparr>tb_status := OK, tb_file := f1\<rparr>"
  obtain f where f: "file_append ?r (block_trailer c ty) = ?r\<lparr>tb_status := OK, tb_file := f\<rparr>"
      "written f = written f1 @ block_trailer c ty" "wf_ok f"
    using file_append_ok [of ?r "block_trailer c ty"] assms(1) f1(3) by auto
  have "compression_byte ty # EncodeFixed32 (Mask (crc_Extend (crc_Value c) [compression_byte ty])) = block_trailer c ty"
    by (simp add: block_trailer_def crc_Value_def crc32c.extend_append)
  then show ?thesis using f f1 by (intro exI [of _ f]) (simp add: WriteRawBlock_def Let_def tb_ok_def kBlockTrailerSize_def)
qed

lemma WriteBlock_ok:
  assumes sn: "snappy_ok sn" and vt: "tb_vtable r = vtable_of app flush" "wf_ok (tb_file r)" and ok: "tb_status r = OK"
    and len: "length (written (tb_file r)) = tb_offset r"
  shows "\<exists>f x h. WriteBlock sn r b = (h, bb_Reset (snd (bb_Finish b)), r\<lparr>tb_status := OK, tb_file := f, tb_offset := length (written f)\<rparr>)
    \<and> written f = written (tb_file r) @ x \<and> x \<noteq> [] \<and> wf_ok f
    \<and> (length (written f) < 2 ^ 63 \<longrightarrow> stored_block sn (written f) h (fst (bb_Finish b)) \<and> bh_is_set h \<and> unat (bh_offset h) = tb_offset r)"
proof -
  obtain stored ty where c: "compress_block sn (compression (tb_options r)) (fst (bb_Finish b)) = (stored, ty)" by force
  have d: "decompressed sn ty stored (fst (bb_Finish b))" using compress_block_ok [OF sn c] by simp
  let ?h = "\<lparr>bh_offset = of_nat (tb_offset r), bh_size = of_nat (length stored)\<rparr> :: BlockHandle"
  obtain f where f: "WriteRawBlock r stored ty = (?h, r\<lparr>tb_status := OK, tb_file := f, tb_offset := tb_offset r + length stored + 5\<rparr>)"
      "written f = written (tb_file r) @ stored @ block_trailer stored ty" "wf_ok f"
    using WriteRawBlock_ok [OF vt] by blast
  have "WriteBlock sn r b = (?h, bb_Reset (snd (bb_Finish b)), r\<lparr>tb_status := OK, tb_file := f, tb_offset := length (written f)\<rparr>)"
    using c f len by (cases "bb_Finish b") (simp add: WriteBlock_def tb_ok_def ok Let_def add.assoc)
  moreover have "stored_block sn (written f) ?h (fst (bb_Finish b)) \<and> bh_is_set ?h \<and> unat (bh_offset ?h) = tb_offset r"
    if "length (written f) < 2 ^ 63"
    using that stored_block_new [OF d, of "written (tb_file r)"] f(2) len
    by (auto simp: bh_is_set_def of_nat_set unat_of_nat64)
  moreover have "stored @ block_trailer stored ty \<noteq> []" by (simp add: block_trailer_def)
  ultimately show ?thesis using f(2,3) by blast
qed

lemma stored_more:
  assumes "blocks_stored sn f bs" and "stored_block sn (f @ x) h raw" and "is_block raw cur" and "cur \<noteq> []"
    and "bh_is_set h" and "unat (bh_offset h) = length f" and "x \<noteq> []"
  shows "blocks_stored sn (f @ x) (bs @ [(h, cur)])"
proof -
  have "\<exists>raw. stored_block sn (f @ x) (fst b) raw \<and> is_block raw (snd b)" if "b \<in> set bs" for b
    using assms(1) that stored_block_append unfolding blocks_stored_def by blast
  then show ?thesis using assms unfolding blocks_stored_def by (auto simp: sorted_wrt_append block_offset_def)
qed

lemma Flush_inv:
  assumes inv: "tb_inv written wf_ok sn part opt (vtable_of app flush) r bs seps cur" and sn: "snappy_ok sn" and cur: "cur \<noteq> []"
    and size: "tb_offset (tb_Flush sn r) < 2 ^ 63" "esize cur + 8 < 2 ^ 32"
  shows "\<exists>h. tb_inv written wf_ok sn part opt (vtable_of app flush) (tb_Flush sn r) (bs @ [(h, cur)]) seps []"
proof -
  note I = tb_invD [OF inv] and io = tb_ioD [OF tb_invD(1) [OF inv]]
  obtain es ris where rep: "bb_rep (data_block r) es ris" "map snd es = cur" using I(4) by (auto simp: tb_data_def)
  obtain f x h where w: "WriteBlock sn r (data_block r) = (h, bb_Reset (snd (bb_Finish (data_block r))),
        r\<lparr>tb_status := OK, tb_file := f, tb_offset := length (written f)\<rparr>)"
      "written f = written (tb_file r) @ x" "x \<noteq> []" "wf_ok f"
      "length (written f) < 2 ^ 63 \<longrightarrow> stored_block sn (written f) h (fst (bb_Finish (data_block r))) \<and> bh_is_set h \<and> unat (bh_offset h) = tb_offset r"
    using WriteBlock_ok [OF sn io(4,5,1,6), of "data_block r"] by blast
  obtain f' where f': "flush f = (OK, f')" "written f' = written f" "wf_ok f'" using flush_law [OF w(4)] by blast
  have "\<not> bb_empty (data_block r)" using rep cur by (auto simp: bb_empty_def bb_rep_def body_Nil_iff)
  moreover have "\<not> pending_index_entry r" using I(8) cur by (simp add: tb_pending_def)
  ultimately have F: "tb_Flush sn r = filter_StartBlock (r\<lparr>tb_offset := length (written f), pending_handle := h,
      data_block := bb_Reset (snd (bb_Finish (data_block r))), pending_index_entry := True, tb_status := OK, tb_file := f'\<rparr>)"
    using I(2) io w(1) f'(1) by (simp add: tb_Flush_def tb_ok_def Let_def)
  have len: "length (written f) < 2 ^ 63" using size(1) by (simp add: F filter_StartBlock_def)
  have "is_block (fst (bb_Finish (data_block r))) cur"
    using is_block_Finish [OF rep(1)] rep(2) I(4) size(2) by (simp add: tb_data_def)
  moreover have h: "stored_block sn (written (tb_file r) @ x) h (fst (bb_Finish (data_block r)))" "bh_is_set h"
      "unat (bh_offset h) = length (written (tb_file r))"
    using w(2,5) len io(6) by simp_all
  ultimately have st: "blocks_stored sn (written f') (bs @ [(h, cur)])"
    using stored_more [OF I(3) h(1) _ cur h(2,3) w(3)] unfolding f'(2) w(2) by blast
  have g: "groups (bs @ [(h, cur)]) [] = groups bs cur" using cur by (simp add: groups_def)
  have data: "tb_data (tb_Flush sn r) []"
    using bb_Reset_Finish(1) [OF rep(1)] bb_Reset_Finish(2) by (auto simp: tb_data_def F filter_StartBlock_def)
  have "zip seps (map block_code (bs @ [(h, cur)])) = zip seps (map block_code bs)"
    using I(6) cur by (simp add: groups_def zip_append2)
  then have index: "tb_index (tb_Flush sn r) (bs @ [(h, cur)]) seps (groups bs cur)"
    using I(5) by (simp add: tb_index_def F filter_StartBlock_def)
  have "filter_block (tb_Flush sn r) = filter_state (opt_filter_policy opt) (filter_calls (bs @ [(h, cur)]) (tb_offset (tb_Flush sn r)) [])"
    using I(10) w(5) len by (cases "opt_filter_policy opt") (auto simp: F filter_StartBlock_def filter_state_def filter_calls_def block_offset_def fb_add_block_def)
  moreover have "tb_io written wf_ok opt (vtable_of app flush) (tb_Flush sn r)" "\<not> closed (tb_Flush sn r)" "tb_file (tb_Flush sn r) = f'"
      "tb_pending (tb_Flush sn r) (bs @ [(h, cur)]) []" "tb_last (tb_Flush sn r) (groups bs cur)"
    using io I(2,9) f'(2,3) by (simp_all add: F filter_StartBlock_def tb_io_def tb_pending_def tb_last_def)
  ultimately have "tb_inv written wf_ok sn part opt (vtable_of app flush) (tb_Flush sn r) (bs @ [(h, cur)]) seps []"
    using I(6,7) st data index unfolding tb_inv_def g by simp
  then show ?thesis ..
qed

end

section \<open>Adding entries\<close>

lemma esize_last: "es \<noteq> [] \<Longrightarrow> length (fst (last es)) + 64 \<le> esize es"
  by (induction es rule: rev_induct) auto

lemma esize_concat_nth: "i < length gs \<Longrightarrow> esize (concat (take (Suc i) gs)) = esize (concat (take i gs)) + esize (gs ! i)"
  by (simp add: take_Suc_conv_app_nth)

lemma zip_snoc_left: "length xs < length ys \<Longrightarrow> zip (xs @ [x]) ys = zip xs ys @ [(x, ys ! length xs)]"
  by (induction xs ys rule: list_induct2') auto

lemma length_groups: "length (groups bs cur) = length bs + (if cur = [] then 0 else 1)"
  by (simp add: groups_def)

lemma groups_nth: "i < length bs \<or> cur \<noteq> [] \<and> i = length bs \<Longrightarrow> groups bs cur ! i = (if i < length bs then snd (bs ! i) else cur)"
  by (auto simp: groups_def nth_append)

lemma index_add:
  assumes "tb_index r bs seps gs" and "length seps < length bs" and "length seps < length gs" and "gs ! length seps \<noteq> []"
    and "length s \<le> length (fst (last (gs ! length seps)))" and "length s < 2 ^ 32"
  shows "\<exists>es ris. bb_rep (bb_Add (index_block r) s (block_code (bs ! length seps))) es ris
      \<and> map snd es = zip (seps @ [s]) (map block_code bs)"
    "CurrentSizeEstimate (bb_Add (index_block r) s (block_code (bs ! length seps))) \<le> 8 + esize (concat (take (Suc (length seps)) gs))"
proof -
  obtain es ris where rep: "bb_rep (index_block r) es ris" "map snd es = zip seps (map block_code bs)"
    and size: "CurrentSizeEstimate (index_block r) \<le> 8 + esize (concat (take (length seps) gs))"
    using assms(1) by (auto simp: tb_index_def)
  let ?c = "block_code (bs ! length seps)"
  obtain sh ris' where "bb_rep (bb_Add (index_block r) s ?c) (es @ [(sh, s, ?c)]) ris'" using bb_rep_Add [OF rep(1) assms(6)] by blast
  moreover have "map snd (es @ [(sh, s, ?c)]) = zip (seps @ [s]) (map block_code bs)"
    using assms(2) rep(2) by (simp add: zip_snoc_left)
  ultimately show "\<exists>es ris. bb_rep (bb_Add (index_block r) s ?c) es ris \<and> map snd es = zip (seps @ [s]) (map block_code bs)" by blast
  have "length ?c \<le> 20" using bh_EncodeTo_length by (simp add: block_code_def kMaxEncodedLength_def)
  then show "CurrentSizeEstimate (bb_Add (index_block r) s ?c) \<le> 8 + esize (concat (take (Suc (length seps)) gs))"
    using bb_Add_size [of "index_block r" s ?c] size assms(5) esize_last [OF assms(4)] esize_concat_nth [OF assms(3)] by linarith
qed

text \<open>The file only grows.\<close>

lemma offset_mono [simp]:
  "tb_offset (file_append r x) = tb_offset r" "tb_offset (filter_StartBlock r) = tb_offset r" "tb_offset (tb_assert c r) = tb_offset r"
  "tb_offset (add_index_entry r) = tb_offset r" "tb_offset (filter_AddKey r k) = tb_offset r"
  "tb_offset (check_order r k) = tb_offset r" "tb_offset (settle_index r k) = tb_offset r" "tb_offset (append_entry r k v) = tb_offset r"
  by (simp_all add: file_append_def filter_StartBlock_def tb_assert_def add_index_entry_def filter_AddKey_def check_order_def
      settle_index_def append_entry_def Let_def split: prod.split)

lemma WriteRawBlock_mono: "tb_offset r \<le> tb_offset (snd (WriteRawBlock r c ty))"
  by (simp add: WriteRawBlock_def Let_def)

lemma WriteBlock_mono: "tb_offset r \<le> tb_offset (snd (snd (WriteBlock sn r b)))"
  by (simp add: WriteBlock_def Let_def case_prod_beta) (rule order_trans [OF _ WriteRawBlock_mono], simp)

lemma Flush_mono: "tb_offset r \<le> tb_offset (tb_Flush sn r)"
  using WriteBlock_mono [of "tb_assert (\<not> pending_index_entry (tb_assert (\<not> closed r) r)) (tb_assert (\<not> closed r) r)" sn
      "data_block (tb_assert (\<not> pending_index_entry (tb_assert (\<not> closed r) r)) (tb_assert (\<not> closed r) r))"]
  by (simp add: tb_Flush_def Let_def case_prod_beta)

lemma write_mono:
  fixes r :: "'d TableBuilder"
  shows "tb_offset r \<le> tb_offset (snd (write_filter r))" "tb_offset r \<le> tb_offset (snd (write_metaindex sn r h))"
  "tb_offset r \<le> tb_offset (snd (write_index sn r))" "tb_offset r \<le> tb_offset (write_footer r h h')"
proof -
  have raw: "tb_offset r \<le> tb_offset (snd (WriteRawBlock r' c ty))" if "tb_offset r' = tb_offset r" for r' :: "'d TableBuilder" and c ty
    using WriteRawBlock_mono [of r'] that by simp
  then show "tb_offset r \<le> tb_offset (snd (write_filter r))"
    by (auto simp: write_filter_def case_prod_beta split: option.split bool.split)
  have blk: "tb_offset r \<le> tb_offset (snd (snd (WriteBlock sn r' b)))" if "tb_offset r' = tb_offset r" for r' :: "'d TableBuilder" and b
    using WriteBlock_mono [of r'] that by simp
  then show "tb_offset r \<le> tb_offset (snd (write_metaindex sn r h))"
    by (auto simp: write_metaindex_def case_prod_beta Let_def split: option.split)
  show "tb_offset r \<le> tb_offset (snd (write_index sn r))"
    using blk by (auto simp: write_index_def case_prod_beta Let_def)
  show "tb_offset r \<le> tb_offset (write_footer r h h')" by (simp add: write_footer_def case_prod_beta Let_def)
qed

lemma Finish_mono: "tb_offset r \<le> tb_offset (snd (tb_Finish sn r))"
proof -
  define r0 where "r0 = (tb_assert (\<not> closed (tb_Flush sn r)) (tb_Flush sn r))\<lparr>closed := True\<rparr>"
  obtain fh r1 where r1: "write_filter r0 = (fh, r1)" by fastforce
  obtain mh r2 where r2: "write_metaindex sn r1 fh = (mh, r2)" by fastforce
  obtain ih r3 where r3: "write_index sn r2 = (ih, r3)" by fastforce
  have "snd (tb_Finish sn r) = write_footer r3 mh ih" using r1 r2 r3 by (simp add: tb_Finish_def Let_def r0_def)
  then show ?thesis
    using write_mono(4) [of r3 mh ih] write_mono(3) [of r2 sn] write_mono(2) [of r1 sn fh] write_mono(1) [of r0] r1 r2 r3 Flush_mono [of r sn]
    by (simp add: r0_def)
qed

lemma Add_mono: "tb_offset r \<le> tb_offset (tb_Add sn r k v)"
  using Flush_mono [of "append_entry (settle_index (check_order (tb_assert (\<not> closed r) r) k) k) k v" sn]
  by (simp add: tb_Add_def Let_def)

lemma adds_mono: "tb_offset r \<le> tb_offset (foldl (\<lambda>r (k, v). tb_Add sn r k v) r kvs)"
proof (induction kvs arbitrary: r)
  case (Cons kv kvs)
  show ?case using Cons [of "tb_Add sn r (fst kv) (snd kv)"] Add_mono [of r sn "fst kv" "snd kv"] by (simp add: case_prod_beta)
qed simp

locale table_build = writable_file app flush written wf_ok
    + keys: table_keys "cmp_Compare (opt_comparator opt)" "cmp_FindShortestSeparator (opt_comparator opt)"
        "cmp_FindShortSuccessor (opt_comparator opt)" part
  for app :: "'d \<Rightarrow> bytes \<Rightarrow> status \<times> 'd" and flush written wf_ok and opt :: Options and part +
  fixes sn :: Snappy
  assumes snappy: "snappy_ok sn" and interval: "0 < block_restart_interval opt"
begin

abbreviation "cmp \<equiv> cmp_Compare (opt_comparator opt)"
abbreviation "built r bs seps cur \<equiv> tb_inv written wf_ok sn part opt (vtable_of app flush) r bs seps cur"

lemma new_inv:
  assumes "wf_ok f" and "written f = []"
  shows "built (new_TableBuilder opt (vtable_of app flush) f) [] [] []"
  using assms bb_rep_new [OF interval] bb_rep_new [of 1]
  by (cases "opt_filter_policy opt") (auto simp: tb_inv_def new_TableBuilder_def filter_StartBlock_def tb_io_def blocks_stored_def tb_data_def tb_index_def groups_def
      seps_ok_def tb_pending_def tb_last_def filter_state_def filter_calls_def fb_add_block_def CurrentSizeEstimate_def new_BlockBuilder_def)

text \<open>The separator before a new first key, and the index entry under it.\<close>

lemma separator_inv:
  assumes I: "built r bs seps []" and bs: "bs \<noteq> []" and k: "cmp (fst (last (snd (last bs)))) k < 0" and len: "length (tb_last_key r) < 2 ^ 32"
  defines "s \<equiv> cmp_FindShortestSeparator (opt_comparator opt) (tb_last_key r) k"
  defines "r' \<equiv> add_index_entry (r\<lparr>tb_last_key := s\<rparr>)"
  shows "\<exists>ib. r' = r\<lparr>tb_last_key := s, index_block := ib, pending_index_entry := False\<rparr>
    \<and> (\<exists>es ris. bb_rep ib es ris \<and> map snd es = zip (seps @ [s]) (map block_code bs))
    \<and> CurrentSizeEstimate ib \<le> 8 + esize (concat (take (Suc (length seps)) (groups bs [(k, v)])))
    \<and> seps_ok cmp part (seps @ [s]) (groups bs [(k, v)])"
proof -
  note D = tb_invD [OF I]
  have g: "groups bs [] = map snd bs" "groups bs [(k, v)] = map snd bs @ [[(k, v)]]" by (simp_all add: groups_def)
  have n: "length bs = Suc (length seps)" using D(6) bs by (simp add: g)
  have last: "last bs = bs ! length seps" "map snd bs ! length seps = snd (last bs)" using n bs by (simp_all add: last_conv_nth)
  have key: "tb_last_key r = fst (last (snd (last bs)))" using D(9) bs by (simp add: tb_last_def g last_map)
  have b: "snd (last bs) \<noteq> []" "bh_is_set (fst (last bs))" using D(3) bs by (simp_all add: blocks_stored_def)
  have p: "pending_handle r = fst (last bs)" using D(8) bs by (simp add: tb_pending_def)
  have sl: "length s \<le> length (tb_last_key r)" unfolding s_def by (rule keys.sep_length)
  have seps: "separates cmp part (fst (last (snd (last bs)))) s k"
    using keys.separator_ge [OF k] keys.separator_less [OF k] keys.sep_part [OF k] unfolding separates_def s_def key by blast
  have "seps_ok cmp part (seps @ [s]) (groups bs [(k, v)])"
    unfolding seps_ok_def
  proof (intro allI impI)
    fix i assume i: "i < length (seps @ [s])"
    show "separates cmp part (fst (last (groups bs [(k, v)] ! i))) ((seps @ [s]) ! i) (fst (hd (groups bs [(k, v)] ! Suc i)))"
    proof (cases "i = length seps")
      case True
      then show ?thesis using seps n last by (simp add: g nth_append)
    next
      case False
      then have i: "i < length seps" using i by simp
      then have "separates cmp part (fst (last (map snd bs ! i))) (seps ! i) (fst (hd (map snd bs ! Suc i)))"
        using D(7) n by (simp add: seps_ok_def g)
      then show ?thesis using i n by (simp add: g nth_append)
    qed
  qed
  moreover have "take (Suc (length seps)) (groups bs [(k, v)]) = take (Suc (length seps)) (map snd bs)" using n by (simp add: g)
  moreover have "r' = r\<lparr>tb_last_key := s, index_block := bb_Add (index_block r) s (block_code (bs ! length seps)), pending_index_entry := False\<rparr>"
    using b(2) p last(1) by (simp add: r'_def add_index_entry_def Let_def block_code_def)
  moreover have "length seps < length bs" "length seps < length (groups bs [])" "groups bs [] ! length seps = snd (last bs)"
      "length s \<le> length (fst (last (snd (last bs))))" "length s < 2 ^ 32"
    using n last sl len key by (simp_all add: g)
  ultimately show ?thesis
    using index_add [OF D(5), of s] b(1) unfolding g(1) by auto
qed

text \<open>The index when the first entry of a block arrives, and when one more does.\<close>

lemma entry_index:
  assumes I: "built r bs seps cur" and k: "groups bs cur \<noteq> [] \<Longrightarrow> cmp (fst (last (last (groups bs cur)))) k < 0"
    and len: "groups bs cur \<noteq> [] \<Longrightarrow> length (tb_last_key r) < 2 ^ 32"
  shows "\<exists>lk ib seps'. settle_index r k = r\<lparr>tb_last_key := lk, index_block := ib, pending_index_entry := False\<rparr>
      \<and> (\<exists>es ris. bb_rep ib es ris \<and> map snd es = zip seps' (map block_code bs))
      \<and> CurrentSizeEstimate ib \<le> 8 + esize (concat (take (length seps') (groups bs (cur @ [(k, v)]))))
      \<and> length seps' = length (groups bs (cur @ [(k, v)])) - 1 \<and> seps_ok cmp part seps' (groups bs (cur @ [(k, v)]))"
proof (cases "pending_index_entry r")
  case True
  then have c: "bs \<noteq> []" "cur = []" using tb_invD(8) [OF I] by (simp_all add: tb_pending_def)
  have "bb_empty (data_block r)" using tb_invD(4) [OF I] c(2) by (auto simp: tb_data_def bb_rep_def bb_empty_def body_Nil_iff)
  then have s: "settle_index r k = add_index_entry (r\<lparr>tb_last_key := cmp_FindShortestSeparator (opt_comparator opt) (tb_last_key r) k\<rparr>)"
    using True tb_ioD(3) [OF tb_invD(1) [OF I]] by (simp add: settle_index_def Let_def)
  have "cmp (fst (last (snd (last bs)))) k < 0" "length (tb_last_key r) < 2 ^ 32" using k len c by (simp_all add: groups_def last_map)
  note separator_inv [OF I [unfolded c(2)] c(1) this, of v, folded s]
  moreover have "Suc (length seps) = length (groups bs [(k, v)]) - 1" using tb_invD(6) [OF I] c by (simp add: groups_def)
  ultimately show ?thesis unfolding c(2) append_Nil by (metis length_append_singleton)
next
  case False
  then have c: "bs = [] \<or> cur \<noteq> []" using tb_invD(8) [OF I] by (auto simp: tb_pending_def)
  note D = tb_invD(5,6,7) [OF I]
  have n: "length seps = length bs" using D(2) c by (auto simp: groups_def)
  have "take (length seps) (groups bs (cur @ [(k, v)])) = take (length seps) (groups bs cur)" using n by (simp add: groups_def)
  moreover have "seps_ok cmp part seps (groups bs (cur @ [(k, v)]))"
  proof -
    have "hd (groups bs (cur @ [(k, v)]) ! Suc i) = hd (groups bs cur ! Suc i)" if "i < length seps" "cur \<noteq> []" for i
      using that n groups_nth [of "Suc i" bs cur] groups_nth [of "Suc i" bs "cur @ [(k, v)]"] by (cases "Suc i < length bs") auto
    then show ?thesis using D(3) n c by (auto simp: seps_ok_def groups_nth length_groups)
  qed
  moreover have "settle_index r k = r\<lparr>tb_last_key := tb_last_key r, index_block := index_block r, pending_index_entry := False\<rparr>"
    using False by (simp add: settle_index_def)
  ultimately show ?thesis
    using D(1) n unfolding tb_index_def
    by (intro exI [of _ "tb_last_key r"] exI [of _ "index_block r"] exI [of _ seps]) (simp add: groups_def)
qed

text \<open>What \<open>Add\<close> does before it decides whether to flush.\<close>

lemma entry_inv:
  assumes I: "built r bs seps cur" and k: "groups bs cur \<noteq> [] \<Longrightarrow> cmp (fst (last (last (groups bs cur)))) k < 0"
    and len: "groups bs cur \<noteq> [] \<Longrightarrow> length (tb_last_key r) < 2 ^ 32" "length k < 2 ^ 32"
  shows "\<exists>seps'. built (append_entry (settle_index r k) k v) bs seps' (cur @ [(k, v)])"
proof -
  note D = tb_invD [OF I] and io = tb_ioD [OF tb_invD(1) [OF I]]
  let ?gs = "groups bs (cur @ [(k, v)])" and ?r = "append_entry (settle_index r k) k v"
  obtain lk ib seps' where x: "settle_index r k = r\<lparr>tb_last_key := lk, index_block := ib, pending_index_entry := False\<rparr>"
      "\<exists>es ris. bb_rep ib es ris \<and> map snd es = zip seps' (map block_code bs)"
      "CurrentSizeEstimate ib \<le> 8 + esize (concat (take (length seps') ?gs))"
      "length seps' = length ?gs - 1" "seps_ok cmp part seps' ?gs"
    using entry_index [OF I k len(1), of v] by blast
  have r: "?r = r\<lparr>index_block := ib, pending_index_entry := False,
      filter_block := map_option (\<lambda>(p, fb). (p, fb_AddKey fb k)) (filter_block r), tb_last_key := k, num_entries := num_entries r + 1,
      data_block := bb_Add (data_block r) k v\<rparr>"
    unfolding x(1) by (simp add: append_entry_def filter_AddKey_def Let_def)
  obtain es ris where rep: "bb_rep (data_block r) es ris" "map snd es = cur" using D(4) by (auto simp: tb_data_def)
  obtain sh ris' where "bb_rep (bb_Add (data_block r) k v) (es @ [(sh, k, v)]) ris'" using bb_rep_Add [OF rep(1) len(2)] by blast
  then have "\<exists>es ris. bb_rep (bb_Add (data_block r) k v) es ris \<and> map snd es = cur @ [(k, v)]"
    using rep(2) by (intro exI [of _ "es @ [(sh, k, v)]"] exI [of _ ris']) simp
  moreover have "CurrentSizeEstimate (bb_Add (data_block r) k v) \<le> 8 + esize (cur @ [(k, v)])"
    using bb_Add_size [of "data_block r" k v] D(4) by (simp add: tb_data_def)
  ultimately have data: "tb_data ?r (cur @ [(k, v)])" by (simp add: tb_data_def r)
  have filt: "filter_block ?r = filter_state (opt_filter_policy opt) (filter_calls bs (tb_offset ?r) (cur @ [(k, v)]))"
    using D(10) by (cases "opt_filter_policy opt") (simp_all add: r filter_state_def filter_calls_def fb_add_block_def)
  have "length (concat ?gs) = length (concat (groups bs cur)) + 1" "?gs \<noteq> []" "last ?gs = cur @ [(k, v)]" by (simp_all add: groups_def)
  then have "tb_last ?r ?gs" using D(9) by (simp add: tb_last_def r)
  moreover have "tb_pending ?r bs (cur @ [(k, v)])" "tb_index ?r bs seps' ?gs" using x(2,3) by (simp_all add: tb_pending_def tb_index_def r)
  moreover have "tb_io written wf_ok opt (vtable_of app flush) ?r" "\<not> closed ?r" "tb_file ?r = tb_file r"
    using io D(2) by (simp_all add: tb_io_def r)
  ultimately have "built ?r bs seps' (cur @ [(k, v)])" using D(3) x(4,5) data filt unfolding tb_inv_def by simp
  then show ?thesis ..
qed

lemma built_Add:
  assumes I: "built r bs seps cur" and k: "groups bs cur \<noteq> [] \<Longrightarrow> cmp (fst (last (last (groups bs cur)))) k < 0"
  shows "tb_Add sn r k v = (let r' = append_entry (settle_index r k) k v
    in if block_size (tb_options r') \<le> CurrentSizeEstimate (data_block r') then tb_Flush sn r' else r')"
proof -
  note D = tb_invD [OF I] and io = tb_ioD [OF tb_invD(1) [OF I]]
  have "0 < cmp k (tb_last_key r)" if "num_entries r \<noteq> 0"
  proof -
    have "groups bs cur \<noteq> []" using D(9) that by (auto simp: tb_last_def)
    then show ?thesis using D(9) k keys.cmp_flip [of "tb_last_key r" k] by (simp add: tb_last_def)
  qed
  then have "check_order r k = r" using io(3) by (simp add: check_order_def)
  then show ?thesis using io(1) D(2) by (simp add: tb_Add_def tb_ok_def)
qed

lemma Add_inv:
  assumes I: "built r bs seps cur" and k: "groups bs cur \<noteq> [] \<Longrightarrow> cmp (fst (last (last (groups bs cur)))) k < 0"
    and size: "tb_offset (tb_Add sn r k v) < 2 ^ 63" "esize (concat (groups bs cur) @ [(k, v)]) + 8 < 2 ^ 32"
  shows "\<exists>bs' seps' cur'. built (tb_Add sn r k v) bs' seps' cur' \<and> concat (groups bs' cur') = concat (groups bs cur) @ [(k, v)]"
proof -
  have "length (tb_last_key r) < 2 ^ 32" if g: "groups bs cur \<noteq> []"
  proof -
    have "last (groups bs cur) \<noteq> []"
      using g tb_invD(3) [OF I] by (cases "cur = []") (auto simp: groups_def blocks_stored_def last_map)
    then have "length (fst (last (last (groups bs cur)))) + 64 \<le> esize (last (groups bs cur))" by (rule esize_last)
    moreover have "esize (last (groups bs cur)) \<le> esize (concat (groups bs cur))"
      by (subst (2) append_butlast_last_id [OF g, symmetric]) simp
    ultimately show ?thesis using size(2) tb_invD(9) [OF I] g by (simp add: tb_last_def)
  qed
  moreover have "length k < 2 ^ 32" using size(2) by simp
  ultimately obtain seps' where B: "built (append_entry (settle_index r k) k v) bs seps' (cur @ [(k, v)])"
    using entry_inv [OF I k] by blast
  let ?r = "append_entry (settle_index r k) k v"
  note A = built_Add [OF I k, of v, unfolded Let_def]
  have g: "concat (groups bs (cur @ [(k, v)])) = concat (groups bs cur) @ [(k, v)]" by (simp add: groups_def)
  show ?thesis
  proof (cases "block_size (tb_options ?r) \<le> CurrentSizeEstimate (data_block ?r)")
    case True
    then have A: "tb_Add sn r k v = tb_Flush sn ?r" using A by simp
    have "esize (cur @ [(k, v)]) + 8 < 2 ^ 32" using size(2) by (simp add: groups_def split: if_splits)
    then obtain h where "built (tb_Flush sn ?r) (bs @ [(h, cur @ [(k, v)])]) seps' []"
      using Flush_inv [OF B snappy] size(1) A by auto
    moreover have "concat (groups (bs @ [(h, cur @ [(k, v)])]) []) = concat (groups bs cur) @ [(k, v)]" by (simp add: groups_def)
    ultimately show ?thesis unfolding A by blast
  next
    case False
    then show ?thesis using A B g by auto
  qed
qed

lemma adds_inv:
  assumes "built r bs seps cur" and "entries_sorted cmp (concat (groups bs cur) @ kvs)"
    and "tb_offset (foldl (\<lambda>r (k, v). tb_Add sn r k v) r kvs) < 2 ^ 63" and "esize (concat (groups bs cur) @ kvs) + 8 < 2 ^ 32"
  shows "\<exists>bs' seps' cur'. built (foldl (\<lambda>r (k, v). tb_Add sn r k v) r kvs) bs' seps' cur'
    \<and> concat (groups bs' cur') = concat (groups bs cur) @ kvs"
  using assms
proof (induction kvs arbitrary: r bs seps cur)
  case (Cons kv kvs)
  obtain k v where kv: "kv = (k, v)" by (cases kv)
  have "cmp (fst (last (last (groups bs cur)))) k < 0" if g: "groups bs cur \<noteq> []"
  proof -
    have ne: "last (groups bs cur) \<noteq> []"
      using g tb_invD(3) [OF Cons.prems(1)] by (cases "cur = []") (auto simp: groups_def blocks_stored_def last_map)
    then have "last (last (groups bs cur)) \<in> set (concat (groups bs cur))"
      using last_in_set [OF g] last_in_set [OF ne] unfolding set_concat by blast
    then show ?thesis using Cons.prems(2) kv by (auto simp: entries_sorted_def sorted_wrt_append)
  qed
  moreover have "tb_offset (tb_Add sn r k v) < 2 ^ 63"
    using Cons.prems(3) adds_mono [of "tb_Add sn r k v" sn kvs] by (simp add: kv)
  moreover have "esize (concat (groups bs cur) @ [(k, v)]) + 8 < 2 ^ 32" using Cons.prems(4) by (simp add: kv)
  ultimately obtain bs' seps' cur' where "built (tb_Add sn r k v) bs' seps' cur'" "concat (groups bs' cur') = concat (groups bs cur) @ [(k, v)]"
    using Add_inv [OF Cons.prems(1), of k v] by blast
  then show ?case using Cons.IH [of "tb_Add sn r k v" bs' seps' cur'] Cons.prems(2-4) by (simp add: kv)
qed auto

lemma stored_append: "blocks_stored sn f bs \<Longrightarrow> blocks_stored sn (f @ x) bs"
proof -
  assume st: "blocks_stored sn f bs"
  have "\<exists>raw. stored_block sn (f @ x) (fst b) raw \<and> is_block raw (snd b)" if "b \<in> set bs" for b
    using st that stored_block_append unfolding blocks_stored_def by blast
  then show ?thesis using st unfolding blocks_stored_def by (auto simp: sorted_wrt_append)
qed

lemma finish_flush:
  assumes I: "built r bs seps cur" and size: "tb_offset (tb_Flush sn r) < 2 ^ 63" "esize (concat (groups bs cur)) + 8 < 2 ^ 32"
  shows "\<exists>bs'. built (tb_Flush sn r) bs' seps [] \<and> concat (map snd bs') = concat (groups bs cur)"
proof (cases "cur = []")
  case True
  have "bb_empty (data_block r)" using tb_invD(4) [OF I] True by (auto simp: tb_data_def bb_rep_def bb_empty_def body_Nil_iff)
  then have "tb_Flush sn r = r" using tb_invD(2) [OF I] by (simp add: tb_Flush_def Let_def)
  then show ?thesis using I True by (auto simp: groups_def)
next
  case False
  have "esize cur + 8 < 2 ^ 32" using size(2) False by (simp add: groups_def)
  then obtain h where "built (tb_Flush sn r) (bs @ [(h, cur)]) seps []" using Flush_inv [OF I snappy False size(1)] by blast
  then show ?thesis using False by (intro exI [of _ "bs @ [(h, cur)]"]) (simp add: groups_def)
qed

abbreviation "grows r r' \<equiv> tb_extends written wf_ok opt (vtable_of app flush) r r'"
abbreviation "good r \<equiv> tb_io written wf_ok opt (vtable_of app flush) r"

lemma grows_stored: "grows r r' \<Longrightarrow> stored_block sn (written (tb_file r)) h raw \<Longrightarrow> stored_block sn (written (tb_file r')) h raw"
  using stored_block_append by (auto simp: tb_extends_def)

lemma WriteBlock_grows:
  assumes "good r"
  shows "\<exists>h r'. WriteBlock sn r b = (h, bb_Reset (snd (bb_Finish b)), r') \<and> grows r r' \<and> filter_block r' = filter_block r
    \<and> (tb_offset r' < 2 ^ 63 \<longrightarrow> stored_block sn (written (tb_file r')) h (fst (bb_Finish b)) \<and> bh_is_set h)"
proof -
  note io = tb_ioD [OF assms]
  obtain f x h where w: "WriteBlock sn r b = (h, bb_Reset (snd (bb_Finish b)), r\<lparr>tb_status := OK, tb_file := f, tb_offset := length (written f)\<rparr>)"
      "written f = written (tb_file r) @ x" "wf_ok f"
      "length (written f) < 2 ^ 63 \<longrightarrow> stored_block sn (written f) h (fst (bb_Finish b)) \<and> bh_is_set h"
    using WriteBlock_ok [OF snappy io(4,5,1,6), of b] by blast
  then show ?thesis using assms by (auto simp: tb_extends_def tb_io_def)
qed

lemma write_filter_ok:
  assumes "good r" and f: "filter_block r = filter_state (opt_filter_policy opt) calls"
  shows "\<exists>h r'. write_filter r = (h, r') \<and> grows r r' \<and> (filter_block r' = None \<longleftrightarrow> opt_filter_policy opt = None)
    \<and> (tb_offset r' < 2 ^ 32 \<longrightarrow> (\<forall>p contents. opt_filter_policy opt = Some p \<longrightarrow>
         contents = fst (fb_Finish (fp_CreateFilter p) (foldl (fb_add_block (fp_CreateFilter p)) new_FilterBlockBuilder calls)) \<longrightarrow>
         bh_is_set h \<and> stored_block sn (written (tb_file r')) h contents \<and> length contents < 2 ^ 32))"
proof (cases "opt_filter_policy opt")
  case None
  then have "write_filter r = (new_BlockHandle, r)" "filter_block r = None"
    using f tb_ioD(1) [OF assms(1)] by (simp_all add: write_filter_def filter_state_def tb_ok_def)
  then show ?thesis using assms(1) None by (simp add: tb_extends_def)
next
  case (Some p)
  note io = tb_ioD [OF assms(1)]
  let ?fb = "foldl (fb_add_block (fp_CreateFilter p)) new_FilterBlockBuilder calls"
  let ?c = "fst (fb_Finish (fp_CreateFilter p) ?fb)" and ?r = "r\<lparr>filter_block := Some (p, snd (fb_Finish (fp_CreateFilter p) ?fb))\<rparr>"
  let ?h = "\<lparr>bh_offset = of_nat (tb_offset r), bh_size = of_nat (length ?c)\<rparr> :: BlockHandle"
  obtain f where f: "WriteRawBlock ?r ?c kNoCompression = (?h, ?r\<lparr>tb_status := OK, tb_file := f, tb_offset := tb_offset r + length ?c + 5\<rparr>)"
      "written f = written (tb_file r) @ ?c @ block_trailer ?c kNoCompression" "wf_ok f"
    using WriteRawBlock_ok [of ?r ?c kNoCompression] io(4,5) by auto
  have w: "write_filter r = (?h, ?r\<lparr>tb_status := OK, tb_file := f, tb_offset := tb_offset r + length ?c + 5\<rparr>)"
    using f(1) Some assms(2) io(1) by (simp add: write_filter_def filter_state_def tb_ok_def case_prod_beta)
  have "bh_is_set ?h \<and> stored_block sn (written f) ?h ?c" if "tb_offset r + length ?c + 5 < 2 ^ 32"
    using that stored_block_new [of sn kNoCompression ?c ?c "written (tb_file r)"] io(6) unfolding f(2)
    by (simp add: decompressed_def bh_is_set_def of_nat_set)
  moreover have "grows r (?r\<lparr>tb_status := OK, tb_file := f, tb_offset := tb_offset r + length ?c + 5\<rparr>)"
    using assms(1) f(2,3) by (simp add: tb_extends_def tb_io_def)
  ultimately show ?thesis unfolding w using Some by simp
qed

lemma write_metaindex_ok:
  assumes r: "good r" and f: "filter_block r = None \<longleftrightarrow> opt_filter_policy opt = None"
    and p: "\<And>p. opt_filter_policy opt = Some p \<Longrightarrow> bh_is_set fh \<and> length (fp_Name p) < 2 ^ 31"
  shows "\<exists>h r' raw. write_metaindex sn r fh = (h, r') \<and> grows r r'
    \<and> is_block raw (case opt_filter_policy opt of None \<Rightarrow> [] | Some p \<Rightarrow> [(meta_key p, bh_EncodeTo fh [])])
    \<and> (tb_offset r' < 2 ^ 63 \<longrightarrow> stored_block sn (written (tb_file r')) h raw \<and> bh_is_set h)"
proof -
  let ?new = "new_BlockBuilder (block_restart_interval opt)"
  let ?kvs = "case opt_filter_policy opt of None \<Rightarrow> [] | Some p \<Rightarrow> [(meta_key p, bh_EncodeTo fh [])]"
  let ?b = "bb_add_all ?new ?kvs"
  obtain h r' where w: "WriteBlock sn r ?b = (h, bb_Reset (snd (bb_Finish ?b)), r')" "grows r r'"
      "tb_offset r' < 2 ^ 63 \<longrightarrow> stored_block sn (written (tb_file r')) h (fst (bb_Finish ?b)) \<and> bh_is_set h"
    using WriteBlock_grows [OF r] by blast
  have "write_metaindex sn r fh = (h, r')"
    using w(1) tb_ioD(1,3) [OF r] f p by (cases "opt_filter_policy opt") (auto simp: write_metaindex_def tb_ok_def bb_add_all_def Let_def split: option.split)
  moreover have mk: "length (meta_key p) < 2 ^ 31 + 7" if "opt_filter_policy opt = Some p" for p
    using p [OF that] by (simp add: meta_key_def lit_def)
  then have kl: "\<forall>(k, v) \<in> set ?kvs. length k < 2 ^ 32" by (cases "opt_filter_policy opt") fastforce+
  moreover have "CurrentSizeEstimate ?b < 2 ^ 32"
  proof (cases "opt_filter_policy opt")
    case (Some p)
    have "CurrentSizeEstimate ?new = 8" by (simp add: CurrentSizeEstimate_def new_BlockBuilder_def)
    moreover have "length (bh_EncodeTo fh []) \<le> 20" using bh_EncodeTo_length [of fh] by (simp add: kMaxEncodedLength_def)
    moreover have "?b = bb_Add ?new (meta_key p) (bh_EncodeTo fh [])" using Some by (simp add: bb_add_all_def)
    ultimately show ?thesis using bb_Add_size [of ?new "meta_key p" "bh_EncodeTo fh []"] mk [OF Some] by simp
  qed (simp add: bb_add_all_def CurrentSizeEstimate_def new_BlockBuilder_def)
  ultimately show ?thesis
    using w(2,3) bb_rep_add_all [OF bb_rep_new [OF interval] kl] is_block_Finish by fastforce
qed

text \<open>The index: an entry under the successor of the last key for the last block, and the block itself.\<close>

lemma write_index_ok:
  assumes r: "good r" and idx: "tb_index r bs seps (map snd bs)" and n: "length seps = length bs - 1"
    and ne: "\<forall>b \<in> set bs. snd b \<noteq> [] \<and> bh_is_set (fst b)"
    and pend: "pending_index_entry r \<longleftrightarrow> bs \<noteq> []" "bs \<noteq> [] \<Longrightarrow> pending_handle r = fst (last bs)"
      "bs \<noteq> [] \<Longrightarrow> tb_last_key r = fst (last (snd (last bs)))"
    and size: "esize (concat (map snd bs)) + 8 < 2 ^ 32"
  shows "\<exists>h r' raw seps'. write_index sn r = (h, r') \<and> good r' \<and> (\<exists>x. written (tb_file r') = written (tb_file r) @ x)
    \<and> is_block raw (zip seps' (map block_code bs)) \<and> length seps' = length bs \<and> take (length bs - 1) seps' = seps
    \<and> (bs \<noteq> [] \<longrightarrow> cmp (fst (last (snd (last bs)))) (last seps') \<le> 0) \<and> closed r' = closed r
    \<and> (tb_offset r' < 2 ^ 63 \<longrightarrow> stored_block sn (written (tb_file r')) h raw \<and> bh_is_set h)"
proof (cases "bs = []")
  case True
  obtain h r' where w: "WriteBlock sn r (index_block r) = (h, bb_Reset (snd (bb_Finish (index_block r))), r')" "grows r r'"
      "tb_offset r' < 2 ^ 63 \<longrightarrow> stored_block sn (written (tb_file r')) h (fst (bb_Finish (index_block r))) \<and> bh_is_set h"
    using WriteBlock_grows [OF r] by blast
  have "write_index sn r = (h, r'\<lparr>index_block := bb_Reset (snd (bb_Finish (index_block r)))\<rparr>)"
    using True pend(1) w(1) tb_ioD(1) [OF r] by (simp add: write_index_def tb_ok_def Let_def)
  moreover obtain es ris where "bb_rep (index_block r) es ris" "map snd es = zip seps (map block_code bs)" "CurrentSizeEstimate (index_block r) \<le> 8"
    using idx True by (auto simp: tb_index_def)
  then have "is_block (fst (bb_Finish (index_block r))) (zip [] (map block_code bs))"
    using is_block_Finish [of "index_block r" es ris] True by simp
  ultimately show ?thesis using True n w(2,3) by (auto simp: tb_extends_def tb_io_def)
next
  case False
  let ?s = "cmp_FindShortSuccessor (opt_comparator opt) (tb_last_key r)"
  have m: "length bs = Suc (length seps)" using n False by simp
  then have last: "last bs = bs ! length seps" "length seps < length bs" using False by (simp_all add: last_conv_nth)
  have nl: "snd (last bs) \<noteq> []" "bh_is_set (fst (last bs))" using ne False by simp_all
  let ?ib = "bb_Add (index_block r) ?s (block_code (bs ! length seps))"
  let ?r = "r\<lparr>tb_last_key := ?s, index_block := ?ib, pending_index_entry := False\<rparr>"
  have a: "add_index_entry (r\<lparr>tb_last_key := ?s\<rparr>) = ?r"
    using pend(2) False nl(2) last(1) by (simp add: add_index_entry_def Let_def block_code_def)
  have g: "good ?r" using r by (simp add: tb_io_def)
  obtain h r' where w: "WriteBlock sn ?r ?ib = (h, bb_Reset (snd (bb_Finish ?ib)), r')" "grows ?r r'"
      "tb_offset r' < 2 ^ 63 \<longrightarrow> stored_block sn (written (tb_file r')) h (fst (bb_Finish ?ib)) \<and> bh_is_set h"
    using WriteBlock_grows [OF g] by blast
  have W: "write_index sn r = (h, r'\<lparr>index_block := bb_Reset (snd (bb_Finish ?ib))\<rparr>)"
    using False pend(1) w(1) tb_ioD(1,3) [OF r] by (simp add: write_index_def tb_ok_def Let_def a)
  have sl: "length ?s \<le> length (fst (last (snd (last bs))))" using keys.succ_length pend(3) False by metis
  have "length (fst (last (snd (last bs)))) + 64 \<le> esize (snd (last bs))" using esize_last [OF nl(1)] .
  moreover have "esize (snd (last bs)) \<le> esize (concat (map snd bs))"
    by (subst (2) append_butlast_last_id [OF False, symmetric]) simp
  ultimately have "length ?s < 2 ^ 32" using sl size by linarith
  then obtain es ris where rep: "bb_rep ?ib es ris" "map snd es = zip (seps @ [?s]) (map block_code bs)"
      "CurrentSizeEstimate ?ib \<le> 8 + esize (concat (take (Suc (length seps)) (map snd bs)))"
    using index_add [OF idx last(2), of ?s] sl nl(1) last m by auto
  moreover have "take (Suc (length seps)) (map snd bs) = map snd bs" using m by simp
  ultimately have "is_block (fst (bb_Finish ?ib)) (zip (seps @ [?s]) (map block_code bs))"
    using is_block_Finish [OF rep(1)] size by simp
  moreover have "cmp (fst (last (snd (last bs)))) (last (seps @ [?s])) \<le> 0" using keys.successor_ge pend(3) False by simp
  ultimately show ?thesis
    using W w(2,3) m by (intro exI [of _ h] exI [of _ "r'\<lparr>index_block := bb_Reset (snd (bb_Finish ?ib))\<rparr>"] exI [of _ "fst (bb_Finish ?ib)"]
        exI [of _ "seps @ [?s]"]) (auto simp: tb_extends_def tb_io_def)
qed

lemma write_footer_ok:
  assumes "good r" and "bh_is_set mh" and "bh_is_set ih"
  shows "\<exists>r'. write_footer r mh ih = r' \<and> good r' \<and> closed r' = closed r
    \<and> written (tb_file r') = written (tb_file r) @ fst (Footer_EncodeTo \<lparr>metaindex_handle = mh, index_handle = ih\<rparr> [])"
proof -
  let ?e = "Footer_EncodeTo \<lparr>metaindex_handle = mh, index_handle = ih\<rparr> []"
  note io = tb_ioD [OF assms(1)]
  obtain f where f: "file_append r (fst ?e) = r\<lparr>tb_status := OK, tb_file := f\<rparr>" "written f = written (tb_file r) @ fst ?e" "wf_ok f"
    using file_append_ok [OF io(4,5)] by blast
  have "write_footer r mh ih = r\<lparr>tb_status := OK, tb_file := f, tb_offset := tb_offset r + length (fst ?e)\<rparr>"
    using assms(2,3) io(1) f(1) footer_length(2) by (simp add: write_footer_def tb_ok_def case_prod_beta Let_def)
  then show ?thesis using assms(1) f(2,3) by (simp add: tb_io_def)
qed

lemma Finish_layout:
  assumes I: "built r bs seps cur" and size: "tb_offset (snd (tb_Finish sn r)) < 2 ^ 32" "esize (concat (groups bs cur)) + 8 < 2 ^ 32"
    and name: "\<And>p. opt_filter_policy opt = Some p \<Longrightarrow> length (fp_Name p) < 2 ^ 31"
  shows "\<exists>r' bs' seps'. tb_Finish sn r = (OK, r') \<and> good r' \<and> closed r'
    \<and> table_layout sn opt part (written (tb_file r')) bs' seps' \<and> concat (map snd bs') = concat (groups bs cur)"
proof -
  define r0 where "r0 = (tb_assert (\<not> closed (tb_Flush sn r)) (tb_Flush sn r))\<lparr>closed := True\<rparr>"
  obtain fh r1 where r1: "write_filter r0 = (fh, r1)" by fastforce
  obtain mh r2 where r2: "write_metaindex sn r1 fh = (mh, r2)" by fastforce
  obtain ih r3 where r3: "write_index sn r2 = (ih, r3)" by fastforce
  define r4 where "r4 = write_footer r3 mh ih"
  have F: "tb_Finish sn r = (tb_status r4, r4)" using r1 r2 r3 by (simp add: tb_Finish_def Let_def r0_def r4_def)
  have "tb_offset r3 \<le> tb_offset r4" "tb_offset r2 \<le> tb_offset r3" "tb_offset r1 \<le> tb_offset r2" "tb_offset r0 \<le> tb_offset r1"
    using write_mono(4) [of r3 mh ih] write_mono(3) [of r2 sn] write_mono(2) [of r1 sn fh] write_mono(1) [of r0] r1 r2 r3 by (simp_all add: r4_def)
  moreover have "tb_offset r4 < 2 ^ 32" using size(1) F by simp
  ultimately have small: "tb_offset r1 < 2 ^ 32" "tb_offset r2 < 2 ^ 32" "tb_offset r3 < 2 ^ 32" "tb_offset (tb_Flush sn r) < 2 ^ 63"
    by (simp_all add: r0_def)
  obtain bs' where B: "built (tb_Flush sn r) bs' seps []" "concat (map snd bs') = concat (groups bs cur)"
    using finish_flush [OF I small(4) size(2)] by blast
  note D = tb_invD [OF B(1)] have g: "groups bs' [] = map snd bs'" by (simp add: groups_def)
  have r0: "r0 = (tb_Flush sn r)\<lparr>closed := True\<rparr>" using D(2) by (simp add: r0_def)
  have good0: "good r0" using D(1) by (simp add: r0 tb_io_def)
  let ?calls = "filter_calls bs' (tb_offset r0) []"
  have f0: "filter_block r0 = filter_state (opt_filter_policy opt) ?calls" using D(10) by (simp add: r0)
  have w1: "grows r0 r1" "filter_block r1 = None \<longleftrightarrow> opt_filter_policy opt = None"
      "\<And>p contents. opt_filter_policy opt = Some p \<Longrightarrow>
         contents = fst (fb_Finish (fp_CreateFilter p) (foldl (fb_add_block (fp_CreateFilter p)) new_FilterBlockBuilder ?calls)) \<Longrightarrow>
         bh_is_set fh \<and> stored_block sn (written (tb_file r1)) fh contents \<and> length contents < 2 ^ 32"
    using write_filter_ok [OF good0 f0] r1 small(1) by auto
  have good1: "good r1" using w1(1) by (simp add: tb_extends_def)
  obtain mraw where w2: "grows r1 r2" "is_block mraw (case opt_filter_policy opt of None \<Rightarrow> [] | Some p \<Rightarrow> [(meta_key p, bh_EncodeTo fh [])])"
      "stored_block sn (written (tb_file r2)) mh mraw" "bh_is_set mh"
    using write_metaindex_ok [OF good1 w1(2), of fh] w1(3) name r2 small(2) by auto
  have good2: "good r2" using w2(1) by (simp add: tb_extends_def)
  have same: "index_block r2 = index_block r0" "pending_index_entry r2 = pending_index_entry r0" "pending_handle r2 = pending_handle r0"
      "tb_last_key r2 = tb_last_key r0" "closed r2"
    using w1(1) w2(1) by (simp_all add: tb_extends_def r0)
  have "tb_index r2 bs' seps (map snd bs')" using D(5) same(1) by (simp add: tb_index_def r0 g)
  moreover have "length seps = length bs' - 1" using D(6) by (simp add: g)
  moreover have "\<forall>b \<in> set bs'. snd b \<noteq> [] \<and> bh_is_set (fst b)" using D(3) by (simp add: blocks_stored_def)
  moreover have "pending_index_entry r2 \<longleftrightarrow> bs' \<noteq> []" "bs' \<noteq> [] \<Longrightarrow> pending_handle r2 = fst (last bs')"
      "bs' \<noteq> [] \<Longrightarrow> tb_last_key r2 = fst (last (snd (last bs')))"
    using D(8,9) same by (auto simp: tb_pending_def tb_last_def r0 g last_map)
  moreover have "esize (concat (map snd bs')) + 8 < 2 ^ 32" using size(2) B(2) by simp
  ultimately obtain iraw seps' where w3: "good r3" "\<exists>x. written (tb_file r3) = written (tb_file r2) @ x"
      "is_block iraw (zip seps' (map block_code bs'))" "length seps' = length bs'" "take (length bs' - 1) seps' = seps"
      "bs' \<noteq> [] \<longrightarrow> cmp (fst (last (snd (last bs')))) (last seps') \<le> 0" "closed r3"
      "stored_block sn (written (tb_file r3)) ih iraw" "bh_is_set ih"
    using write_index_ok [OF good2, of bs' seps] r3 small(3) same(5) by auto
  have w4: "good r4" "closed r4" "written (tb_file r4) = written (tb_file r3) @ fst (Footer_EncodeTo \<lparr>metaindex_handle = mh, index_handle = ih\<rparr> [])"
    using write_footer_ok [OF w3(1) w2(4) w3(9)] w3(7) by (simp_all add: r4_def)
  obtain x1 x2 x3 where x: "written (tb_file r1) = written (tb_file r0) @ x1" "written (tb_file r2) = written (tb_file r1) @ x2"
      "written (tb_file r3) = written (tb_file r2) @ x3"
    using w1(1) w2(1) w3(2) by (auto simp: tb_extends_def)
  let ?f = "written (tb_file r4)"
  have st: "blocks_stored sn ?f bs'" using stored_append [OF D(3)] x w4(3) by (simp add: r0)
  have s1: "stored_block sn ?f fh raw" if "stored_block sn (written (tb_file r1)) fh raw" for raw
    using stored_block_append [OF that] x w4(3) by simp
  have "meta_layout sn (opt_filter_policy opt) ?f bs' mraw"
  proof (cases "opt_filter_policy opt")
    case None
    then show ?thesis using w2(2) by (simp add: meta_layout_def)
  next
    case (Some p)
    have "\<forall>b \<in> set bs'. block_offset b \<le> tb_offset r0"
      using D(3) tb_ioD(6) [OF D(1)] by (auto simp: blocks_stored_def sorted_wrt_append r0 less_imp_le)
    then show ?thesis using w1(3) [OF Some refl] s1 w2(2) Some unfolding meta_layout_def by fastforce
  qed
  moreover have "stored_block sn ?f mh mraw" "stored_block sn ?f ih iraw"
    using stored_block_append [OF w2(3)] stored_block_append [OF w3(8)] x w4(3) by simp_all
  moreover have "seps_ok cmp part seps' (map snd bs')"
  proof -
    have "seps' ! i = seps ! i" if "Suc i < length bs'" for i using that w3(5) by (metis less_diff_conv nth_take Suc_eq_plus1)
    then show ?thesis using D(6,7) w3(4) by (auto simp: seps_ok_def g)
  qed
  ultimately have "table_layout sn opt part ?f bs' seps'" using w3(3,4,6) st w4(3) unfolding table_layout_def by blast
  moreover have "tb_Finish sn r = (OK, r4)" using F tb_ioD(1) [OF w4(1)] by simp
  ultimately show ?thesis using w4(1,2) B(2) by blast
qed

text \<open>A table built from sorted entries.\<close>

lemma build_layout:
  assumes "wf_ok f" and "written f = []" and "entries_sorted cmp kvs" and "esize kvs + 8 < 2 ^ 32"
    and "\<And>p. opt_filter_policy opt = Some p \<Longrightarrow> length (fp_Name p) < 2 ^ 31"
    and "FileSize (snd (build_table sn opt (vtable_of app flush) f kvs)) < 2 ^ 32"
  shows "\<exists>r bs seps. build_table sn opt (vtable_of app flush) f kvs = (OK, r) \<and> good r \<and> closed r
    \<and> table_layout sn opt part (written (tb_file r)) bs seps \<and> concat (map snd bs) = kvs"
proof -
  let ?r = "foldl (\<lambda>r (k, v). tb_Add sn r k v) (new_TableBuilder opt (vtable_of app flush) f) kvs"
  have "tb_offset ?r \<le> tb_offset (snd (tb_Finish sn ?r))" by (rule Finish_mono)
  then have "tb_offset ?r < 2 ^ 63" using assms(6) by (simp add: build_table_def FileSize_def)
  then obtain bs seps cur where "built ?r bs seps cur" "concat (groups bs cur) = kvs"
    using adds_inv [OF new_inv [OF assms(1,2)], of kvs] assms(3,4) by (auto simp: groups_def)
  then show ?thesis using Finish_layout [of ?r bs seps cur] assms(4-6) by (simp add: build_table_def FileSize_def)
qed

end

end
