(* ===== verification/TwoLevel.thy ===== *)
theory TwoLevel
  imports Iterators "HOL-Library.Monad_Syntax"
begin

text \<open>
  \<open>table/iterator_wrapper.h\<close> and \<open>table/two_level_iterator.cc\<close>. A wrapper caches whether its iterator is valid and
  its key. A two-level iterator runs over the blocks that the values of an index iterator name; \<open>bf\<close> is the
  block function with its argument and read options. \<open>None\<close> stands for a call through a null iterator and for a
  loop that does not end. The contract: with an index that separates its blocks the iterator runs over the
  concatenation of their entries.
\<close>

section \<open>The wrapper\<close>

record 'i IteratorWrapper =
  iw_iter :: "'i option"
  iw_valid :: bool
  iw_key :: bytes

definition iw_null :: "'i IteratorWrapper \<Rightarrow> bool" where
  "iw_null w = Option.is_none (iw_iter w)"

definition iw_Update :: "'i iter_ops \<Rightarrow> 'i \<Rightarrow> 'i IteratorWrapper \<Rightarrow> 'i IteratorWrapper" where
  "iw_Update ops i w =
     (if op_Valid ops i then w\<lparr>iw_valid := True, iw_key := op_key ops i\<rparr> else w\<lparr>iw_valid := False\<rparr>)"

definition iw_Set :: "'i iter_ops \<Rightarrow> 'i IteratorWrapper \<Rightarrow> 'i option \<Rightarrow> 'i IteratorWrapper" where
  "iw_Set ops w it =
     (case it of
        None \<Rightarrow> w\<lparr>iw_iter := None, iw_valid := False\<rparr>
      | Some i \<Rightarrow> iw_Update ops i (w\<lparr>iw_iter := Some i\<rparr>))"

definition new_IteratorWrapper :: "'i iter_ops \<Rightarrow> 'i option \<Rightarrow> 'i IteratorWrapper" where
  "new_IteratorWrapper ops it = iw_Set ops \<lparr>iw_iter = None, iw_valid = False, iw_key = []\<rparr> it"

definition iw_value :: "'i iter_ops \<Rightarrow> 'i IteratorWrapper \<Rightarrow> bytes" where
  "iw_value ops w = (case iw_iter w of None \<Rightarrow> [] | Some i \<Rightarrow> op_value ops i)"

definition iw_Next :: "'i iter_ops \<Rightarrow> 'i IteratorWrapper \<Rightarrow> 'i IteratorWrapper option" where
  "iw_Next ops w = do {i \<leftarrow> iw_iter w; let i = op_Next ops i; Some (iw_Update ops i (w\<lparr>iw_iter := Some i\<rparr>))}"

definition iw_Prev :: "'i iter_ops \<Rightarrow> 'i IteratorWrapper \<Rightarrow> 'i IteratorWrapper option" where
  "iw_Prev ops w = do {i \<leftarrow> iw_iter w; let i = op_Prev ops i; Some (iw_Update ops i (w\<lparr>iw_iter := Some i\<rparr>))}"

definition iw_Seek :: "'i iter_ops \<Rightarrow> 'i IteratorWrapper \<Rightarrow> bytes \<Rightarrow> 'i IteratorWrapper option" where
  "iw_Seek ops w k = do {i \<leftarrow> iw_iter w; let i = op_Seek ops i k; Some (iw_Update ops i (w\<lparr>iw_iter := Some i\<rparr>))}"

definition iw_SeekToFirst :: "'i iter_ops \<Rightarrow> 'i IteratorWrapper \<Rightarrow> 'i IteratorWrapper option" where
  "iw_SeekToFirst ops w = do {i \<leftarrow> iw_iter w; let i = op_SeekToFirst ops i; Some (iw_Update ops i (w\<lparr>iw_iter := Some i\<rparr>))}"

definition iw_SeekToLast :: "'i iter_ops \<Rightarrow> 'i IteratorWrapper \<Rightarrow> 'i IteratorWrapper option" where
  "iw_SeekToLast ops w = do {i \<leftarrow> iw_iter w; let i = op_SeekToLast ops i; Some (iw_Update ops i (w\<lparr>iw_iter := Some i\<rparr>))}"

section \<open>The two-level iterator\<close>

record ('i, 'd) TwoLevelIterator =
  tl_status :: status
  tl_index :: "'i IteratorWrapper"
  tl_data :: "'d IteratorWrapper"
  data_block_handle :: bytes

definition NewTwoLevelIterator :: "'i iter_ops \<Rightarrow> 'd iter_ops \<Rightarrow> 'i \<Rightarrow> ('i, 'd) TwoLevelIterator" where
  "NewTwoLevelIterator iops dops index_iter =
     \<lparr>tl_status = OK, tl_index = new_IteratorWrapper iops (Some index_iter), tl_data = new_IteratorWrapper dops None,
      data_block_handle = []\<rparr>"

definition tl_SaveError :: "('i, 'd) TwoLevelIterator \<Rightarrow> status \<Rightarrow> ('i, 'd) TwoLevelIterator" where
  "tl_SaveError t s = (if status_ok (tl_status t) \<and> \<not> status_ok s then t\<lparr>tl_status := s\<rparr> else t)"

definition SetDataIterator :: "'d iter_ops \<Rightarrow> ('i, 'd) TwoLevelIterator \<Rightarrow> 'd option \<Rightarrow> ('i, 'd) TwoLevelIterator" where
  "SetDataIterator dops t data_iter =
     (let t = (case iw_iter (tl_data t) of None \<Rightarrow> t | Some d \<Rightarrow> tl_SaveError t (op_status dops d))
      in t\<lparr>tl_data := iw_Set dops (tl_data t) data_iter\<rparr>)"

definition InitDataBlock ::
  "'i iter_ops \<Rightarrow> 'd iter_ops \<Rightarrow> (bytes \<Rightarrow> 'd) \<Rightarrow> ('i, 'd) TwoLevelIterator \<Rightarrow> ('i, 'd) TwoLevelIterator" where
  "InitDataBlock iops dops bf t =
     (if \<not> iw_valid (tl_index t) then SetDataIterator dops t None
      else let handle = iw_value iops (tl_index t)
           in if \<not> iw_null (tl_data t) \<and> slice_compare handle (data_block_handle t) = 0 then t
              else SetDataIterator dops (t\<lparr>data_block_handle := handle\<rparr>) (Some (bf handle)))"

text \<open>A call on the data iterator unless it is null.\<close>

definition on_data ::
  "('d IteratorWrapper \<Rightarrow> 'd IteratorWrapper option) \<Rightarrow> ('i, 'd) TwoLevelIterator \<Rightarrow> ('i, 'd) TwoLevelIterator option" where
  "on_data f t = (if iw_null (tl_data t) then Some t else do {d \<leftarrow> f (tl_data t); Some (t\<lparr>tl_data := d\<rparr>)})"

partial_function (option) SkipEmptyDataBlocksForward ::
  "'i iter_ops \<Rightarrow> 'd iter_ops \<Rightarrow> (bytes \<Rightarrow> 'd) \<Rightarrow> ('i, 'd) TwoLevelIterator \<Rightarrow> ('i, 'd) TwoLevelIterator option" where
  "SkipEmptyDataBlocksForward iops dops bf t =
     (if iw_null (tl_data t) \<or> \<not> iw_valid (tl_data t) then
        if \<not> iw_valid (tl_index t) then Some (SetDataIterator dops t None)
        else do {
          i \<leftarrow> iw_Next iops (tl_index t);
          t2 \<leftarrow> on_data (iw_SeekToFirst dops) (InitDataBlock iops dops bf (t\<lparr>tl_index := i\<rparr>));
          SkipEmptyDataBlocksForward iops dops bf t2}
      else Some t)"

partial_function (option) SkipEmptyDataBlocksBackward ::
  "'i iter_ops \<Rightarrow> 'd iter_ops \<Rightarrow> (bytes \<Rightarrow> 'd) \<Rightarrow> ('i, 'd) TwoLevelIterator \<Rightarrow> ('i, 'd) TwoLevelIterator option" where
  "SkipEmptyDataBlocksBackward iops dops bf t =
     (if iw_null (tl_data t) \<or> \<not> iw_valid (tl_data t) then
        if \<not> iw_valid (tl_index t) then Some (SetDataIterator dops t None)
        else do {
          i \<leftarrow> iw_Prev iops (tl_index t);
          t2 \<leftarrow> on_data (iw_SeekToLast dops) (InitDataBlock iops dops bf (t\<lparr>tl_index := i\<rparr>));
          SkipEmptyDataBlocksBackward iops dops bf t2}
      else Some t)"

definition tl_Seek ::
  "'i iter_ops \<Rightarrow> 'd iter_ops \<Rightarrow> (bytes \<Rightarrow> 'd) \<Rightarrow> ('i, 'd) TwoLevelIterator \<Rightarrow> bytes \<Rightarrow> ('i, 'd) TwoLevelIterator option" where
  "tl_Seek iops dops bf t target =
     do {i \<leftarrow> iw_Seek iops (tl_index t) target;
         t1 \<leftarrow> on_data (\<lambda>d. iw_Seek dops d target) (InitDataBlock iops dops bf (t\<lparr>tl_index := i\<rparr>));
         SkipEmptyDataBlocksForward iops dops bf t1}"

definition tl_SeekToFirst ::
  "'i iter_ops \<Rightarrow> 'd iter_ops \<Rightarrow> (bytes \<Rightarrow> 'd) \<Rightarrow> ('i, 'd) TwoLevelIterator \<Rightarrow> ('i, 'd) TwoLevelIterator option" where
  "tl_SeekToFirst iops dops bf t =
     do {i \<leftarrow> iw_SeekToFirst iops (tl_index t);
         t1 \<leftarrow> on_data (iw_SeekToFirst dops) (InitDataBlock iops dops bf (t\<lparr>tl_index := i\<rparr>));
         SkipEmptyDataBlocksForward iops dops bf t1}"

definition tl_SeekToLast ::
  "'i iter_ops \<Rightarrow> 'd iter_ops \<Rightarrow> (bytes \<Rightarrow> 'd) \<Rightarrow> ('i, 'd) TwoLevelIterator \<Rightarrow> ('i, 'd) TwoLevelIterator option" where
  "tl_SeekToLast iops dops bf t =
     do {i \<leftarrow> iw_SeekToLast iops (tl_index t);
         t1 \<leftarrow> on_data (iw_SeekToLast dops) (InitDataBlock iops dops bf (t\<lparr>tl_index := i\<rparr>));
         SkipEmptyDataBlocksBackward iops dops bf t1}"

definition tl_Valid :: "('i, 'd) TwoLevelIterator \<Rightarrow> bool" where
  "tl_Valid t = iw_valid (tl_data t)"

definition tl_Next ::
  "'i iter_ops \<Rightarrow> 'd iter_ops \<Rightarrow> (bytes \<Rightarrow> 'd) \<Rightarrow> ('i, 'd) TwoLevelIterator \<Rightarrow> ('i, 'd) TwoLevelIterator option" where
  "tl_Next iops dops bf t =
     (if \<not> tl_Valid t then None
      else do {d \<leftarrow> iw_Next dops (tl_data t); SkipEmptyDataBlocksForward iops dops bf (t\<lparr>tl_data := d\<rparr>)})"

definition tl_Prev ::
  "'i iter_ops \<Rightarrow> 'd iter_ops \<Rightarrow> (bytes \<Rightarrow> 'd) \<Rightarrow> ('i, 'd) TwoLevelIterator \<Rightarrow> ('i, 'd) TwoLevelIterator option" where
  "tl_Prev iops dops bf t =
     (if \<not> tl_Valid t then None
      else do {d \<leftarrow> iw_Prev dops (tl_data t); SkipEmptyDataBlocksBackward iops dops bf (t\<lparr>tl_data := d\<rparr>)})"

definition tl_get_status :: "'i iter_ops \<Rightarrow> 'd iter_ops \<Rightarrow> ('i, 'd) TwoLevelIterator \<Rightarrow> status" where
  "tl_get_status iops dops t =
     (let index_status = (case iw_iter (tl_index t) of None \<Rightarrow> OK | Some i \<Rightarrow> op_status iops i)
      in if \<not> status_ok index_status then index_status
         else case iw_iter (tl_data t) of
                Some d \<Rightarrow> if \<not> status_ok (op_status dops d) then op_status dops d else tl_status t
              | None \<Rightarrow> tl_status t)"

text \<open>The virtual methods; the state is \<open>None\<close> after a call that did not return.\<close>

definition two_level_ops ::
  "'i iter_ops \<Rightarrow> 'd iter_ops \<Rightarrow> (bytes \<Rightarrow> 'd) \<Rightarrow> ('i, 'd) TwoLevelIterator option iter_ops" where
  "two_level_ops iops dops bf =
     \<lparr>op_Valid = (\<lambda>s. case s of None \<Rightarrow> False | Some t \<Rightarrow> tl_Valid t),
      op_SeekToFirst = (\<lambda>s. Option.bind s (tl_SeekToFirst iops dops bf)),
      op_SeekToLast = (\<lambda>s. Option.bind s (tl_SeekToLast iops dops bf)),
      op_Seek = (\<lambda>s k. Option.bind s (\<lambda>t. tl_Seek iops dops bf t k)),
      op_Next = (\<lambda>s. Option.bind s (tl_Next iops dops bf)),
      op_Prev = (\<lambda>s. Option.bind s (tl_Prev iops dops bf)),
      op_key = (\<lambda>s. case s of None \<Rightarrow> [] | Some t \<Rightarrow> iw_key (tl_data t)),
      op_value = (\<lambda>s. case s of None \<Rightarrow> [] | Some t \<Rightarrow> iw_value dops (tl_data t)),
      op_status = (\<lambda>s. case s of None \<Rightarrow> OK | Some t \<Rightarrow> tl_get_status iops dops t)\<rparr>"

section \<open>The contract\<close>

text \<open>A wrapper around an iterator at a position.\<close>

definition iw_at :: "('i \<Rightarrow> entry list \<Rightarrow> nat \<Rightarrow> bool) \<Rightarrow> 'i IteratorWrapper \<Rightarrow> entry list \<Rightarrow> nat \<Rightarrow> bool" where
  "iw_at at w es p \<longleftrightarrow>
     (\<exists>i. iw_iter w = Some i \<and> at i es p) \<and> iw_valid w = (p < length es) \<and> (p < length es \<longrightarrow> iw_key w = fst (es ! p))"

text \<open>The entries of the blocks an index names, in order, and where block \<open>j\<close> begins among them.\<close>

definition flat :: "(bytes \<Rightarrow> entry list) \<Rightarrow> entry list \<Rightarrow> entry list" where
  "flat blk hs = concat (map (\<lambda>h. blk (snd h)) hs)"

definition block_start :: "(bytes \<Rightarrow> entry list) \<Rightarrow> entry list \<Rightarrow> nat \<Rightarrow> nat" where
  "block_start blk hs j = length (flat blk (take j hs))"

text \<open>An index separates its blocks: a key of it is at or past its block and before the blocks after.\<close>

definition separated :: "(bytes \<Rightarrow> bytes \<Rightarrow> int) \<Rightarrow> (bytes \<Rightarrow> entry list) \<Rightarrow> entry list \<Rightarrow> bool" where
  "separated cmp blk hs \<longleftrightarrow>
     (\<forall>j < length hs. \<forall>e \<in> set (blk (snd (hs ! j))). cmp (fst e) (fst (hs ! j)) \<le> 0)
     \<and> (\<forall>i j. i < j \<longrightarrow> j < length hs \<longrightarrow> (\<forall>e \<in> set (blk (snd (hs ! j))). cmp (fst (hs ! i)) (fst e) < 0))"

definition good_index ::
  "(bytes \<Rightarrow> bytes \<Rightarrow> int) \<Rightarrow> ('d \<Rightarrow> entry list \<Rightarrow> nat \<Rightarrow> bool) \<Rightarrow> (bytes \<Rightarrow> 'd) \<Rightarrow> (bytes \<Rightarrow> entry list) \<Rightarrow> entry list \<Rightarrow> bool" where
  "good_index cmp dat bf blk hs \<longleftrightarrow>
     entries_sorted cmp (flat blk hs) \<and> separated cmp blk hs \<and> (\<forall>h \<in> set hs. \<exists>q. dat (bf (snd h)) (blk (snd h)) q)"

text \<open>The index stands at entry \<open>j\<close> of \<open>hs\<close>; the data iterator is null or over the block it was made for.\<close>

definition tl_ready ::
  "('i \<Rightarrow> entry list \<Rightarrow> nat \<Rightarrow> bool) \<Rightarrow> ('d \<Rightarrow> entry list \<Rightarrow> nat \<Rightarrow> bool) \<Rightarrow> (bytes \<Rightarrow> entry list) \<Rightarrow> entry list \<Rightarrow>
     ('i, 'd) TwoLevelIterator \<Rightarrow> nat \<Rightarrow> bool" where
  "tl_ready iat dat blk hs t j \<longleftrightarrow>
     tl_status t = OK \<and> iw_at iat (tl_index t) hs j
     \<and> (if iw_iter (tl_data t) = None then \<not> iw_valid (tl_data t) else \<exists>q. iw_at dat (tl_data t) (blk (data_block_handle t)) q)"

text \<open>The data iterator stands at entry \<open>q\<close> of block \<open>j\<close>; behind the last block it is null.\<close>

definition tl_pos ::
  "('i \<Rightarrow> entry list \<Rightarrow> nat \<Rightarrow> bool) \<Rightarrow> ('d \<Rightarrow> entry list \<Rightarrow> nat \<Rightarrow> bool) \<Rightarrow> (bytes \<Rightarrow> entry list) \<Rightarrow> entry list \<Rightarrow>
     ('i, 'd) TwoLevelIterator \<Rightarrow> nat \<Rightarrow> nat \<Rightarrow> bool" where
  "tl_pos iat dat blk hs t j q \<longleftrightarrow>
     tl_ready iat dat blk hs t j
     \<and> (if j < length hs then data_block_handle t = snd (hs ! j) \<and> iw_at dat (tl_data t) (blk (snd (hs ! j))) q
         else iw_iter (tl_data t) = None)"

definition tl_at ::
  "(bytes \<Rightarrow> bytes \<Rightarrow> int) \<Rightarrow> ('i \<Rightarrow> entry list \<Rightarrow> nat \<Rightarrow> bool) \<Rightarrow> ('d \<Rightarrow> entry list \<Rightarrow> nat \<Rightarrow> bool) \<Rightarrow> (bytes \<Rightarrow> 'd) \<Rightarrow>
     ('i, 'd) TwoLevelIterator option \<Rightarrow> entry list \<Rightarrow> nat \<Rightarrow> bool" where
  "tl_at cmp iat dat bf s kvs p \<longleftrightarrow>
     (\<exists>t blk hs j. s = Some t \<and> good_index cmp dat bf blk hs \<and> kvs = flat blk hs \<and> tl_ready iat dat blk hs t j
        \<and> (if iw_iter (tl_data t) = None then p = length kvs
            else j < length hs \<and> (\<exists>q. tl_pos iat dat blk hs t j q \<and> q < length (blk (snd (hs ! j))) \<and> p = block_start blk hs j + q)))"

section \<open>Wrappers\<close>

lemma iw_null_iff [simp]: "iw_null w \<longleftrightarrow> iw_iter w = None"
  by (simp add: iw_null_def Option.is_none_def)

lemma iw_atD:
  assumes "iw_at at w es p"
  shows "iw_iter w \<noteq> None" "iw_valid w \<longleftrightarrow> p < length es" "p < length es \<Longrightarrow> iw_key w = fst (es ! p)"
  using assms by (auto simp: iw_at_def)

context iterator_contract
begin

lemma iw_at_Update: "at i es p \<Longrightarrow> iw_iter w = Some i \<Longrightarrow> iw_at at (iw_Update ops i w) es p"
  using at_Valid [of i es p] at_key [of i es p] by (auto simp: iw_at_def iw_Update_def)

lemma iw_at_le: "iw_at at w es p \<Longrightarrow> p \<le> length es \<and> entries_sorted cmp es"
  using at_sorted by (auto simp: iw_at_def)

lemma iw_at_value: "iw_at at w es p \<Longrightarrow> p < length es \<Longrightarrow> iw_value ops w = snd (es ! p)"
  using at_value by (auto simp: iw_at_def iw_value_def)

lemma iw_at_status: "iw_at at w es p \<Longrightarrow> iw_iter w = Some i \<Longrightarrow> op_status ops i = OK"
  using at_status by (auto simp: iw_at_def)

lemma iw_at_First: "iw_at at w es p \<Longrightarrow> \<exists>w'. iw_SeekToFirst ops w = Some w' \<and> iw_at at w' es 0"
  by (auto simp: iw_at_def [of at w] iw_SeekToFirst_def Let_def intro!: iw_at_Update at_First)

lemma iw_at_Last: "iw_at at w es p \<Longrightarrow> \<exists>w'. iw_SeekToLast ops w = Some w' \<and> iw_at at w' es (length es - 1)"
  by (auto simp: iw_at_def [of at w] iw_SeekToLast_def Let_def intro!: iw_at_Update at_Last [simplified])

lemma iw_at_Seek: "iw_at at w es p \<Longrightarrow> \<exists>w'. iw_Seek ops w k = Some w' \<and> iw_at at w' es (first_ge cmp k es)"
  by (auto simp: iw_at_def [of at w] iw_Seek_def Let_def intro!: iw_at_Update at_Seek)

lemma iw_at_Next: "iw_at at w es p \<Longrightarrow> p < length es \<Longrightarrow> \<exists>w'. iw_Next ops w = Some w' \<and> iw_at at w' es (p + 1)"
  by (auto simp: iw_at_def [of at w] iw_Next_def Let_def intro!: iw_at_Update at_Next [simplified])

lemma iw_at_Prev:
  assumes "iw_at at w es p" and "p < length es"
  shows "\<exists>w'. iw_Prev ops w = Some w' \<and> iw_at at w' es (if p = 0 then length es else p - 1)"
proof -
  obtain i where i: "iw_iter w = Some i" "at i es p" using assms(1) by (auto simp: iw_at_def)
  show ?thesis using iw_at_Update [OF at_Prev [OF i(2) assms(2)], of "w\<lparr>iw_iter := Some (op_Prev ops i)\<rparr>"] i(1)
    by (simp add: iw_Prev_def Let_def)
qed

lemma iw_at_Set: "at i es p \<Longrightarrow> iw_at at (iw_Set ops w (Some i)) es p"
  by (auto simp: iw_Set_def intro: iw_at_Update)

end

section \<open>Positions among the blocks\<close>

lemma flat_simps [simp]: "flat blk [] = []" "flat blk (h # hs) = blk (snd h) @ flat blk hs" "flat blk (a @ b) = flat blk a @ flat blk b"
  by (simp_all add: flat_def)

lemma block_start_simps:
  "block_start blk hs 0 = 0" "length hs \<le> j \<Longrightarrow> block_start blk hs j = length (flat blk hs)"
  "j < length hs \<Longrightarrow> block_start blk hs (Suc j) = block_start blk hs j + length (blk (snd (hs ! j)))"
  by (simp_all add: block_start_def take_Suc_conv_app_nth)

lemma flat_split:
  "j < length hs \<Longrightarrow> flat blk hs = flat blk (take j hs) @ blk (snd (hs ! j)) @ flat blk (drop (Suc j) hs)"
  by (metis append.assoc append_take_drop_id Cons_nth_drop_Suc flat_simps(2,3))

lemma flat_nth: "j < length hs \<Longrightarrow> q < length (blk (snd (hs ! j))) \<Longrightarrow> flat blk hs ! (block_start blk hs j + q) = blk (snd (hs ! j)) ! q"
  unfolding block_start_def by (subst flat_split [of j]) (simp_all add: nth_append)

lemma block_start_less: "j < length hs \<Longrightarrow> q < length (blk (snd (hs ! j))) \<Longrightarrow> block_start blk hs j + q < length (flat blk hs)"
  unfolding block_start_def by (subst flat_split [of j]) simp_all

lemma flat_mem: "e \<in> set (flat blk hs) \<longleftrightarrow> (\<exists>j < length hs. e \<in> set (blk (snd (hs ! j))))"
proof -
  have "e \<in> set (flat blk hs) \<longleftrightarrow> (\<exists>h \<in> set hs. e \<in> set (blk (snd h)))" by (auto simp: flat_def)
  then show ?thesis by (metis in_set_conv_nth)
qed

locale two_level = comparator cmp + idx: iterator_contract iops cmp iat + dat: iterator_contract dops cmp dat
  for cmp :: "bytes \<Rightarrow> bytes \<Rightarrow> int" and iops :: "'i iter_ops" and iat and dops :: "'d iter_ops" and dat +
  fixes bf :: "bytes \<Rightarrow> 'd"
begin

lemma ready_SetData:
  assumes "tl_ready iat dat blk hs t j"
  shows "tl_ready iat dat blk hs (SetDataIterator dops t None) j" "iw_iter (tl_data (SetDataIterator dops t None)) = None"
    "tl_status (SetDataIterator dops t d) = OK" "tl_index (SetDataIterator dops t d) = tl_index t"
proof -
  have "status_ok (op_status dops i)" if "iw_iter (tl_data t) = Some i" for i
    using assms that dat.iw_at_status by (auto simp: tl_ready_def)
  then have *: "SetDataIterator dops t d = t\<lparr>tl_data := iw_Set dops (tl_data t) d\<rparr>" for d
    by (auto simp: SetDataIterator_def tl_SaveError_def split: option.split)
  show "tl_ready iat dat blk hs (SetDataIterator dops t None) j" "iw_iter (tl_data (SetDataIterator dops t None)) = None"
    "tl_status (SetDataIterator dops t d) = OK" "tl_index (SetDataIterator dops t d) = tl_index t"
    using assms unfolding * by (simp_all add: tl_ready_def iw_Set_def)
qed

text \<open>After the data block is set the data iterator is over the block the index names, if any.\<close>

lemma ready_Init:
  assumes ready: "tl_ready iat dat blk hs t j" and good: "good_index cmp dat bf blk hs"
  shows "\<exists>q. tl_pos iat dat blk hs (InitDataBlock iops dops bf t) j q"
proof (cases "j < length hs")
  case True
  have idx: "iw_valid (tl_index t)" "iw_value iops (tl_index t) = snd (hs ! j)"
    using ready True idx.iw_at_value [of "tl_index t" hs j] by (auto simp: tl_ready_def dest: iw_atD)
  show ?thesis
  proof (cases "iw_iter (tl_data t) \<noteq> None \<and> data_block_handle t = snd (hs ! j)")
    case keep: True
    then have "InitDataBlock iops dops bf t = t" using idx by (simp add: InitDataBlock_def)
    then show ?thesis using ready True keep by (auto simp: tl_pos_def tl_ready_def)
  next
    case False
    let ?t = "t\<lparr>data_block_handle := snd (hs ! j)\<rparr>"
    have "SetDataIterator dops ?t d = (SetDataIterator dops t d)\<lparr>data_block_handle := snd (hs ! j)\<rparr>" for d
      by (auto simp: SetDataIterator_def tl_SaveError_def Let_def split: option.split)
    moreover have "InitDataBlock iops dops bf t = SetDataIterator dops ?t (Some (bf (snd (hs ! j))))"
      using idx False slice_compare_eq_iff by (auto simp: InitDataBlock_def Let_def)
    ultimately have I: "InitDataBlock iops dops bf t
        = (SetDataIterator dops t (Some (bf (snd (hs ! j)))))\<lparr>data_block_handle := snd (hs ! j)\<rparr>" by simp
    obtain q where q: "dat (bf (snd (hs ! j))) (blk (snd (hs ! j))) q"
      using good nth_mem [OF True] unfolding good_index_def by blast
    have "iw_at dat (tl_data (SetDataIterator dops t (Some (bf (snd (hs ! j)))))) (blk (snd (hs ! j))) q"
      using dat.iw_at_Set [OF q] by (simp add: SetDataIterator_def Let_def)
    then show ?thesis
      using ready True ready_SetData(3,4) [OF ready] iw_atD(1) unfolding I by (fastforce simp: tl_pos_def tl_ready_def)
  qed
next
  case False
  then have "\<not> iw_valid (tl_index t)" using ready by (auto simp: tl_ready_def dest: iw_atD)
  then have "InitDataBlock iops dops bf t = SetDataIterator dops t None" by (simp add: InitDataBlock_def)
  then show ?thesis using ready_SetData(1,2) [OF ready] False by (simp add: tl_pos_def)
qed

text \<open>Moving the data iterator of a positioned iterator.\<close>

lemma pos_on_data:
  assumes pos: "tl_pos iat dat blk hs t j q"
    and f: "\<And>w es p. iw_at dat w es p \<Longrightarrow> \<exists>w'. f w = Some w' \<and> iw_at dat w' es (g es)"
  shows "\<exists>t'. on_data f t = Some t' \<and> tl_pos iat dat blk hs t' j (if j < length hs then g (blk (snd (hs ! j))) else 0)"
proof (cases "j < length hs")
  case True
  then obtain w where w: "f (tl_data t) = Some w" "iw_at dat w (blk (snd (hs ! j))) (g (blk (snd (hs ! j))))"
    using f [of "tl_data t"] pos by (auto simp: tl_pos_def)
  have "on_data f t = Some (t\<lparr>tl_data := w\<rparr>)"
    using pos True w(1) by (auto simp: on_data_def tl_pos_def dest: iw_atD(1))
  then show ?thesis using pos True w(2) iw_atD(1) [OF w(2)] by (auto simp: tl_pos_def tl_ready_def)
qed (use pos in \<open>auto simp: on_data_def tl_pos_def\<close>)

lemma ready_index: "tl_ready iat dat blk hs t j \<Longrightarrow> iw_at iat i hs k \<Longrightarrow> tl_ready iat dat blk hs (t\<lparr>tl_index := i\<rparr>) k"
  by (simp add: tl_ready_def)

lemma pos_at:
  assumes "good_index cmp dat bf blk hs" and "tl_pos iat dat blk hs t j q" and "j < length hs \<Longrightarrow> q < length (blk (snd (hs ! j)))"
  shows "tl_at cmp iat dat bf (Some t) (flat blk hs) (if j < length hs then block_start blk hs j + q else length (flat blk hs))"
  using assms unfolding tl_at_def
  by (intro exI [of _ t] exI [of _ blk] exI [of _ hs] exI [of _ j]) (auto simp: tl_pos_def dest: iw_atD(1))

lemma tl_pos_ready: "tl_pos iat dat blk hs t j q \<Longrightarrow> tl_ready iat dat blk hs t j"
  by (simp add: tl_pos_def)

lemma ready_index_valid: "tl_ready iat dat blk hs t j \<Longrightarrow> iw_valid (tl_index t) \<longleftrightarrow> j < length hs"
  by (auto simp: tl_ready_def dest: iw_atD)

lemma pos_data_valid:
  assumes "tl_pos iat dat blk hs t j q"
  shows "iw_valid (tl_data t) \<longleftrightarrow> j < length hs \<and> q < length (blk (snd (hs ! j)))" "iw_iter (tl_data t) = None \<longleftrightarrow> \<not> j < length hs"
  using assms by (auto simp: tl_pos_def tl_ready_def dest: iw_atD split: if_splits)

text \<open>A new data block for a moved index, with the data iterator moved in it.\<close>

lemma move_block:
  assumes ready: "tl_ready iat dat blk hs t j" and good: "good_index cmp dat bf blk hs" and i: "iw_at iat i hs k"
    and f: "\<And>w es p. iw_at dat w es p \<Longrightarrow> \<exists>w'. f w = Some w' \<and> iw_at dat w' es (g es)"
  shows "\<exists>t'. on_data f (InitDataBlock iops dops bf (t\<lparr>tl_index := i\<rparr>)) = Some t'
    \<and> tl_pos iat dat blk hs t' k (if k < length hs then g (blk (snd (hs ! k))) else 0)"
proof -
  obtain q where "tl_pos iat dat blk hs (InitDataBlock iops dops bf (t\<lparr>tl_index := i\<rparr>)) k q"
    using ready_Init [OF ready_index [OF ready i] good] by blast
  then show ?thesis by (rule pos_on_data) (rule f)
qed

text \<open>A positioned iterator whose data iterator is null is at the end.\<close>

lemma pos_null_at:
  assumes "good_index cmp dat bf blk hs" and "tl_ready iat dat blk hs t j"
  shows "tl_at cmp iat dat bf (Some (SetDataIterator dops t None)) (flat blk hs) (length (flat blk hs))"
  using assms ready_SetData(1,2) [OF assms(2)] unfolding tl_at_def by auto

lemma skip_forward:
  assumes good: "good_index cmp dat bf blk hs"
  shows "tl_pos iat dat blk hs t j q \<Longrightarrow> (j < length hs \<Longrightarrow> q \<le> length (blk (snd (hs ! j)))) \<Longrightarrow>
    \<exists>t'. SkipEmptyDataBlocksForward iops dops bf t = Some t'
      \<and> tl_at cmp iat dat bf (Some t') (flat blk hs) (if j < length hs then block_start blk hs j + q else length (flat blk hs))"
proof (induction "length hs - j" arbitrary: t j q)
  case 0
  then have "\<not> j < length hs" by simp
  then show ?case
    using 0(2) pos_null_at [OF good tl_pos_ready [OF 0(2)]] pos_data_valid [OF 0(2)] ready_index_valid [OF tl_pos_ready [OF 0(2)]]
    by (simp add: SkipEmptyDataBlocksForward.simps [of _ _ _ t])
next
  case (Suc n)
  then have j: "j < length hs" by simp
  note v = pos_data_valid [OF Suc(3)] ready_index_valid [OF tl_pos_ready [OF Suc(3)]]
  show ?case
  proof (cases "q < length (blk (snd (hs ! j)))")
    case True
    then show ?thesis
      using j v pos_at [OF good Suc(3)] by (auto simp: SkipEmptyDataBlocksForward.simps [of _ _ _ t])
  next
    case False
    then have q: "q = length (blk (snd (hs ! j)))" using Suc(4) j by simp
    have "iw_at iat (tl_index t) hs j" using Suc(3) by (simp add: tl_pos_def tl_ready_def)
    then obtain i where i: "iw_Next iops (tl_index t) = Some i" "iw_at iat i hs (j + 1)" using idx.iw_at_Next j by blast
    obtain t2 where t2: "on_data (iw_SeekToFirst dops) (InitDataBlock iops dops bf (t\<lparr>tl_index := i\<rparr>)) = Some t2"
        "tl_pos iat dat blk hs t2 (j + 1) 0"
      using move_block [OF tl_pos_ready [OF Suc(3)] good i(2), of "iw_SeekToFirst dops" "\<lambda>_. 0"] dat.iw_at_First by fastforce
    have "SkipEmptyDataBlocksForward iops dops bf t = SkipEmptyDataBlocksForward iops dops bf t2"
      using j v False i(1) t2(1) by (simp add: SkipEmptyDataBlocksForward.simps [of _ _ _ t])
    moreover have "(if j + 1 < length hs then block_start blk hs (j + 1) + 0 else length (flat blk hs)) = block_start blk hs j + q"
      using j q block_start_simps(2) [of hs "Suc j" blk] by (simp add: block_start_simps(3) [symmetric])
    moreover have "n = length hs - (j + 1)" using Suc(2) by simp
    ultimately show ?thesis using Suc(1) [OF _ t2(2)] j by simp
  qed
qed

lemma skip_backward:
  assumes good: "good_index cmp dat bf blk hs"
  shows "tl_pos iat dat blk hs t j q \<Longrightarrow> j < length hs \<Longrightarrow> \<not> q < length (blk (snd (hs ! j))) \<Longrightarrow>
    \<exists>t'. SkipEmptyDataBlocksBackward iops dops bf t = Some t'
      \<and> tl_at cmp iat dat bf (Some t') (flat blk hs) (if block_start blk hs j = 0 then length (flat blk hs) else block_start blk hs j - 1)"
proof (induction j arbitrary: t q)
  case (0 t q)
  note v = pos_data_valid [OF 0(1)] ready_index_valid [OF tl_pos_ready [OF 0(1)]]
  have "iw_at iat (tl_index t) hs 0" using 0(1) by (simp add: tl_pos_def tl_ready_def)
  then obtain i where i: "iw_Prev iops (tl_index t) = Some i" "iw_at iat i hs (length hs)" using idx.iw_at_Prev 0(2) by fastforce
  obtain t2 where t2: "on_data (iw_SeekToLast dops) (InitDataBlock iops dops bf (t\<lparr>tl_index := i\<rparr>)) = Some t2"
      "tl_pos iat dat blk hs t2 (length hs) 0"
    using move_block [OF tl_pos_ready [OF 0(1)] good i(2), of "iw_SeekToLast dops" "\<lambda>es. length es - 1"] dat.iw_at_Last by force
  have "SkipEmptyDataBlocksBackward iops dops bf t = SkipEmptyDataBlocksBackward iops dops bf t2"
    using 0(2,3) v i(1) t2(1) by (simp add: SkipEmptyDataBlocksBackward.simps [of _ _ _ t])
  then show ?case
    using pos_null_at [OF good tl_pos_ready [OF t2(2)]] pos_data_valid [OF t2(2)] ready_index_valid [OF tl_pos_ready [OF t2(2)]]
    by (simp add: SkipEmptyDataBlocksBackward.simps [of _ _ _ t2] block_start_simps)
next
  case (Suc j t q)
  note v = pos_data_valid [OF Suc(2)] ready_index_valid [OF tl_pos_ready [OF Suc(2)]]
  have j: "j < length hs" using Suc(3) by simp
  have "iw_at iat (tl_index t) hs (Suc j)" using Suc(2) by (simp add: tl_pos_def tl_ready_def)
  then obtain i where i: "iw_Prev iops (tl_index t) = Some i" "iw_at iat i hs j" using idx.iw_at_Prev Suc(3) by fastforce
  let ?n = "length (blk (snd (hs ! j)))"
  obtain t2 where t2: "on_data (iw_SeekToLast dops) (InitDataBlock iops dops bf (t\<lparr>tl_index := i\<rparr>)) = Some t2"
      "tl_pos iat dat blk hs t2 j (?n - 1)"
    using move_block [OF tl_pos_ready [OF Suc(2)] good i(2), of "iw_SeekToLast dops" "\<lambda>es. length es - 1"] dat.iw_at_Last j by force
  have s: "SkipEmptyDataBlocksBackward iops dops bf t = SkipEmptyDataBlocksBackward iops dops bf t2"
    using Suc(3,4) v i(1) t2(1) by (simp add: SkipEmptyDataBlocksBackward.simps [of _ _ _ t])
  show ?case
  proof (cases "?n = 0")
    case True
    then show ?thesis using Suc(1) [OF t2(2) j] by (simp add: s block_start_simps(3) [OF j] del: One_nat_def split: if_splits)
  next
    case False
    then have "SkipEmptyDataBlocksBackward iops dops bf t2 = Some t2"
      using pos_data_valid [OF t2(2)] j by (auto simp: SkipEmptyDataBlocksBackward.simps [of _ _ _ t2])
    moreover have e: "(if block_start blk hs (Suc j) = 0 then length (flat blk hs) else block_start blk hs (Suc j) - 1)
        = block_start blk hs j + (?n - 1)"
      using False unfolding block_start_simps(3) [OF j] by (cases ?n) simp_all
    ultimately show ?thesis unfolding e using s False pos_at [OF good t2(2)] j by auto
  qed
qed

lemma settle_backward:
  assumes good: "good_index cmp dat bf blk hs" and pos: "tl_pos iat dat blk hs t j q" and j: "j < length hs"
  shows "\<exists>t'. SkipEmptyDataBlocksBackward iops dops bf t = Some t'
    \<and> tl_at cmp iat dat bf (Some t') (flat blk hs)
        (if q < length (blk (snd (hs ! j))) then block_start blk hs j + q
         else if block_start blk hs j = 0 then length (flat blk hs) else block_start blk hs j - 1)"
proof (cases "q < length (blk (snd (hs ! j)))")
  case True
  then have "SkipEmptyDataBlocksBackward iops dops bf t = Some t"
    using pos_data_valid [OF pos] j by (auto simp: SkipEmptyDataBlocksBackward.simps [of _ _ _ t])
  then show ?thesis using True pos_at [OF good pos] j by auto
qed (use skip_backward [OF good pos j] in auto)

text \<open>The first entry at or past a key is found through the block the index finds.\<close>

lemma first_ge_flat:
  assumes good: "good_index cmp dat bf blk hs" and j: "j = first_ge cmp k hs"
  shows "first_ge cmp k (flat blk hs) = (if j < length hs then block_start blk hs j + first_ge cmp k (blk (snd (hs ! j))) else length (flat blk hs))"
proof -
  have sep: "separated cmp blk hs" using good by (simp add: good_index_def)
  have before: "cmp (fst e) k < 0" if "e \<in> set (blk (snd (hs ! i)))" "i < j" for i e
  proof -
    have i: "i < length hs" using that(2) j first_ge_le [of cmp k hs] by (metis order_less_le_trans)
    then have "cmp (fst e) (fst (hs ! i)) \<le> 0" using sep that(1) by (auto simp: separated_def)
    then show ?thesis using cmp_le_less_trans first_ge_before [of i cmp k hs] that(2) j by blast
  qed
  have pre: "takeWhile (\<lambda>e. cmp (fst e) k < 0) (flat blk (take j hs) @ xs) = flat blk (take j hs) @ takeWhile (\<lambda>e. cmp (fst e) k < 0) xs" for xs
    using before by (intro takeWhile_append2) (auto simp: flat_mem)
  show ?thesis
  proof (cases "j < length hs")
    case True
    have "\<not> cmp (fst e) k < 0" if e: "e \<in> set (flat blk (drop (Suc j) hs))" for e
    proof -
      obtain i where i: "i < length (drop (Suc j) hs)" "e \<in> set (blk (snd (drop (Suc j) hs ! i)))"
        using e unfolding flat_mem by blast
      then have "e \<in> set (blk (snd (hs ! (Suc j + i))))" "Suc j + i < length hs" by simp_all
      then have "cmp (fst (hs ! j)) (fst e) < 0"
        using conjunct2 [OF sep [unfolded separated_def], rule_format, of j "Suc j + i" e] by simp
      then show ?thesis
        using first_ge_at [of cmp k hs] True j cmp_less_trans [of "fst (hs ! j)" "fst e" k] by auto
    qed
    then have "takeWhile (\<lambda>e. cmp (fst e) k < 0) (flat blk (drop (Suc j) hs)) = []"
      by (metis (no_types, lifting) hd_in_set takeWhile_eq_Nil_iff)
    then have "takeWhile (\<lambda>e. cmp (fst e) k < 0) (blk (snd (hs ! j)) @ flat blk (drop (Suc j) hs)) = takeWhile (\<lambda>e. cmp (fst e) k < 0) (blk (snd (hs ! j)))"
      by (simp add: takeWhile_append takeWhile_eq_all_conv [THEN iffD2])
    then have "first_ge cmp k (flat blk hs) = block_start blk hs j + first_ge cmp k (blk (snd (hs ! j)))"
      unfolding first_ge_def block_start_def flat_split [OF True] pre by simp
    then show ?thesis using True by simp
  next
    case False
    then have "take j hs = hs" by simp
    then have "takeWhile (\<lambda>e. cmp (fst e) k < 0) (flat blk hs) = flat blk hs"
      using pre [of "[]"] by (simp only: append_Nil2 takeWhile.simps)
    then show ?thesis using False by (simp only: first_ge_def if_False)
  qed
qed

end

sublocale two_level \<subseteq> blocks: iterator_contract "two_level_ops iops dops bf" cmp "tl_at cmp iat dat bf"
proof
  let ?ops = "two_level_ops iops dops bf"
  fix s kvs p k
  assume at: "tl_at cmp iat dat bf s kvs p"
  then obtain t blk hs j where *: "s = Some t \<and> good_index cmp dat bf blk hs \<and> kvs = flat blk hs \<and> tl_ready iat dat blk hs t j
      \<and> (if iw_iter (tl_data t) = None then p = length kvs
          else j < length hs \<and> (\<exists>q. tl_pos iat dat blk hs t j q \<and> q < length (blk (snd (hs ! j))) \<and> p = block_start blk hs j + q))"
    unfolding tl_at_def by blast
  then have t: "s = Some t" and good: "good_index cmp dat bf blk hs" and kvs: "kvs = flat blk hs" and ready: "tl_ready iat dat blk hs t j"
    by simp_all
  have le: "p \<le> length kvs" using * block_start_less by (fastforce split: if_splits)
  have index: "iw_at iat (tl_index t) hs j" using ready by (simp add: tl_ready_def)
  have pos: "j < length hs \<and> (\<exists>q. tl_pos iat dat blk hs t j q \<and> q < length (blk (snd (hs ! j))) \<and> p = block_start blk hs j + q)"
    if "p < length kvs" using * that by (simp split: if_splits)
  have null: "iw_iter (tl_data t) = None" if "\<not> p < length kvs"
    using * that block_start_less [of j hs _ blk] by (auto split: if_splits)
  show "entries_sorted cmp kvs \<and> p \<le> length kvs"
    using good kvs le by (simp add: good_index_def)
  have ops: "op_Valid ?ops s = tl_Valid t" "op_key ?ops s = iw_key (tl_data t)" "op_value ?ops s = iw_value dops (tl_data t)"
    "op_status ?ops s = tl_get_status iops dops t" "op_SeekToFirst ?ops s = tl_SeekToFirst iops dops bf t"
    "op_SeekToLast ?ops s = tl_SeekToLast iops dops bf t" "op_Seek ?ops s k = tl_Seek iops dops bf t k"
    "op_Next ?ops s = tl_Next iops dops bf t" "op_Prev ?ops s = tl_Prev iops dops bf t"
    by (simp_all add: two_level_ops_def t)
  have valid: "tl_Valid t \<longleftrightarrow> p < length kvs"
    using pos null pos_data_valid(1) ready by (fastforce simp: tl_Valid_def tl_ready_def)
  then show "op_Valid ?ops s \<longleftrightarrow> p < length kvs" by (simp add: ops)
  show "op_status ?ops s = OK"
    using ready idx.iw_at_status [OF index] dat.iw_at_status
    by (auto simp: ops tl_get_status_def tl_ready_def Let_def split: option.split if_splits)
  show "p < length kvs \<Longrightarrow> op_key ?ops s = fst (kvs ! p)"
    using pos by (auto simp: ops kvs flat_nth tl_pos_def dest: iw_atD(3))
  show "p < length kvs \<Longrightarrow> op_value ?ops s = snd (kvs ! p)"
    using pos by (auto simp: ops kvs flat_nth tl_pos_def dat.iw_at_value)
  show "tl_at cmp iat dat bf (op_SeekToFirst ?ops s) kvs 0"
  proof -
    obtain i where i: "iw_SeekToFirst iops (tl_index t) = Some i" "iw_at iat i hs 0" using idx.iw_at_First [OF index] by blast
    obtain t1 where t1: "on_data (iw_SeekToFirst dops) (InitDataBlock iops dops bf (t\<lparr>tl_index := i\<rparr>)) = Some t1"
        "tl_pos iat dat blk hs t1 0 0"
      using move_block [OF ready good i(2), of "iw_SeekToFirst dops" "\<lambda>_. 0"] dat.iw_at_First by fastforce
    have "(if 0 < length hs then block_start blk hs 0 + 0 else length (flat blk hs)) = 0" by (simp add: block_start_simps)
    then show ?thesis using skip_forward [OF good t1(2)] i(1) t1(1) kvs by (auto simp: ops tl_SeekToFirst_def)
  qed
  show "tl_at cmp iat dat bf (op_SeekToLast ?ops s) kvs (length kvs - 1)"
  proof -
    obtain i where i: "iw_SeekToLast iops (tl_index t) = Some i" "iw_at iat i hs (length hs - 1)" using idx.iw_at_Last [OF index] by blast
    let ?j = "length hs - 1" and ?n = "length (blk (snd (hs ! (length hs - 1))))"
    obtain t1 where t1: "on_data (iw_SeekToLast dops) (InitDataBlock iops dops bf (t\<lparr>tl_index := i\<rparr>)) = Some t1"
        "tl_pos iat dat blk hs t1 ?j (if ?j < length hs then ?n - 1 else 0)"
      using move_block [OF ready good i(2), of "iw_SeekToLast dops" "\<lambda>es. length es - 1"] dat.iw_at_Last by blast
    show ?thesis
    proof (cases "hs = []")
      case True
      then have "SkipEmptyDataBlocksBackward iops dops bf t1 = Some (SetDataIterator dops t1 None)"
        using pos_data_valid [OF t1(2)] ready_index_valid [OF tl_pos_ready [OF t1(2)]]
        by (simp add: SkipEmptyDataBlocksBackward.simps [of _ _ _ t1])
      then show ?thesis
        using True pos_null_at [OF good tl_pos_ready [OF t1(2)]] i(1) t1(1) kvs by (simp add: ops tl_SeekToLast_def)
    next
      case False
      then have j: "?j < length hs" by simp
      have n: "length (flat blk hs) = block_start blk hs ?j + ?n"
        using block_start_simps(3) [OF j, of blk] block_start_simps(2) [of hs "Suc ?j" blk] False by simp
      have last: "tl_pos iat dat blk hs t1 ?j (?n - 1)" using t1(2) unfolding if_P [OF j] .
      have e: "(if ?n - 1 < ?n then block_start blk hs ?j + (?n - 1)
          else if block_start blk hs ?j = 0 then length (flat blk hs) else block_start blk hs ?j - 1) = length (flat blk hs) - 1"
        unfolding n by (cases ?n) simp_all
      obtain t' where "SkipEmptyDataBlocksBackward iops dops bf t1 = Some t'" "tl_at cmp iat dat bf (Some t') (flat blk hs) (length (flat blk hs) - 1)"
        using settle_backward [OF good last j] unfolding e by blast
      then show ?thesis using i(1) t1(1) kvs by (simp add: ops tl_SeekToLast_def)
    qed
  qed
  show "tl_at cmp iat dat bf (op_Seek ?ops s k) kvs (first_ge cmp k kvs)"
  proof -
    obtain i where i: "iw_Seek iops (tl_index t) k = Some i" "iw_at iat i hs (first_ge cmp k hs)" using idx.iw_at_Seek [OF index] by blast
    let ?j = "first_ge cmp k hs"
    obtain t1 where t1: "on_data (\<lambda>d. iw_Seek dops d k) (InitDataBlock iops dops bf (t\<lparr>tl_index := i\<rparr>)) = Some t1"
        "tl_pos iat dat blk hs t1 ?j (if ?j < length hs then first_ge cmp k (blk (snd (hs ! ?j))) else 0)"
      using move_block [OF ready good i(2), of "\<lambda>d. iw_Seek dops d k" "first_ge cmp k"] dat.iw_at_Seek by blast
    then show ?thesis
      using skip_forward [OF good t1(2)] i(1) t1(1) first_ge_flat [OF good refl, of k]
      by (auto simp: ops tl_Seek_def kvs split: if_splits)
  qed
  show "tl_at cmp iat dat bf (op_Next ?ops s) kvs (p + 1)" if p: "p < length kvs"
  proof -
    obtain q where q: "j < length hs" "tl_pos iat dat blk hs t j q" "q < length (blk (snd (hs ! j)))" "p = block_start blk hs j + q"
      using pos [OF p] by blast
    have "iw_at dat (tl_data t) (blk (snd (hs ! j))) q" using q(1,2) by (simp add: tl_pos_def)
    then obtain d where d: "iw_Next dops (tl_data t) = Some d" "iw_at dat d (blk (snd (hs ! j))) (q + 1)" using dat.iw_at_Next q(3) by blast
    have "tl_pos iat dat blk hs (t\<lparr>tl_data := d\<rparr>) j (q + 1)"
      using q(1,2) d(2) iw_atD(1) [OF d(2)] by (auto simp: tl_pos_def tl_ready_def)
    then show ?thesis
      using skip_forward [OF good, of "t\<lparr>tl_data := d\<rparr>" j "q + 1"] q d(1) valid p kvs by (auto simp: ops tl_Next_def)
  qed
  show "tl_at cmp iat dat bf (op_Prev ?ops s) kvs (if p = 0 then length kvs else p - 1)" if p: "p < length kvs"
  proof -
    obtain q where q: "j < length hs" "tl_pos iat dat blk hs t j q" "q < length (blk (snd (hs ! j)))" "p = block_start blk hs j + q"
      using pos [OF p] by blast
    let ?n = "length (blk (snd (hs ! j)))" and ?q = "if q = 0 then length (blk (snd (hs ! j))) else q - 1"
    have "iw_at dat (tl_data t) (blk (snd (hs ! j))) q" using q(1,2) by (simp add: tl_pos_def)
    then obtain d where d: "iw_Prev dops (tl_data t) = Some d" "iw_at dat d (blk (snd (hs ! j))) ?q" using dat.iw_at_Prev q(3) by blast
    have tp: "tl_pos iat dat blk hs (t\<lparr>tl_data := d\<rparr>) j ?q"
      using q(1,2) d(2) iw_atD(1) [OF d(2)] unfolding tl_pos_def tl_ready_def by auto
    have "(if ?q < ?n then block_start blk hs j + ?q else if block_start blk hs j = 0 then length (flat blk hs) else block_start blk hs j - 1)
        = (if p = 0 then length kvs else p - 1)"
      using q(3,4) kvs by auto
    then show ?thesis using settle_backward [OF good tp q(1)] d(1) valid p kvs by (auto simp: ops tl_Prev_def)
  qed
qed

context two_level
begin

lemma new_at:
  assumes good: "good_index cmp dat bf blk hs" and i: "iat i hs j"
  shows "tl_at cmp iat dat bf (Some (NewTwoLevelIterator iops dops i)) (flat blk hs) (length (flat blk hs))"
proof -
  let ?t = "NewTwoLevelIterator iops dops i"
  have "tl_index ?t = iw_Set iops \<lparr>iw_iter = None, iw_valid = False, iw_key = []\<rparr> (Some i)" and n: "iw_iter (tl_data ?t) = None"
    and "\<not> iw_valid (tl_data ?t)" and "tl_status ?t = OK"
    by (simp_all add: NewTwoLevelIterator_def new_IteratorWrapper_def iw_Set_def)
  then have "tl_ready iat dat blk hs ?t j" using idx.iw_at_Set [OF i] by (simp add: tl_ready_def)
  then show ?thesis using good n unfolding tl_at_def by auto
qed

lemma blocks_run_displays:
  "tl_at cmp iat dat bf s kvs p \<Longrightarrow>
    displays (two_level_ops iops dops bf) (foldl (exec (two_level_ops iops dops bf)) s cs) kvs (foldl (move cmp kvs) p cs)"
  by (rule blocks.run_displays)

end

end
