(* ===== verification/Table.thy ===== *)
theory Table
  imports TableBuilder TwoLevel Cache
begin

text \<open>
  \<open>table/table.cc\<close>: opening a table file, its filter, reading its blocks through the block cache, its iterator and
  the lookup of a key. \<open>None\<close> is a read outside a buffer or through a null or freed pointer. A \<open>Block\<close> in the cache is an
  object in a heap of blocks, a cache value its address; \<open>malloc\<close> and \<open>new\<close> return the addresses the caller passes.
\<close>

section \<open>Iterators over a block\<close>

text \<open>\<open>Block::NewIterator\<close> returns an empty or error iterator or one over the block: the calls are dispatched.\<close>

definition block_any_ops :: "(bytes \<Rightarrow> bytes \<Rightarrow> int) \<Rightarrow> (status + Block_Iter) iter_ops" where
  "block_any_ops cmp =
     (let lift = (\<lambda>f g. case_sum (\<lambda>s. Inl (f s)) (\<lambda>i. Inr (g i)))
      in \<lparr>op_Valid = case_sum (op_Valid empty_iter_ops) (op_Valid (block_iter_ops cmp)),
          op_SeekToFirst = lift (op_SeekToFirst empty_iter_ops) (op_SeekToFirst (block_iter_ops cmp)),
          op_SeekToLast = lift (op_SeekToLast empty_iter_ops) (op_SeekToLast (block_iter_ops cmp)),
          op_Seek = (\<lambda>it k. lift (\<lambda>s. op_Seek empty_iter_ops s k) (\<lambda>i. op_Seek (block_iter_ops cmp) i k) it),
          op_Next = lift (op_Next empty_iter_ops) (op_Next (block_iter_ops cmp)),
          op_Prev = lift (op_Prev empty_iter_ops) (op_Prev (block_iter_ops cmp)),
          op_key = case_sum (op_key empty_iter_ops) (op_key (block_iter_ops cmp)),
          op_value = case_sum (op_value empty_iter_ops) (op_value (block_iter_ops cmp)),
          op_status = case_sum (op_status empty_iter_ops) (op_status (block_iter_ops cmp))\<rparr>)"

text \<open>An iterator that a failed call may have left undefined.\<close>

definition opt_ops :: "'i iter_ops \<Rightarrow> 'i option iter_ops" where
  "opt_ops ops =
     \<lparr>op_Valid = case_option False (op_Valid ops), op_SeekToFirst = map_option (op_SeekToFirst ops),
      op_SeekToLast = map_option (op_SeekToLast ops), op_Seek = (\<lambda>s k. map_option (\<lambda>i. op_Seek ops i k) s),
      op_Next = map_option (op_Next ops), op_Prev = map_option (op_Prev ops), op_key = case_option [] (op_key ops),
      op_value = case_option [] (op_value ops), op_status = case_option OK (op_status ops)\<rparr>"

section \<open>Opening a table\<close>

record Table =
  t_options :: Options
  t_file :: RandomAccessFile
  cache_id :: u64
  t_filter :: "FilterBlockReader option"
  heap_size :: nat
  t_metaindex_handle :: BlockHandle
  t_index_block :: Block

definition meta_ReadOptions :: "Options \<Rightarrow> ReadOptions" where
  "meta_ReadOptions opt = (if paranoid_checks opt then new_ReadOptions\<lparr>verify_checksums := True\<rparr> else new_ReadOptions)"

definition ReadFilter :: "Snappy \<Rightarrow> Table \<Rightarrow> bytes \<Rightarrow> Table option" where
  "ReadFilter sn t filter_handle_value =
     (case bh_DecodeFrom filter_handle_value of
        Inl s \<Rightarrow> Some t
      | Inr (handle, rest) \<Rightarrow>
          do {r \<leftarrow> ReadBlock sn (t_file t) (meta_ReadOptions (t_options t)) handle;
              case r of
                Inl s \<Rightarrow> Some t
              | Inr block \<Rightarrow>
                  Some (t\<lparr>heap_size := heap_size t + (if heap_allocated block then length (bc_data block) else 0),
                          t_filter := Some (new_FilterBlockReader (bc_data block))\<rparr>)})"

definition ReadMeta :: "Snappy \<Rightarrow> Table \<Rightarrow> Footer \<Rightarrow> Table option" where
  "ReadMeta sn t footer =
     (case opt_filter_policy (t_options t) of
        None \<Rightarrow> Some t
      | Some p \<Rightarrow>
          do {r \<leftarrow> ReadBlock sn (t_file t) (meta_ReadOptions (t_options t)) (metaindex_handle footer);
              case r of
                Inl s \<Rightarrow> Some t
              | Inr contents \<Rightarrow>
                  let ops = block_any_ops slice_compare;
                      it = op_Seek ops (Block_NewIterator (new_Block (bc_data contents))) (meta_key p)
                  in if op_Valid ops it \<and> slice_eq (op_key ops it) (meta_key p)
                     then ReadFilter sn t (op_value ops it) else Some t})"

text \<open>\<open>new_id\<close> is what the block cache returned from \<open>NewId\<close>, or 0; \<open>used\<close> is \<open>table_cache_size\<close>.\<close>

definition Table_Open ::
  "Snappy \<Rightarrow> Options \<Rightarrow> RandomAccessFile \<Rightarrow> nat \<Rightarrow> u64 \<Rightarrow> nat \<Rightarrow> ((status + Table) \<times> nat) option" where
  "Table_Open sn opt rd file_size new_id used =
     (if file_size < kFooterLength then Some (Inl (Corruption ''file is too short to be an sstable''), used)
      else
        let (s, footer_input, _) = rd (of_nat (file_size - kFooterLength)) kFooterLength
        in if \<not> status_ok s then Some (Inl s, used)
           else do {
             d \<leftarrow> Footer_DecodeFrom footer_input;
             case d of
               Inl s \<Rightarrow> Some (Inl s, used)
             | Inr (footer, _) \<Rightarrow>
                 do {r \<leftarrow> ReadBlock sn rd (meta_ReadOptions opt) (index_handle footer);
                     case r of
                       Inl s \<Rightarrow> Some (Inl s, used)
                     | Inr contents \<Rightarrow>
                         do {t \<leftarrow> ReadMeta sn
                                 \<lparr>t_options = opt, t_file = rd, cache_id = new_id, t_filter = None, heap_size = 0,
                                  t_metaindex_handle = metaindex_handle footer,
                                  t_index_block = new_Block (bc_data contents)\<rparr> footer;
                             let t = t\<lparr>heap_size := heap_size t + (if heap_allocated contents then length (bc_data contents) else 0)\<rparr>;
                             Some (Inr t, used + heap_size t)}}})"

definition delete_Table :: "Table \<Rightarrow> nat \<Rightarrow> nat" where
  "delete_Table t used = used - heap_size t"

section \<open>Reading blocks\<close>

type_synonym block_heap = "ptr \<rightharpoonup> Block"

text \<open>How the iterator over a block gives the block back: it owns the block, or a reference on a cache entry.\<close>

datatype cleanup = DeleteBlock ptr | ReleaseBlock ptr | NoCleanup

definition block_cache_key :: "u64 \<Rightarrow> BlockHandle \<Rightarrow> bytes" where
  "block_cache_key tid handle = EncodeFixed64 tid @ EncodeFixed64 (bh_offset handle)"

definition block_size_of :: "Block \<Rightarrow> u64" where
  "block_size_of b = of_nat (blk_size b)"

text \<open>
  \<open>BlockReader\<close> with the block cache, or without one. \<open>e\<close> and \<open>b\<close> are the addresses of a new cache entry and of a
  new block, \<open>del\<close> the address of \<open>DeleteCachedBlock\<close>.
\<close>

definition read_new_block ::
  "Snappy \<Rightarrow> Table \<Rightarrow> ReadOptions \<Rightarrow> BlockHandle \<Rightarrow> ptr \<Rightarrow> block_heap \<Rightarrow> (status + (BlockContents \<times> Block \<times> block_heap)) option" where
  "read_new_block sn t opts handle b blocks =
     do {r \<leftarrow> ReadBlock sn (t_file t) opts handle;
         case r of
           Inl s \<Rightarrow> Some (Inl s)
         | Inr contents \<Rightarrow> let blk = new_Block (bc_data contents) in Some (Inr (contents, blk, blocks(b \<mapsto> blk)))}"

definition BlockReader ::
  "Snappy \<Rightarrow> Table \<Rightarrow> ReadOptions \<Rightarrow> bytes \<Rightarrow> ptr \<Rightarrow> ptr \<Rightarrow> ptr \<Rightarrow> ShardedLRUCache option \<Rightarrow> block_heap \<Rightarrow>
     ((status + Block_Iter) \<times> cleanup \<times> ShardedLRUCache option \<times> block_heap) option" where
  "BlockReader sn t opts index_value e b del block_cache blocks =
     (case bh_DecodeFrom index_value of
        Inl s \<Rightarrow> Some (Inl (NewErrorIterator s), NoCleanup, block_cache, blocks)
      | Inr (handle, _) \<Rightarrow>
          (case block_cache of
             None \<Rightarrow>
               do {r \<leftarrow> read_new_block sn t opts handle b blocks;
                   case r of
                     Inl s \<Rightarrow> Some (Inl (NewErrorIterator s), NoCleanup, None, blocks)
                   | Inr (contents, blk, blocks) \<Rightarrow> Some (Block_NewIterator blk, DeleteBlock b, None, blocks)}
           | Some lru \<Rightarrow>
               do {let key = block_cache_key (cache_id t) handle;
                   (h, lru) \<leftarrow> cache_Lookup lru key;
                   if h \<noteq> 0 then do {
                     v \<leftarrow> cache_Value lru h;
                     blk \<leftarrow> blocks v;
                     Some (Block_NewIterator blk, ReleaseBlock h, Some lru, blocks)}
                   else do {
                     r \<leftarrow> read_new_block sn t opts handle b blocks;
                     case r of
                       Inl s \<Rightarrow> Some (Inl (NewErrorIterator s), NoCleanup, Some lru, blocks)
                     | Inr (contents, blk, blocks) \<Rightarrow>
                         if cachable contents \<and> fill_cache opts then do {
                           (h, lru) \<leftarrow> cache_Insert lru e key b (block_size_of blk) del;
                           Some (Block_NewIterator blk, ReleaseBlock h, Some lru, blocks)}
                         else Some (Block_NewIterator blk, DeleteBlock b, Some lru, blocks)}}))"

definition run_cleanup :: "cleanup \<Rightarrow> ShardedLRUCache option \<Rightarrow> block_heap \<Rightarrow> (ShardedLRUCache option \<times> block_heap) option" where
  "run_cleanup c block_cache blocks =
     (case c of
        NoCleanup \<Rightarrow> Some (block_cache, blocks)
      | DeleteBlock b \<Rightarrow> if blocks b = None then None else Some (block_cache, blocks(b := None))
      | ReleaseBlock h \<Rightarrow> do {lru \<leftarrow> block_cache; lru \<leftarrow> cache_Release lru h; Some (Some lru, blocks)})"

text \<open>The iterator over a data block, as a table without a block cache makes it.\<close>

definition block_function :: "Snappy \<Rightarrow> Table \<Rightarrow> ReadOptions \<Rightarrow> bytes \<Rightarrow> (status + Block_Iter) option" where
  "block_function sn t opts index_value = map_option fst (BlockReader sn t opts index_value 0 0 0 None Map.empty)"

section \<open>Iterating and looking up\<close>

type_synonym table_iter = "(status + Block_Iter, (status + Block_Iter) option) TwoLevelIterator option"

definition table_cmp :: "Table \<Rightarrow> bytes \<Rightarrow> bytes \<Rightarrow> int" where
  "table_cmp t = cmp_Compare (opt_comparator (t_options t))"

definition table_iter_ops :: "Snappy \<Rightarrow> Table \<Rightarrow> ReadOptions \<Rightarrow> table_iter iter_ops" where
  "table_iter_ops sn t opts =
     two_level_ops (block_any_ops (table_cmp t)) (opt_ops (block_any_ops (table_cmp t))) (block_function sn t opts)"

definition Table_NewIterator :: "Table \<Rightarrow> table_iter" where
  "Table_NewIterator t =
     Some (NewTwoLevelIterator (block_any_ops (table_cmp t)) (opt_ops (block_any_ops (table_cmp t))) (Block_NewIterator (t_index_block t)))"

definition filter_excludes :: "Table \<Rightarrow> bytes \<Rightarrow> bytes \<Rightarrow> bool" where
  "filter_excludes t handle_value k =
     (case (t_filter t, bh_DecodeFrom handle_value, opt_filter_policy (t_options t)) of
        (Some f, Inr (handle, _), Some p) \<Rightarrow> \<not> fr_KeyMayMatch (fp_KeyMayMatch p) f (unat (bh_offset handle)) k
      | _ \<Rightarrow> False)"

text \<open>The status, and the key and value that \<open>handle_result\<close> is called with, if it is called.\<close>

definition InternalGet :: "Snappy \<Rightarrow> Table \<Rightarrow> ReadOptions \<Rightarrow> bytes \<Rightarrow> (status \<times> entry option) option" where
  "InternalGet sn t opts k =
     (let ops = block_any_ops (table_cmp t);
          iiter = op_Seek ops (Block_NewIterator (t_index_block t)) k
      in do {
        (s, found) \<leftarrow>
          (if op_Valid ops iiter \<and> \<not> filter_excludes t (op_value ops iiter) k then
             do {block_iter \<leftarrow> block_function sn t opts (op_value ops iiter);
                 let block_iter = op_Seek ops block_iter k;
                 Some (op_status ops block_iter,
                       if op_Valid ops block_iter then Some (op_key ops block_iter, op_value ops block_iter) else None)}
           else Some (OK, None));
        Some (if status_ok s then op_status ops iiter else s, found)})"

definition ApproximateOffsetOf :: "Table \<Rightarrow> bytes \<Rightarrow> u64" where
  "ApproximateOffsetOf t key =
     (let ops = block_any_ops (table_cmp t);
          index_iter = op_Seek ops (Block_NewIterator (t_index_block t)) key
      in if op_Valid ops index_iter then
           (case bh_DecodeFrom (op_value ops index_iter) of
              Inr (handle, _) \<Rightarrow> bh_offset handle
            | Inl _ \<Rightarrow> bh_offset (t_metaindex_handle t))
         else bh_offset (t_metaindex_handle t))"

section \<open>The contract\<close>

definition any_at :: "(bytes \<Rightarrow> bytes \<Rightarrow> int) \<Rightarrow> status + Block_Iter \<Rightarrow> entry list \<Rightarrow> nat \<Rightarrow> bool" where
  "any_at cmp it es p \<longleftrightarrow> (case it of Inl s \<Rightarrow> s = OK \<and> es = [] \<and> p = 0 | Inr i \<Rightarrow> bi_at cmp i es p)"

definition opt_at :: "('i \<Rightarrow> entry list \<Rightarrow> nat \<Rightarrow> bool) \<Rightarrow> 'i option \<Rightarrow> entry list \<Rightarrow> nat \<Rightarrow> bool" where
  "opt_at at s es p \<longleftrightarrow> (\<exists>i. s = Some i \<and> at i es p)"

text \<open>The entries of the block a handle names.\<close>

definition block_entries :: "written_block list \<Rightarrow> bytes \<Rightarrow> entry list" where
  "block_entries bs code = the (map_of (map (\<lambda>b. (block_code b, snd b)) bs) code)"

definition table_index :: "bytes list \<Rightarrow> written_block list \<Rightarrow> entry list" where
  "table_index seps bs = zip seps (map block_code bs)"

abbreviation table_entries :: "written_block list \<Rightarrow> entry list" where
  "table_entries bs \<equiv> concat (map snd bs)"

definition table_blocks :: "(bytes \<Rightarrow> bytes \<Rightarrow> int) \<Rightarrow> (bytes \<Rightarrow> bytes) \<Rightarrow> written_block list \<Rightarrow> bytes list \<Rightarrow> bool" where
  "table_blocks cmp part bs seps \<longleftrightarrow>
     entries_sorted cmp (table_entries bs) \<and> (\<forall>b \<in> set bs. snd b \<noteq> []) \<and> length seps = length bs
     \<and> seps_ok cmp part seps (map snd bs) \<and> (bs \<noteq> [] \<longrightarrow> cmp (fst (last (snd (last bs)))) (last seps) \<le> 0)
     \<and> sorted_wrt (<) (map block_offset bs)"

text \<open>The iterators over the index and the data blocks are where the reader puts them.\<close>

definition table_opened ::
  "(bytes \<Rightarrow> bytes \<Rightarrow> int) \<Rightarrow> written_block list \<Rightarrow> bytes list \<Rightarrow> Snappy \<Rightarrow> Table \<Rightarrow> ReadOptions \<Rightarrow> bool" where
  "table_opened cmp bs seps sn t opts \<longleftrightarrow>
     any_at cmp (Block_NewIterator (t_index_block t)) (table_index seps bs) (length (table_index seps bs))
     \<and> (\<forall>b \<in> set bs. \<exists>it. block_function sn t opts (block_code b) = Some it \<and> any_at cmp it (snd b) (length (snd b)))
     \<and> table_cmp t = cmp"

text \<open>A table open on a file with the given blocks.\<close>

definition table_filter :: "Options \<Rightarrow> written_block list \<Rightarrow> FilterBlockReader option \<Rightarrow> bool" where
  "table_filter opt bs f \<longleftrightarrow>
     (case opt_filter_policy opt of
        None \<Rightarrow> f = None
      | Some p \<Rightarrow>
          (\<exists>contents pos. f = Some (new_FilterBlockReader contents)
             \<and> contents = fst (fb_Finish (fp_CreateFilter p) (foldl (fb_add_block (fp_CreateFilter p)) new_FilterBlockBuilder (filter_calls bs pos [])))
             \<and> length contents < 2 ^ 32 \<and> (\<forall>b \<in> set bs. block_offset b \<le> pos)))"

section \<open>Block iterators\<close>

sublocale bytes_comparator \<subseteq> any_block: iterator_contract "block_any_ops cmp" cmp "any_at cmp"
proof
  let ?ops = "block_any_ops cmp"
  fix it es p k
  assume at: "any_at cmp it es p"
  note E = at [unfolded any_at_def]
  show "entries_sorted cmp es \<and> p \<le> length es"
    using E block_iter.at_sorted by (auto simp: entries_sorted_def split: sum.splits)
  show "op_Valid ?ops it \<longleftrightarrow> p < length es" "op_status ?ops it = OK" "p < length es \<Longrightarrow> op_key ?ops it = fst (es ! p)"
    "p < length es \<Longrightarrow> op_value ?ops it = snd (es ! p)"
    using E block_iter.at_Valid block_iter.at_status block_iter.at_key block_iter.at_value
    by (auto simp: block_any_ops_def empty_iter_ops_def split: sum.splits)
  show "any_at cmp (op_SeekToFirst ?ops it) es 0" "any_at cmp (op_SeekToLast ?ops it) es (length es - 1)"
    "any_at cmp (op_Seek ?ops it k) es (first_ge cmp k es)" "p < length es \<Longrightarrow> any_at cmp (op_Next ?ops it) es (p + 1)"
    using E block_iter.at_First block_iter.at_Last block_iter.at_Seek block_iter.at_Next
    by (auto simp: block_any_ops_def any_at_def empty_iter_ops_def first_ge_def split: sum.splits)
  show "p < length es \<Longrightarrow> any_at cmp (op_Prev ?ops it) es (if p = 0 then length es else p - 1)"
    using E block_iter.at_Prev [of "projr it" es p] by (cases it) (simp_all add: block_any_ops_def any_at_def)
qed

context iterator_contract
begin

lemma opt_contract: "iterator_contract (opt_ops ops) cmp (opt_at at)"
proof
  fix s es p k
  assume "opt_at at s es p"
  then obtain i where i: "s = Some i" "at i es p" by (auto simp: opt_at_def)
  note L = at_sorted [OF i(2)] at_Valid [OF i(2)] at_key [OF i(2)] at_value [OF i(2)] at_status [OF i(2)] at_First [OF i(2)]
    at_Last [OF i(2)] at_Seek [OF i(2), of k] at_Next [OF i(2)] at_Prev [OF i(2)]
  show "entries_sorted cmp es \<and> p \<le> length es" "op_Valid (opt_ops ops) s \<longleftrightarrow> p < length es" "op_status (opt_ops ops) s = OK"
    "p < length es \<Longrightarrow> op_key (opt_ops ops) s = fst (es ! p)" "p < length es \<Longrightarrow> op_value (opt_ops ops) s = snd (es ! p)"
    "opt_at at (op_SeekToFirst (opt_ops ops) s) es 0" "opt_at at (op_SeekToLast (opt_ops ops) s) es (length es - 1)"
    "opt_at at (op_Seek (opt_ops ops) s k) es (first_ge cmp k es)" "p < length es \<Longrightarrow> opt_at at (op_Next (opt_ops ops) s) es (p + 1)"
    "p < length es \<Longrightarrow> opt_at at (op_Prev (opt_ops ops) s) es (if p = 0 then length es else p - 1)"
    using L by (simp_all add: i(1) opt_at_def opt_ops_def)
qed

end

context bytes_comparator
begin

lemma two_level_blocks: "two_level cmp (block_any_ops cmp) (any_at cmp) (opt_ops (block_any_ops cmp)) (opt_at (any_at cmp))"
  using comparator_axioms any_block.iterator_contract_axioms any_block.opt_contract by (simp add: two_level_def)

lemma block_any_at:
  assumes "is_block raw kvs" and "entries_sorted cmp kvs"
  shows "any_at cmp (Block_NewIterator (new_Block raw)) kvs (length kvs)"
proof -
  obtain es ris where e: "block_layout raw es ris" "kvs = map snd es" using assms(1) by (auto simp: is_block_def)
  obtain it where it: "Block_NewIterator (new_Block raw) = Inr it" "bi_pos it es ris (length es)" using open_block [OF e(1)] by blast
  then have "\<exists>es ris. kvs = map snd es \<and> bi_pos it es ris (length kvs)" using e(2) by (intro exI [of _ es] exI [of _ ris]) simp
  then show ?thesis using it(1) assms(2) by (simp add: any_at_def bi_at_def)
qed

text \<open>Blocks of a sorted sequence of entries.\<close>

lemma group_order:
  assumes "entries_sorted cmp (concat gs)" and "i < j" and "j < length gs" and "e \<in> set (gs ! i)" and "e' \<in> set (gs ! j)"
  shows "cmp (fst e) (fst e') < 0"
proof -
  have "concat gs = concat (take j gs) @ concat (drop j gs)" by (metis append_take_drop_id concat_append)
  moreover have "gs ! i \<in> set (take j gs)" "gs ! j \<in> set (drop j gs)"
    using assms(2,3) by (auto simp: in_set_conv_nth intro: exI [of _ i] exI [of _ 0])
  ultimately show ?thesis using assms(1,4,5) by (auto simp: entries_sorted_def sorted_wrt_append)
qed

lemma group_sorted:
  assumes "entries_sorted cmp (concat gs)" and "g \<in> set gs"
  shows "entries_sorted cmp g"
proof -
  obtain a b where "gs = a @ g # b" using assms(2) by (meson split_list)
  then show ?thesis using assms(1) by (simp add: entries_sorted_def sorted_wrt_append)
qed

lemma sorted_ends:
  assumes "entries_sorted cmp g" and "e \<in> set g"
  shows "cmp (fst (hd g)) (fst e) \<le> 0" "cmp (fst e) (fst (last g)) \<le> 0"
proof -
  obtain q where q: "q < length g" "e = g ! q" using assms(2) by (auto simp: in_set_conv_nth)
  then have ne: "g \<noteq> []" by auto
  show "cmp (fst (hd g)) (fst e) \<le> 0"
    using entries_sorted_nth [OF assms(1), of 0 q] q ne by (cases "q = 0") (simp_all add: hd_conv_nth)
  show "cmp (fst e) (fst (last g)) \<le> 0"
  proof (cases "q = length g - 1")
    case False
    then have "q < length g - 1" using q(1) by linarith
    then show ?thesis using entries_sorted_nth [OF assms(1), of q "length g - 1"] q ne by (simp add: last_conv_nth)
  qed (use q ne in \<open>simp add: last_conv_nth\<close>)
qed

end

text \<open>The index of a table separates its blocks.\<close>

context bytes_comparator
begin

lemma table_blocksD:
  assumes "table_blocks cmp part bs seps"
  shows blocks_sorted: "entries_sorted cmp (table_entries bs)" and blocks_nonempty: "b \<in> set bs \<Longrightarrow> snd b \<noteq> []"
    and blocks_length: "length seps = length bs" and blocks_seps: "seps_ok cmp part seps (map snd bs)"
    and blocks_last: "bs \<noteq> [] \<Longrightarrow> cmp (fst (last (snd (last bs)))) (last seps) \<le> 0"
    and blocks_offsets: "sorted_wrt (<) (map block_offset bs)"
  using assms by (simp_all add: table_blocks_def)

lemma table_openedD:
  assumes "table_opened cmp bs seps sn t opts"
  shows opened_index: "any_at cmp (Block_NewIterator (t_index_block t)) (table_index seps bs) (length (table_index seps bs))"
    and opened_data: "b \<in> set bs \<Longrightarrow> \<exists>it. block_function sn t opts (block_code b) = Some it \<and> any_at cmp it (snd b) (length (snd b))"
    and opened_cmp_t: "table_cmp t = cmp"
  using assms by (simp_all add: table_opened_def)

lemma block_below:
  assumes ix: "table_blocks cmp part bs seps"
    and "i < length bs" and "e \<in> set (snd (bs ! i))"
  shows "cmp (fst e) (seps ! i) \<le> 0"
proof -
  have "cmp (fst e) (fst (last (snd (bs ! i)))) \<le> 0"
    using sorted_ends(2) [OF group_sorted [OF blocks_sorted [OF ix]]] assms by simp
  moreover have "cmp (fst (last (snd (bs ! i)))) (seps ! i) \<le> 0"
  proof (cases "Suc i < length bs")
    case True
    then have "separates cmp part (fst (last (snd (bs ! i)))) (seps ! i) (fst (hd (snd (bs ! Suc i))))"
      using blocks_seps [OF ix] blocks_length [OF ix] by (simp add: seps_ok_def)
    then show ?thesis by (simp add: separates_def)
  next
    case False
    then have "i = length bs - 1" "bs \<noteq> []" using assms(2) by auto
    then show ?thesis using blocks_last [OF ix] blocks_length [OF ix] by (metis last_conv_nth length_0_conv)
  qed
  ultimately show ?thesis by (rule cmp_trans)
qed

lemma next_separates:
  assumes ix: "table_blocks cmp part bs seps"
  shows "Suc i < length bs \<Longrightarrow> separates cmp part (fst (last (snd (bs ! i)))) (seps ! i) (fst (hd (snd (bs ! Suc i))))"
  using blocks_seps [OF ix] blocks_length [OF ix] by (simp add: seps_ok_def)

text \<open>The first key of the block after is at or below every later key.\<close>

lemma later_above:
  assumes ix: "table_blocks cmp part bs seps"
    and "i < j" and "j < length bs" and "e \<in> set (snd (bs ! j))"
  shows "cmp (fst (hd (snd (bs ! Suc i)))) (fst e) \<le> 0"
proof (cases "j = Suc i")
  case True
  then show ?thesis using sorted_ends(1) [OF group_sorted [OF blocks_sorted [OF ix]]] assms by simp
next
  case False
  have "hd (snd (bs ! Suc i)) \<in> set (map snd bs ! Suc i)" using blocks_nonempty [OF ix] assms by simp
  then show ?thesis using group_order [OF blocks_sorted [OF ix], of "Suc i" j] assms False by fastforce
qed

lemma block_above:
  assumes ix: "table_blocks cmp part bs seps"
    and "i < j" and "j < length bs" and "e \<in> set (snd (bs ! j))"
  shows "cmp (seps ! i) (fst e) < 0"
  using cmp_less_le_trans [OF _ later_above [OF assms]] next_separates [OF ix, of i] assms by (simp add: separates_def)

lemma codes_distinct:
  assumes ix: "table_blocks cmp part bs seps"
  shows "i < length bs \<Longrightarrow> block_entries bs (block_code (bs ! i)) = snd (bs ! i)"
proof -
  assume i: "i < length bs"
  have inj: "b = b'" if "b \<in> set bs" "b' \<in> set bs" "block_code b = block_code b'" for b b'
  proof -
    have "fst b = fst b'"
      using bh_round_trip [of "fst b" "[]"] bh_round_trip [of "fst b'" "[]"] that(3) unfolding block_code_def append_Nil2
      by (metis Inr_inject prod.inject)
    then have "block_offset b = block_offset b'" by (simp add: block_offset_def)
    moreover have "distinct (map block_offset bs)" using blocks_offsets [OF ix] by (simp add: strict_sorted_iff)
    ultimately show ?thesis using that(1,2) by (simp add: distinct_map inj_on_def)
  qed
  have "distinct (map block_code bs)"
    using blocks_offsets [OF ix] inj by (auto simp: strict_sorted_iff distinct_map inj_on_def)
  then have "map_of (map (\<lambda>b. (block_code b, snd b)) bs) (block_code (bs ! i)) = Some (snd (bs ! i))"
    using i by (intro map_of_is_SomeI) (auto simp: comp_def)
  then show ?thesis by (simp add: block_entries_def)
qed

lemma index_nth:
  assumes ix: "table_blocks cmp part bs seps"
  shows "i < length bs \<Longrightarrow> table_index seps bs ! i = (seps ! i, block_code (bs ! i))"
  using blocks_length [OF ix] by (simp add: table_index_def)

lemma index_length:
  assumes ix: "table_blocks cmp part bs seps"
  shows "length (table_index seps bs) = length bs"
  using blocks_length [OF ix] by (simp add: table_index_def)

lemma index_sorted:
  assumes ix: "table_blocks cmp part bs seps"
  shows "entries_sorted cmp (table_index seps bs)"
  unfolding entries_sorted_def sorted_wrt_iff_nth_less
proof (intro allI impI)
  fix i j assume ij: "i < j" "j < length (table_index seps bs)"
  then have j: "j < length bs" by (simp add: index_length [OF ix])
  then obtain e where e: "e \<in> set (snd (bs ! j))" using blocks_nonempty [OF ix, of "bs ! j"] by (metis hd_in_set nth_mem)
  show "cmp (fst (table_index seps bs ! i)) (fst (table_index seps bs ! j)) < 0"
    using cmp_less_le_trans [OF block_above [OF ix ij(1) j e] block_below [OF ix j e]] ij(1) j by (simp add: index_nth [OF ix])
qed

lemma index_separated:
  assumes ix: "table_blocks cmp part bs seps"
  shows "separated cmp (block_entries bs) (table_index seps bs)"
proof -
  have e: "e \<in> set (snd (bs ! j))" if "j < length bs" "e \<in> set (block_entries bs (snd (table_index seps bs ! j)))" for j e
    using that by (simp add: index_nth [OF ix] codes_distinct [OF ix])
  have "cmp (fst e) (fst (table_index seps bs ! j)) \<le> 0"
    if "j < length bs" "e \<in> set (block_entries bs (snd (table_index seps bs ! j)))" for j e
    using block_below [OF ix that(1) e [OF that]] that(1) by (simp add: index_nth [OF ix])
  moreover have "cmp (fst (table_index seps bs ! i)) (fst e) < 0"
    if "i < j" "j < length bs" "e \<in> set (block_entries bs (snd (table_index seps bs ! j)))" for i j e
    using block_above [OF ix that(1,2) e [OF that(2,3)]] that(1,2) by (simp add: index_nth [OF ix])
  ultimately show ?thesis unfolding separated_def index_length [OF ix] by blast
qed

lemma index_flat:
  assumes ix: "table_blocks cmp part bs seps"
  shows "flat (block_entries bs) (table_index seps bs) = concat (map snd bs)"
proof -
  have "map (\<lambda>h. block_entries bs (snd h)) (table_index seps bs) = map snd bs"
    by (rule nth_equalityI) (simp_all add: index_length [OF ix] index_nth [OF ix] codes_distinct [OF ix])
  then show ?thesis by (simp add: flat_def)
qed

end

section \<open>Opening a written table\<close>

context random_access_file
begin

lemma read_meta:
  assumes ok: "ra_ok d" and t: "t_file t = rd d" "t_filter t = None" and m: "stored_block sn (contents d) mh mraw"
    and lay: "meta_layout sn (opt_filter_policy (t_options t)) (contents d) bs mraw" and f: "metaindex_handle footer = mh"
  shows "\<exists>hs f. ReadMeta sn t footer = Some (t\<lparr>heap_size := hs, t_filter := f\<rparr>) \<and> table_filter (t_options t) bs f"
proof (cases "opt_filter_policy (t_options t)")
  case None
  then show ?thesis using t(2) by (intro exI [of _ "heap_size t"] exI [of _ None]) (simp add: ReadMeta_def table_filter_def)
next
  case (Some p)
  obtain fh pos cs where l: "is_block mraw [(meta_key p, bh_EncodeTo fh [])]" "stored_block sn (contents d) fh cs"
      "cs = fst (fb_Finish (fp_CreateFilter p) (foldl (fb_add_block (fp_CreateFilter p)) new_FilterBlockBuilder (filter_calls bs pos [])))"
      "length cs < 2 ^ 32" "\<forall>b \<in> set bs. block_offset b \<le> pos"
    using lay Some by (auto simp: meta_layout_def)
  obtain bc where bc: "ReadBlock sn (rd d) (meta_ReadOptions (t_options t)) mh = Some (Inr bc)" "bc_data bc = mraw"
    using ReadBlock_stored [OF ok m] by blast
  obtain fc where fc: "ReadBlock sn (rd d) (meta_ReadOptions (t_options t)) fh = Some (Inr fc)" "bc_data fc = cs"
    using ReadBlock_stored [OF ok l(2)] by blast
  let ?kvs = "[(meta_key p, bh_EncodeTo fh [])]" and ?ops = "block_any_ops slice_compare"
  let ?it = "op_Seek ?ops (Block_NewIterator (new_Block mraw)) (meta_key p)"
  have "entries_sorted slice_compare ?kvs" by (simp add: entries_sorted_def)
  then have "any_at slice_compare ?it ?kvs (first_ge slice_compare (meta_key p) ?kvs)"
    using bytewise_block.any_block.at_Seek bytewise_block.block_any_at [OF l(1)] by blast
  moreover have "first_ge slice_compare (meta_key p) ?kvs = 0" by (simp add: first_ge_def)
  ultimately have at: "any_at slice_compare ?it ?kvs 0" by simp
  have it: "op_Valid ?ops ?it" "op_key ?ops ?it = meta_key p" "op_value ?ops ?it = bh_EncodeTo fh []"
    using bytewise_block.any_block.at_Valid [OF at] bytewise_block.any_block.at_key [OF at] bytewise_block.any_block.at_value [OF at] by simp_all
  have "bh_DecodeFrom (bh_EncodeTo fh []) = Inr (fh, [])" using bh_round_trip [of fh "[]"] by simp
  then have "ReadMeta sn t footer = Some (t\<lparr>heap_size := heap_size t + (if heap_allocated fc then length cs else 0),
      t_filter := Some (new_FilterBlockReader cs)\<rparr>)"
    using Some bc fc it t f by (simp add: ReadMeta_def ReadFilter_def slice_eq_iff Let_def)
  moreover have "table_filter (t_options t) bs (Some (new_FilterBlockReader cs))"
    using Some l(3-5) by (auto simp: table_filter_def)
  ultimately show ?thesis by blast
qed

lemma open_layout:
  assumes ok: "ra_ok d" and lay: "table_layout sn opt part (contents d) bs seps" and small: "length (contents d) < 2 ^ 32"
  shows "\<exists>t u iraw. Table_Open sn opt (rd d) (length (contents d)) tid u0 = Some (Inr t, u) \<and> t_options t = opt \<and> t_file t = rd d
    \<and> cache_id t = tid \<and> t_index_block t = new_Block iraw \<and> is_block iraw (table_index seps bs) \<and> table_filter opt bs (t_filter t)"
proof -
  obtain pre mh ih mraw iraw where l: "contents d = pre @ fst (Footer_EncodeTo \<lparr>metaindex_handle = mh, index_handle = ih\<rparr> [])"
      "stored_block sn (contents d) mh mraw" "meta_layout sn (opt_filter_policy opt) (contents d) bs mraw"
      "stored_block sn (contents d) ih iraw" "is_block iraw (table_index seps bs)"
    using lay unfolding table_layout_def table_index_def by blast
  let ?footer = "\<lparr>metaindex_handle = mh, index_handle = ih\<rparr>" and ?n = "length (contents d)"
  have n: "?n = length pre + kFooterLength" using l(1) footer_length(1) by simp
  have "unat (of_nat (length pre) :: u64) = length pre" using small n by (intro unat_of_nat64) simp
  then obtain o1 where r: "rd d (of_nat (length pre)) kFooterLength = (OK, fst (Footer_EncodeTo ?footer []), o1)"
    using rd_inside [OF ok, of "of_nat (length pre)" kFooterLength] n l(1) footer_length(1) by auto
  have foot: "Footer_DecodeFrom (fst (Footer_EncodeTo ?footer [])) = Some (Inr (?footer, []))"
    using footer_round_trip [of ?footer "[]"] by simp
  obtain ic where ic: "ReadBlock sn (rd d) (meta_ReadOptions opt) ih = Some (Inr ic)" "bc_data ic = iraw"
    using ReadBlock_stored [OF ok l(4)] by blast
  let ?t = "\<lparr>t_options = opt, t_file = rd d, cache_id = tid, t_filter = None, heap_size = 0, t_metaindex_handle = mh,
    t_index_block = new_Block iraw\<rparr>"
  obtain hs f where m: "ReadMeta sn ?t ?footer = Some (?t\<lparr>heap_size := hs, t_filter := f\<rparr>)" "table_filter opt bs f"
    using read_meta [OF ok _ _ l(2), of ?t bs ?footer] l(3) by auto
  show ?thesis
    using n r foot ic m l(5) by (auto simp: Table_Open_def Let_def)
qed

lemma data_block_at:
  assumes ok: "ra_ok d" and st: "blocks_stored sn (contents d) bs" and b: "b \<in> set bs" and t: "t_file t = rd d"
    and cmp: "bytes_comparator cmp" and sorted: "entries_sorted cmp (snd b)"
  shows "\<exists>it. block_function sn t opts (block_code b) = Some it \<and> any_at cmp it (snd b) (length (snd b))"
proof -
  obtain raw where raw: "stored_block sn (contents d) (fst b) raw" "is_block raw (snd b)" using st b by (auto simp: blocks_stored_def)
  obtain bc where bc: "ReadBlock sn (rd d) opts (fst b) = Some (Inr bc)" "bc_data bc = raw" using ReadBlock_stored [OF ok raw(1)] by blast
  have "bh_DecodeFrom (block_code b) = Inr (fst b, [])" using bh_round_trip [of "fst b" "[]"] by (simp add: block_code_def)
  then have "block_function sn t opts (block_code b) = Some (Block_NewIterator (new_Block raw))"
    using bc t by (simp add: block_function_def BlockReader_def read_new_block_def Let_def)
  then show ?thesis using bytes_comparator.block_any_at [OF cmp raw(2) sorted] by blast
qed

end

context bytes_comparator
begin

lemma good:
  assumes ix: "table_blocks cmp part bs seps" and ot: "table_opened cmp bs seps sn t opts"
  shows "good_index cmp (opt_at (any_at cmp)) (block_function sn t opts) (block_entries bs) (table_index seps bs)"
proof -
  have "\<exists>q. opt_at (any_at cmp) (block_function sn t opts (snd h)) (block_entries bs (snd h)) q" if h: "h \<in> set (table_index seps bs)" for h
  proof -
    obtain i where i: "i < length bs" "h = (seps ! i, block_code (bs ! i))"
      using h unfolding in_set_conv_nth index_length [OF ix] by (metis index_nth [OF ix])
    then show ?thesis using opened_data [OF ot, of "bs ! i"] by (auto simp: opt_at_def codes_distinct [OF ix])
  qed
  then show ?thesis using blocks_sorted [OF ix] index_separated [OF ix] index_flat [OF ix] by (simp add: good_index_def)
qed

lemma iter_at:
  assumes ix: "table_blocks cmp part bs seps" and ot: "table_opened cmp bs seps sn t opts"
  shows "tl_at cmp (any_at cmp) (opt_at (any_at cmp)) (block_function sn t opts) (Table_NewIterator t) (table_entries bs) (length (table_entries bs))"
  using two_level.new_at [OF two_level_blocks good [OF ix ot] opened_index [OF ot]] by (simp add: Table_NewIterator_def opened_cmp_t [OF ot] index_flat [OF ix])

lemma iter_displays:
  assumes ix: "table_blocks cmp part bs seps" and ot: "table_opened cmp bs seps sn t opts"
  shows "displays (table_iter_ops sn t opts) (foldl (exec (table_iter_ops sn t opts)) (Table_NewIterator t) moves) (table_entries bs)
     (foldl (move cmp (table_entries bs)) (length (table_entries bs)) moves)"
  unfolding table_iter_ops_def opened_cmp_t [OF ot] by (rule two_level.blocks_run_displays [OF two_level_blocks iter_at [OF ix ot]])

lemma index_seek:
  assumes ix: "table_blocks cmp part bs seps" and ot: "table_opened cmp bs seps sn t opts"
    and "j = first_ge cmp k (table_index seps bs)"
  shows "any_at cmp (op_Seek (block_any_ops cmp) (Block_NewIterator (t_index_block t)) k) (table_index seps bs) j"
  using any_block.at_Seek [OF opened_index [OF ot]] assms by simp

lemma get_at:
  assumes ix: "table_blocks cmp part bs seps" and ot: "table_opened cmp bs seps sn t opts"
    and j: "j = first_ge cmp k (table_index seps bs)"
  shows "InternalGet sn t opts k =
    Some (OK, if j < length bs \<and> \<not> filter_excludes t (block_code (bs ! j)) k \<and> first_ge cmp k (snd (bs ! j)) < length (snd (bs ! j))
              then Some (snd (bs ! j) ! first_ge cmp k (snd (bs ! j))) else None)"
proof -
  let ?ops = "block_any_ops cmp"
  let ?i = "op_Seek ?ops (Block_NewIterator (t_index_block t)) k"
  have i: "op_Valid ?ops ?i \<longleftrightarrow> j < length bs" "op_status ?ops ?i = OK" "j < length bs \<Longrightarrow> op_value ?ops ?i = block_code (bs ! j)"
    using any_block.at_Valid [OF index_seek [OF ix ot j]] any_block.at_status [OF index_seek [OF ix ot j]] any_block.at_value [OF index_seek [OF ix ot j]]
    by (simp_all add: index_length [OF ix] index_nth [OF ix])
  show ?thesis
  proof (cases "j < length bs \<and> \<not> filter_excludes t (block_code (bs ! j)) k")
    case True
    obtain it where it: "block_function sn t opts (block_code (bs ! j)) = Some it" "any_at cmp it (snd (bs ! j)) (length (snd (bs ! j)))"
      using opened_data [OF ot, of "bs ! j"] True by auto
    have b: "any_at cmp (op_Seek ?ops it k) (snd (bs ! j)) (first_ge cmp k (snd (bs ! j)))" by (rule any_block.at_Seek [OF it(2)])
    show ?thesis
      using True i it(1) any_block.at_Valid [OF b] any_block.at_status [OF b] any_block.at_key [OF b] any_block.at_value [OF b]
      by (simp add: InternalGet_def opened_cmp_t [OF ot])
  next
    case False
    then show ?thesis using i by (auto simp: InternalGet_def opened_cmp_t [OF ot])
  qed
qed

lemma seek_flat:
  assumes ix: "table_blocks cmp part bs seps" and ot: "table_opened cmp bs seps sn t opts"
    and j: "j = first_ge cmp k (table_index seps bs)"
  shows "first_ge cmp k (table_entries bs) = (if j < length bs then block_start (block_entries bs) (table_index seps bs) j + first_ge cmp k (snd (bs ! j)) else length (table_entries bs))"
  using two_level.first_ge_flat [OF two_level_blocks good [OF ix ot] j] by (simp add: index_flat [OF ix] index_length [OF ix] index_nth [OF ix] codes_distinct [OF ix])

lemma flat_entry:
  assumes ix: "table_blocks cmp part bs seps" and ot: "table_opened cmp bs seps sn t opts"
    and "j < length bs" and "q < length (snd (bs ! j))"
  shows "table_entries bs ! (block_start (block_entries bs) (table_index seps bs) j + q) = snd (bs ! j) ! q"
    and "block_start (block_entries bs) (table_index seps bs) j + q < length (table_entries bs)"
  using flat_nth [of j "table_index seps bs" q "block_entries bs"] block_start_less [of j "table_index seps bs" q "block_entries bs"] assms
  by (simp_all add: index_flat [OF ix] index_length [OF ix] index_nth [OF ix] codes_distinct [OF ix])

text \<open>A lookup finds the first entry from the key on, or nothing.\<close>

lemma get_first:
  assumes ix: "table_blocks cmp part bs seps" and ot: "table_opened cmp bs seps sn t opts"
  shows "\<exists>r. InternalGet sn t opts k = Some (OK, r) \<and> (r = None \<or> first_ge cmp k (table_entries bs) < length (table_entries bs) \<and> r = Some (table_entries bs ! first_ge cmp k (table_entries bs)))"
  using get_at [OF ix ot refl, of k] seek_flat [OF ix ot refl, of k] flat_entry [OF ix ot] by simp

text \<open>The block of an entry with the part of the key looked up is the block the index names.\<close>

lemma part_block:
  assumes ix: "table_blocks cmp part bs seps" and ot: "table_opened cmp bs seps sn t opts"
    and e: "first_ge cmp k (table_entries bs) < length (table_entries bs)" and part: "part (fst (table_entries bs ! first_ge cmp k (table_entries bs))) = part k"
    and j: "j = first_ge cmp k (table_index seps bs)"
  shows "j < length bs" and "first_ge cmp k (snd (bs ! j)) < length (snd (bs ! j))"
proof -
  show jl: "j < length bs" using seek_flat [OF ix ot j] e by (auto split: if_splits)
  let ?q = "first_ge cmp k (snd (bs ! j))"
  show "?q < length (snd (bs ! j))"
  proof (rule ccontr)
    assume "\<not> ?q < length (snd (bs ! j))"
    then have q: "?q = length (snd (bs ! j))" using first_ge_le [of cmp k "snd (bs ! j)"] by linarith
    have below: "cmp (fst x) k < 0" if "x \<in> set (snd (bs ! j))" for x
      using that first_ge_before [of _ cmp k "snd (bs ! j)"] unfolding q by (metis in_set_conv_nth)
    have "\<not> cmp (seps ! j) k < 0" using first_ge_at [of cmp k "table_index seps bs"] jl j by (simp add: index_length [OF ix] index_nth [OF ix])
    then have sep: "cmp k (seps ! j) \<le> 0" by (simp add: cmp_le_flip)
    let ?e = "table_entries bs ! first_ge cmp k (table_entries bs)"
    have above: "\<not> cmp (fst ?e) k < 0" using first_ge_at [OF e] .
    have "?e \<in> set (table_entries bs)" using e by (rule nth_mem)
    then obtain b where "b \<in> set bs" "?e \<in> set (snd b)" by auto
    then obtain i where i: "i < length bs" "?e \<in> set (snd (bs ! i))" by (metis in_set_conv_nth)
    have "\<not> i < j"
    proof
      assume "i < j"
      then have "cmp (seps ! i) k < 0" using first_ge_before [of i cmp k "table_index seps bs"] i(1) j by (simp add: index_nth [OF ix])
      then show False using cmp_le_less_trans block_below [OF ix i] above by blast
    qed
    then have ij: "j < i" using i(2) below above by (metis linorder_neqE_nat)
    have "separates cmp part (fst (last (snd (bs ! j)))) (seps ! j) (fst (hd (snd (bs ! Suc j))))"
      using next_separates [OF ix, of j] ij i(1) by simp
    moreover have "seps ! j \<noteq> fst (last (snd (bs ! j)))"
      using below [of "last (snd (bs ! j))"] blocks_nonempty [OF ix, of "bs ! j"] jl \<open>\<not> cmp (seps ! j) k < 0\<close> by (metis last_in_set nth_mem)
    ultimately show False using sep later_above [OF ix ij i] part unfolding separates_def by metis
  qed
qed

lemma get_finds:
  assumes ix: "table_blocks cmp part bs seps" and ot: "table_opened cmp bs seps sn t opts"
    and e: "first_ge cmp k (table_entries bs) < length (table_entries bs)" and part: "part (fst (table_entries bs ! first_ge cmp k (table_entries bs))) = part k"
    and passes: "\<And>b x. b \<in> set bs \<Longrightarrow> x \<in> set (snd b) \<Longrightarrow> part (fst x) = part k \<Longrightarrow> \<not> filter_excludes t (block_code b) k"
  shows "InternalGet sn t opts k = Some (OK, Some (table_entries bs ! first_ge cmp k (table_entries bs)))"
proof -
  define j where j: "j = first_ge cmp k (table_index seps bs)"
  note b = part_block [OF ix ot e part j]
  have x: "table_entries bs ! first_ge cmp k (table_entries bs) = snd (bs ! j) ! first_ge cmp k (snd (bs ! j))"
    using seek_flat [OF ix ot j] flat_entry(1) [OF ix ot b] b(1) by simp
  have "\<not> filter_excludes t (block_code (bs ! j)) k" using passes [of "bs ! j" "snd (bs ! j) ! first_ge cmp k (snd (bs ! j))"] b part x by simp
  then show ?thesis using get_at [OF ix ot j] b x by simp
qed

end

section \<open>Tables that the builder wrote\<close>

lemma fr_cong: "m x = m' y \<Longrightarrow> fr_KeyMayMatch m r pos x = fr_KeyMayMatch m' r pos y"
  by (simp add: fr_KeyMayMatch_def)

context part_filter
begin

lemma part_policy: "filter_policy create (\<lambda>key. may_match (if part key = part k then k else key))"
  by unfold_locales (rule part_append, simp add: part_match)

lemma part_block_complete:
  assumes "sorted (map fst blks)" and "(pos, xs) \<in> set blks" and "x \<in> set xs" and part: "part x = part k"
    and "length (fst (fb_Finish create (foldl (fb_add_block create) new_FilterBlockBuilder blks))) < 2 ^ 32"
  shows "fr_KeyMayMatch may_match
    (new_FilterBlockReader (fst (fb_Finish create (foldl (fb_add_block create) new_FilterBlockBuilder blks)))) pos k"
  using filter_policy.filter_block_complete [OF part_policy assms(1-3,5), of k] fr_cong [of "\<lambda>key. may_match (if part key = part k then k else key)" x may_match k] part
  by simp

lemma filter_passes:
  assumes f: "table_filter opt bs (t_filter t)" and opt: "t_options t = opt" "opt_filter_policy opt = Some p"
    and p: "create = fp_CreateFilter p" "may_match = fp_KeyMayMatch p"
    and sorted: "sorted_wrt (<) (map block_offset bs)" and b: "b \<in> set bs" and x: "x \<in> set (snd b)" "part (fst x) = part k"
  shows "\<not> filter_excludes t (block_code b) k"
proof -
  obtain contents pos where c: "t_filter t = Some (new_FilterBlockReader contents)"
      "contents = fst (fb_Finish create (foldl (fb_add_block create) new_FilterBlockBuilder (filter_calls bs pos [])))"
      "length contents < 2 ^ 32" "\<forall>b \<in> set bs. block_offset b \<le> pos"
    using f opt p(1) by (auto simp: table_filter_def)
  have "sorted (map fst (filter_calls bs pos []))"
    using sorted c(4) by (auto simp: filter_calls_def sorted_append comp_def strict_sorted_iff)
  moreover have "(block_offset b, map fst (snd b)) \<in> set (filter_calls bs pos [])" using b by (simp add: filter_calls_def)
  moreover have "fst x \<in> set (map fst (snd b))" using x(1) by simp
  ultimately have "fr_KeyMayMatch may_match (new_FilterBlockReader contents) (block_offset b) k"
    using part_block_complete x(2) c(3) unfolding c(2) by blast
  moreover have "bh_DecodeFrom (block_code b) = Inr (fst b, [])" using bh_round_trip [of "fst b" "[]"] by (simp add: block_code_def)
  ultimately show ?thesis using c(1) opt p(2) by (simp add: filter_excludes_def block_offset_def)
qed

end

text \<open>A store for tables: files that are written once and then read at random.\<close>

locale table_store = table_build app flush written wf_ok opt part sn + random_access_file rd contents ra_ok
  for app :: "'d \<Rightarrow> bytes \<Rightarrow> status \<times> 'd" and flush written wf_ok opt part sn
    and rd :: "'f \<Rightarrow> RandomAccessFile" and contents ra_ok
begin

lemma bytes_cmp: "bytes_comparator cmp"
  using keys.comparator_axioms by (simp add: bytes_comparator_def)

lemma layout_blocks:
  assumes "table_layout sn opt part f bs seps" and "entries_sorted cmp (table_entries bs)"
  shows "table_blocks cmp part bs seps"
  using assms by (auto simp: table_blocks_def table_layout_def blocks_stored_def sorted_wrt_append)

lemma layout_opened:
  assumes ok: "ra_ok d" and lay: "table_layout sn opt part (contents d) bs seps" and sorted: "entries_sorted cmp (table_entries bs)"
    and small: "length (contents d) < 2 ^ 32"
  shows "\<exists>t u. Table_Open sn opt (rd d) (length (contents d)) tid u0 = Some (Inr t, u) \<and> t_options t = opt
    \<and> table_filter opt bs (t_filter t) \<and> table_opened cmp bs seps sn t opts"
proof -
  obtain t u iraw where t: "Table_Open sn opt (rd d) (length (contents d)) tid u0 = Some (Inr t, u)" "t_options t = opt"
      "t_file t = rd d" "t_index_block t = new_Block iraw" "is_block iraw (table_index seps bs)" "table_filter opt bs (t_filter t)"
    using open_layout [OF ok lay small, of tid u0] by blast
  note ix = layout_blocks [OF lay sorted]
  have st: "blocks_stored sn (contents d) bs" using lay by (simp add: table_layout_def)
  have "\<exists>it. block_function sn t opts (block_code b) = Some it \<and> any_at cmp it (snd b) (length (snd b))" if b: "b \<in> set bs" for b
  proof -
    have "entries_sorted cmp (snd b)" 
      using bytes_comparator.group_sorted [OF bytes_cmp sorted] b by (metis in_set_conv_nth length_map nth_map)
    then show ?thesis using data_block_at [OF ok st b t(3) bytes_cmp] by blast
  qed
  moreover have "any_at cmp (Block_NewIterator (t_index_block t)) (table_index seps bs) (length (table_index seps bs))"
    unfolding t(4) by (rule bytes_comparator.block_any_at [OF bytes_cmp t(5) bytes_comparator.index_sorted [OF bytes_cmp ix]])
  ultimately have "table_opened cmp bs seps sn t opts" using t(2) by (simp add: table_opened_def table_cmp_def)
  then show ?thesis using t by blast
qed

text \<open>Building a table, and opening what was written.\<close>

lemma reopen:
  assumes "wf_ok f" and "written f = []" and sorted: "entries_sorted cmp kvs" and "esize kvs + 8 < 2 ^ 32"
    and "\<And>p. opt_filter_policy opt = Some p \<Longrightarrow> length (fp_Name p) < 2 ^ 31"
    and r: "build_table sn opt (vtable_of app flush) f kvs = (s, r)" and size: "FileSize r < 2 ^ 32"
    and d: "ra_ok d" "contents d = written (tb_file r)"
  shows "s = OK \<and> tb_asserts r \<and> (\<exists>t u bs seps. Table_Open sn opt (rd d) (FileSize r) tid u0 = Some (Inr t, u) \<and> t_options t = opt
    \<and> table_entries bs = kvs \<and> table_blocks cmp part bs seps \<and> table_opened cmp bs seps sn t opts \<and> table_filter opt bs (t_filter t))"
proof -
  obtain bs seps where b: "s = OK" "good r" "table_layout sn opt part (written (tb_file r)) bs seps" "table_entries bs = kvs"
    using build_layout [OF assms(1-4)] assms(5) size r by auto
  have n: "FileSize r = length (contents d)" "tb_asserts r" using b(2) d(2) by (simp_all add: tb_io_def FileSize_def)
  obtain t u where "Table_Open sn opt (rd d) (length (contents d)) tid u0 = Some (Inr t, u)" "t_options t = opt"
      "table_filter opt bs (t_filter t)" "table_opened cmp bs seps sn t opts"
    using layout_opened [OF d(1), of bs seps tid u0 opts] b(3,4) d(2) sorted size n(1) by auto
  then show ?thesis using b layout_blocks [OF b(3)] sorted n by auto
qed

end

text \<open>
  The store of a database in the in-memory environment: the sanitized options of a new database, with a Bloom filter of
  the user keys.
\<close>

abbreviation db_options :: "nat \<Rightarrow> nat \<Rightarrow> nat \<Rightarrow> Options" where
  "db_options a b bits \<equiv> SanitizeOptions (InternalKeyComparator a (BytewiseComparator b)) (InternalFilterPolicy (BloomPolicy bits))
     ((new_Options b)\<lparr>opt_filter_policy := Some (BloomPolicy bits)\<rparr>)"

interpretation mem_store: table_store fs_Append wf_Flush fs_contents fs_inv "db_options a b bits" ExtractUserKey no_Snappy
  mem_random_access fs_contents fs_inv
proof -
  have "table_keys (InternalKey_Compare slice_compare) (InternalKey_FindShortestSeparator slice_compare Bytewise_FindShortestSeparator)
      (InternalKey_FindShortSuccessor slice_compare Bytewise_FindShortSuccessor) ExtractUserKey"
    by (rule bytewise.internal_keys.table_keys_axioms)
  moreover have "snappy_ok no_Snappy" by (simp add: snappy_ok_def no_Snappy_def)
  ultimately show "table_store fs_Append wf_Flush fs_contents fs_inv (db_options a b bits) ExtractUserKey no_Snappy
      mem_random_access fs_contents fs_inv"
    by (simp add: table_store_def table_build_def table_build_axioms_def mem_writer.writable_file_axioms
        mem_access.random_access_file_axioms SanitizeOptions_def InternalKeyComparator_def BytewiseComparator_def new_Options_def)
qed

text \<open>A table of two versions of a key, evaluated up to the bytes of its checksums.\<close>

definition raw_file :: "'d TableBuilder \<Rightarrow> bytes \<Rightarrow> CompressionType \<Rightarrow> 'd" where
  "raw_file r c ty = tb_file (snd (WriteRawBlock r c ty))"

abbreviation sample_entries :: "entry list" where
  "sample_entries \<equiv> [([97, 1, 5, 0, 0, 0, 0, 0, 0], [49]), ([97, 1, 4, 0, 0, 0, 0, 0, 0], [50])]"

context writable_file
begin

lemma WriteRawBlock_eval:
  assumes "tb_vtable r = vtable_of app flush" "wf_ok (tb_file r)"
  shows "WriteRawBlock r c ty = (\<lparr>bh_offset = of_nat (tb_offset r), bh_size = of_nat (length c)\<rparr>,
      r\<lparr>tb_status := OK, tb_file := raw_file r c ty, tb_offset := tb_offset r + length c + 5\<rparr>)" (is ?W)
    and "wf_ok (raw_file r c ty)"
proof -
  obtain d where d: "app (tb_file r) c = (OK, d)" "wf_ok d" using app_law [OF assms(2)] by blast
  obtain d2 where d2: "app d (compression_byte ty # EncodeFixed32 (Mask (crc_Extend (crc_Value c) [compression_byte ty]))) = (OK, d2)" "wf_ok d2"
    using app_law [OF d(2)] by blast
  have "WriteRawBlock r c ty = (\<lparr>bh_offset = of_nat (tb_offset r), bh_size = of_nat (length c)\<rparr>,
      r\<lparr>tb_status := OK, tb_file := d2, tb_offset := tb_offset r + length c + 5\<rparr>)"
    using d(1) d2(1) assms(1) unfolding WriteRawBlock_def Let_def file_append_def tb_ok_def by (simp add: kBlockTrailerSize_def)
  then show ?W and "wf_ok (raw_file r c ty)" using d2 by (simp_all add: raw_file_def)
qed

end

lemma write_footer_offset:
  "tb_vtable r = vtable_of fs_Append wf_Flush \<Longrightarrow> tb_status r = OK \<Longrightarrow> tb_offset (write_footer r mh ih) = tb_offset r + kFooterLength"
  using footer_length by (simp add: write_footer_def file_append_def tb_ok_def tb_assert_def fs_Append_def case_prod_beta Let_def)

lemma bloom_length:
  "length ks \<le> 6 \<Longrightarrow> length (InternalFilter_CreateFilter (CreateFilter (NewBloomFilterPolicy 10)) ks dst) = length dst + 9"
  by (simp add: InternalFilter_CreateFilter_def CreateFilter_def filter_bytes_def NewBloomFilterPolicy_def Let_def)

lemma sample_successor:
  "InternalKey_FindShortSuccessor slice_compare Bytewise_FindShortSuccessor [97, 1, 4, 0, 0, 0, 0, 0, 0] = [97, 1, 4, 0, 0, 0, 0, 0, 0]"
  by code_simp

lemma sample_meta_key: "length (lit ''filter.'' @ lit ''leveldb.BuiltinBloomFilter2'') = 34"
  by code_simp

lemmas build_eval = new_TableBuilder_def tb_Add_def tb_Finish_def tb_Flush_def WriteBlock_def write_filter_def write_metaindex_def
  write_index_def tb_assert_def FileSize_def filter_StartBlock_def tb_ok_def bb_empty_def new_BlockBuilder_def bb_Finish_def bb_Reset_def
  compress_block_def no_Snappy_def PutFixed32_def new_Options_def SanitizeOptions_def wf_Flush_def Let_def
  settle_index_def check_order_def append_entry_def filter_AddKey_def CurrentSizeEstimate_def bb_Add_def clip_size_small
  PutVarint32_def EncodeVarint32_def BytewiseComparator_def add_index_entry_def kFooterLength_def kMaxEncodedLength_def bh_EncodeTo_def
  PutVarint64_def EncodeVarint64.simps fb_AddKey_def BloomPolicy_def InternalFilterPolicy_def StartBlock_def StartBlock_loop.simps
  kFilterBase_def kFilterBaseLg_def new_FilterBlockBuilder_def GenerateFilter_def fb_Finish_def meta_key_def InternalKeyComparator_def

lemma sample_size: "FileSize (snd (build_table no_Snappy (db_options 1 2 10) (vtable_of fs_Append wf_Flush) new_FileState sample_entries)) < 2 ^ 32"
  unfolding build_table_def foldl.simps prod.case
  by (simp add: build_eval mem_writer.WriteRawBlock_eval write_footer_offset bloom_length sample_successor sample_meta_key [simplified]
      cong: let_weak_cong prod.case_cong_weak option.case_cong_weak)

lemma sample_compare: "InternalKey_Compare slice_compare [97, 1, 5, 0, 0, 0, 0, 0, 0] [97, 1, 4, 0, 0, 0, 0, 0, 0] = -1"
  by code_simp

lemma sample_sorted: "entries_sorted (cmp_Compare (opt_comparator (db_options 1 2 10))) sample_entries"
  using sample_compare by (simp add: entries_sorted_def SanitizeOptions_def InternalKeyComparator_def BytewiseComparator_def)

lemma sample_policy: "opt_filter_policy (db_options 1 2 10) = Some (InternalFilterPolicy (BloomPolicy 10))"
  by (simp add: SanitizeOptions_def)

lemma sample_filter:
  "opt_filter_policy (db_options 1 2 10) = Some p \<Longrightarrow>
    part_filter (fp_CreateFilter p) (fp_KeyMayMatch p) ExtractUserKey \<and> length (fp_Name p) < 2 ^ 31"
proof -
  have "length (lit ''leveldb.BuiltinBloomFilter2'') = 27" by code_simp
  then show "opt_filter_policy (db_options 1 2 10) = Some p \<Longrightarrow> ?thesis"
    using bloom.internal_filter by (auto simp: SanitizeOptions_def InternalFilterPolicy_def BloomPolicy_def)
qed

lemma sample_built:
  obtains r where "build_table no_Snappy (db_options 1 2 10) (vtable_of fs_Append wf_Flush) new_FileState sample_entries = (OK, r)"
    "FileSize r < 2 ^ 32" "fs_inv (tb_file r)" "esize sample_entries + 8 < 2 ^ 32"
proof -
  have e: "esize sample_entries + 8 < 2 ^ 32" by (simp add: esize_def)
  show ?thesis
    using mem_store.build_layout [OF fs_inv_new(1,2) sample_sorted e conjunct2 [OF sample_filter] sample_size] sample_size e that
    by (auto simp: tb_io_def)
qed

section \<open>Properties\<close>



text \<open>
  C4. A lookup in a table finds the first entry at or after the key whenever that entry has the part of the key that
  the filter looks at (the user key of an internal key): the index leads to its block and the filter does not exclude it.
  Otherwise it finds that entry or none.
\<close>

theorem table_get:
  assumes store: "table_store app flush written wf_ok opt part sn rd contents ra_ok"
    and filter: "\<And>p. opt_filter_policy opt = Some p \<Longrightarrow> part_filter (fp_CreateFilter p) (fp_KeyMayMatch p) part \<and> length (fp_Name p) < 2 ^ 31"
    and "wf_ok f" and "written f = []" and "entries_sorted (cmp_Compare (opt_comparator opt)) kvs" and "esize kvs + 8 < 2 ^ 32"
    and "build_table sn opt (vtable_of app flush) f kvs = (s, r)" and "FileSize r < 2 ^ 32"
    and "ra_ok d" and "contents d = written (tb_file r)"
    and t: "Table_Open sn opt (rd d) (FileSize r) tid used = Some (Inr t, u)"
    and p: "p = first_ge (cmp_Compare (opt_comparator opt)) k kvs"
  shows "\<exists>found. InternalGet sn t opts k = Some (OK, found)
    \<and> (found = None \<or> p < length kvs \<and> found = Some (kvs ! p))
    \<and> (p < length kvs \<and> part (fst (kvs ! p)) = part k \<longrightarrow> found = Some (kvs ! p))"
proof -
  note bc = table_store.bytes_cmp [OF store]
  obtain bs seps where t': "t_options t = opt" "table_entries bs = kvs" "table_blocks (cmp_Compare (opt_comparator opt)) part bs seps"
      "table_opened (cmp_Compare (opt_comparator opt)) bs seps sn t opts" "table_filter opt bs (t_filter t)"
    using table_store.reopen [OF store assms(3-6), of s r d tid used opts] assms(7-10) filter t by auto
  have "\<not> filter_excludes t (block_code b) k" if "b \<in> set bs" "x \<in> set (snd b)" "part (fst x) = part k" for b x
  proof (cases "opt_filter_policy opt")
    case None
    then show ?thesis using t'(1) by (auto simp: filter_excludes_def split: option.splits sum.splits)
  next
    case (Some p)
    then show ?thesis
      using part_filter.filter_passes [OF _ t'(5,1) Some refl refl bytes_comparator.blocks_offsets [OF bc t'(3)] that] filter by blast
  qed
  then show ?thesis
    using bytes_comparator.get_first [OF bc t'(3,4), of k] bytes_comparator.get_finds [OF bc t'(3,4), of k] t'(2) p by auto
qed

theorem table_get_witness:
  "\<exists>r t u. build_table no_Snappy (db_options 1 2 10) (vtable_of fs_Append wf_Flush) new_FileState sample_entries = (OK, r)
    \<and> Table_Open no_Snappy (db_options 1 2 10) (mem_random_access (tb_file r)) (FileSize r) 7 0 = Some (Inr t, u)
    \<and> InternalGet no_Snappy t new_ReadOptions [97, 1, 4, 0, 0, 0, 0, 0, 0] = Some (OK, Some ([97, 1, 4, 0, 0, 0, 0, 0, 0], [50]))"
proof -
  let ?k = "[97, 1, 4, 0, 0, 0, 0, 0, 0] :: bytes" and ?c = "cmp_Compare (opt_comparator (db_options 1 2 10))"
  obtain r where r: "build_table no_Snappy (db_options 1 2 10) (vtable_of fs_Append wf_Flush) new_FileState sample_entries = (OK, r)"
    "FileSize r < 2 ^ 32" "fs_inv (tb_file r)" "esize sample_entries + 8 < 2 ^ 32"
    by (rule sample_built)
  obtain t u where t: "Table_Open no_Snappy (db_options 1 2 10) (mem_random_access (tb_file r)) (FileSize r) 7 0 = Some (Inr t, u)"
    using mem_store.reopen [OF fs_inv_new(1,2) sample_sorted r(4) conjunct2 [OF sample_filter] r(1,2,3) refl, of 7 0] by blast
  have p: "1 = first_ge ?c ?k sample_entries"
    using sample_compare by (simp add: first_ge_def SanitizeOptions_def InternalKeyComparator_def BytewiseComparator_def bytewise.ikey.cmp_refl)
  obtain found where "InternalGet no_Snappy t new_ReadOptions ?k = Some (OK, found)"
      "1 < length sample_entries \<and> ExtractUserKey (fst (sample_entries ! 1)) = ExtractUserKey ?k \<longrightarrow> found = Some (sample_entries ! 1)"
    using table_get [OF mem_store.table_store_axioms sample_filter fs_inv_new(1,2) sample_sorted r(4,1,2,3) refl t p, of new_ReadOptions] by blast
  then have "InternalGet no_Snappy t new_ReadOptions ?k = Some (OK, Some (?k, [50]))" by simp
  then show ?thesis using r(1) t by blast
qed

end
