(* ===== verification/Spec2Isabelle.thy ===== *)
theory Spec2Isabelle
  imports WriteBatch Randgen SkipList SkipListConc MemTable Crc32c Filename LogReader Block FilterBlock VersionEdit Cache Table
begin

text \<open>
  A verification of the LevelDB key-value store under \<open>src/\<close>.

  \<^bold>\<open>The program.\<close> A database is a log-structured merge tree. A write is a \<open>WriteBatch\<close>, appended to a
  log and inserted into a memtable (a skip list ordered by internal key). Full memtables become
  sorted table files, made of prefix-compressed blocks, an index block and Bloom filter blocks.
  A \<open>VersionSet\<close> tracks the files of each level and picks compactions; a manifest log of
  \<open>VersionEdit\<close> records makes that state durable.

  \<^bold>\<open>The theories.\<close>
  \<^item> \<open>Prelude\<close>: byte strings, words, buffer writes and \<open>Status\<close> (\<open>include/leveldb/status.h\<close>,
    \<open>util/status.cc\<close>).
  \<^item> \<open>Coding\<close>: \<open>util/coding.h\<close>, \<open>util/coding.cc\<close>.
  \<^item> \<open>Comparator\<close>: \<open>include/leveldb/slice.h\<close>, \<open>util/comparator.cc\<close>.
  \<^item> \<open>Dbformat\<close>: \<open>db/dbformat.h\<close>, \<open>db/dbformat.cc\<close>.
  \<^item> \<open>WriteBatch\<close>: \<open>db/write_batch.cc\<close>, \<open>db/write_batch_internal.h\<close>.
\<close>

end
